theory Spec2Isabelle
  imports Complex_Main "HOL-Library.AList"
begin

section \<open>Data model (core/types.ts)\<close>

text \<open>
  The plant simulation keeps one process-wide store: a table of segments (\<open>PlantNode\<close>),
  three resource scalars, the climate record, a selection and the pause/speed flags.
  The embedding follows the TypeScript source function by function.

  Conventions of the embedding.
  \<^item> The quantities of a segment, of the resources and of the climate are \<open>real\<close>, and the
    arithmetic on them is exact. An IEEE double departs from that in three ways, each modelled
    where a statement depends on it: rounding (the sugar debit of \<open>addNode\<close>, section
    \<open>Rounding to a double\<close>); an argument that is \<open>NaN\<close> or infinite (type \<open>number\<close>, used by
    \<open>setSpeedMultiplier\<close>); overflow (the products \<open>radius * 10\<close> and \<open>radius * 5\<close> of the
    metabolism are finite doubles for radii up to \<open>10^307\<close>, the bound \<open>radiiInModel\<close> puts on
    the stores from which the reachable states are continued). The tick, day and id counters,
    which the source only ever increments by one, are \<open>nat\<close>.
  \<^item> A segment identifier \<open>node_k\<close> (produced by \<open>generateId\<close> from the counter \<open>nextId\<close>)
    is the number \<open>k\<close>, and only such strings are ever keys of the table. The operations take
    their segment ids as such numbers. The parent key of \<open>addNode\<close> is in addition modelled
    as an arbitrary string (\<open>NodeKey\<close>, \<open>addNodeCall\<close>): a string that is not a key of the table
    can still name a property that the table inherits from \<open>Object.prototype\<close>, and \<open>addNode\<close>
    does not behave there as it does at an absent id.
  \<^item> \<open>state.nodes\<close> is a JavaScript object with string keys; its enumeration order is the
    insertion order of the keys. It is an association list: assignment to a key is
    \<open>AList.update\<close> (in place for a present key, appended for a new one), \<open>delete\<close> is
    \<open>AList.delete\<close>, \<open>Object.values\<close> is \<open>map snd\<close>.
  \<^item> Node objects are shared by reference in the source. Every node object is stored under
    exactly one key, so a reference is modelled by that key and a read through a reference by a
    lookup in the current table.
  \<^item> \<open>Math.random()\<close> reads the next element of a stream of outcomes carried in the state;
    theorems quantify over the stream.
  \<^item> Observer notification (\<open>emit\<close>) and console output do not touch the store and are not
    modelled.
\<close>

datatype NodeType = SEED | ROOT | TRUNK | BRANCH | LEAF

text \<open>
  The values of a JavaScript \<open>number\<close>, for the places where an argument may be any of them:
  the finite ones (as reals), the two infinities and \<open>NaN\<close>. \<open>Math.min\<close> and \<open>Math.max\<close>
  return \<open>NaN\<close> as soon as one argument is \<open>NaN\<close>.
\<close>

datatype number = NaN | NegInf | Fin real | PosInf

fun mathMin :: "number \<Rightarrow> number \<Rightarrow> number" where
  "mathMin NaN y = NaN"
| "mathMin x NaN = NaN"
| "mathMin NegInf y = NegInf"
| "mathMin x NegInf = NegInf"
| "mathMin PosInf y = y"
| "mathMin x PosInf = x"
| "mathMin (Fin a) (Fin b) = Fin (min a b)"

fun mathMax :: "number \<Rightarrow> number \<Rightarrow> number" where
  "mathMax NaN y = NaN"
| "mathMax x NaN = NaN"
| "mathMax PosInf y = PosInf"
| "mathMax x PosInf = PosInf"
| "mathMax NegInf y = y"
| "mathMax x NegInf = x"
| "mathMax (Fin a) (Fin b) = Fin (max a b)"

record Vec2 =
  vx :: real
  vy :: real

type_synonym NodeId = nat

record PlantNode =
  ident :: NodeId
  ntype :: NodeType
  position :: Vec2
  parentId :: "NodeId option"
  childrenIds :: "NodeId list"
  radius :: real
  structuralHealth :: real
  waterPressure :: real
  sugarConcentration :: real
  sugarStore :: real
  isActive :: bool
  stressLevel :: real

record ClimateState =
  sunIntensity :: real
  sunAngle :: real
  temperature :: real
  humidity :: real
  soilWater :: real
  isRaining :: bool
  dayProgress :: real
  day :: nat
  tick :: nat

record GameResources =
  sugar :: real
  water :: real
  minerals :: real

record GameState =
  nodes :: "(NodeId \<times> PlantNode) list"
  seedId :: NodeId
  resources :: GameResources
  climate :: ClimateState
  selectedNodeId :: "NodeId option"
  isPaused :: bool
  speedMultiplier :: number

datatype SapType = xylem | phloem

record FlowParticle =
  pid :: nat
  fromNodeId :: NodeId
  toNodeId :: NodeId
  progress :: real
  ptype :: SapType
  speed :: real

text \<open>
  \<open>Sim\<close> extends the store by the module-level variables of the core modules:
  \<open>nextId\<close> (state.ts), the particle list, its id counter and the per-connection counts
  (hydraulics.ts), the auto-grow switch and its tick counter (autogrow.ts), and the stream of
  outcomes of \<open>Math.random()\<close> with the number of outcomes already consumed.
\<close>

record Sim = GameState +
  nextId :: nat
  particles :: "FlowParticle list"
  nextParticleId :: nat
  connectionParticleCounts :: "(NodeId \<times> NodeId) \<rightharpoonup> nat"
  autoGrowEnabled :: bool
  ticksSinceLastGrowth :: nat
  rolls :: "nat \<Rightarrow> real"
  rollsUsed :: nat

section \<open>Configuration constants (core/config.ts)\<close>

definition TICKS_PER_SECOND :: nat where "TICKS_PER_SECOND = 20"
definition SECONDS_PER_DAY :: nat where "SECONDS_PER_DAY = 60"
definition INITIAL_SUGAR :: real where "INITIAL_SUGAR = 100"
definition INITIAL_WATER :: real where "INITIAL_WATER = 30"
definition INITIAL_MINERALS :: real where "INITIAL_MINERALS = 20"
definition COST_LEAF :: real where "COST_LEAF = 10"
definition COST_BRANCH :: real where "COST_BRANCH = 15"
definition COST_ROOT :: real where "COST_ROOT = 12"
definition COST_TRUNK :: real where "COST_TRUNK = 20"
definition COST_HARDEN :: real where "COST_HARDEN = 5"
definition SEED_RADIUS :: real where "SEED_RADIUS = 0.03"
definition LEAF_RADIUS :: real where "LEAF_RADIUS = 0.015"
definition BRANCH_RADIUS :: real where "BRANCH_RADIUS = 0.02"
definition ROOT_RADIUS :: real where "ROOT_RADIUS = 0.018"
definition TRUNK_RADIUS :: real where "TRUNK_RADIUS = 0.04"
definition TRANSPIRATION_RATE :: real where "TRANSPIRATION_RATE = 0.03"
definition ROOT_UPTAKE_RATE :: real where "ROOT_UPTAKE_RATE = 0.12"
definition WATER_FLOW_RATE :: real where "WATER_FLOW_RATE = 0.4"
definition FLOW_THRESHOLD :: real where "FLOW_THRESHOLD = 0.003"
definition SUGAR_DIFFUSION_RATE :: real where "SUGAR_DIFFUSION_RATE = 0.2"
definition NODE_RESPIRATION_COST :: real where "NODE_RESPIRATION_COST = 0.002"
definition PHOTOSYNTHESIS_RATE :: real where "PHOTOSYNTHESIS_RATE = 0.5"
definition WATER_PER_SUGAR :: real where "WATER_PER_SUGAR = 0.3"
definition MIN_WATER_FOR_PHOTOSYNTHESIS :: real where "MIN_WATER_FOR_PHOTOSYNTHESIS = 0.15"
definition MAX_CHILDREN_PER_NODE :: nat where "MAX_CHILDREN_PER_NODE = 4"
definition STARVATION_STRESS_RATE :: real where "STARVATION_STRESS_RATE = 0.005"
definition DEHYDRATION_STRESS_RATE :: real where "DEHYDRATION_STRESS_RATE = 0.005"
definition HEALTH_RECOVERY_RATE :: real where "HEALTH_RECOVERY_RATE = 0.02"
definition STRESS_DEATH_THRESHOLD :: real where "STRESS_DEATH_THRESHOLD = 1.0"
definition BASE_TEMPERATURE :: real where "BASE_TEMPERATURE = 20"
definition TEMPERATURE_AMPLITUDE :: real where "TEMPERATURE_AMPLITUDE = 10"
definition MIN_SUN_INTENSITY :: real where "MIN_SUN_INTENSITY = 0.0"
definition RAIN_START_CHANCE :: real where "RAIN_START_CHANCE = 0.01"
definition RAIN_STOP_CHANCE :: real where "RAIN_STOP_CHANCE = 0.01"
definition RAIN_WATER_RATE :: real where "RAIN_WATER_RATE = 0.05"
definition EVAPORATION_RATE :: real where "EVAPORATION_RATE = 0.001"
definition TILE_SIZE :: real where "TILE_SIZE = 64"
definition PIXELS_PER_METER :: real where "PIXELS_PER_METER = 256"
definition PARTICLE_SPEED :: real where "PARTICLE_SPEED = 1.2"

lemmas CONFIG =
  TICKS_PER_SECOND_def SECONDS_PER_DAY_def INITIAL_SUGAR_def INITIAL_WATER_def
  INITIAL_MINERALS_def COST_LEAF_def COST_BRANCH_def COST_ROOT_def COST_TRUNK_def
  COST_HARDEN_def SEED_RADIUS_def LEAF_RADIUS_def BRANCH_RADIUS_def ROOT_RADIUS_def
  TRUNK_RADIUS_def TRANSPIRATION_RATE_def ROOT_UPTAKE_RATE_def WATER_FLOW_RATE_def
  FLOW_THRESHOLD_def SUGAR_DIFFUSION_RATE_def NODE_RESPIRATION_COST_def
  PHOTOSYNTHESIS_RATE_def WATER_PER_SUGAR_def MIN_WATER_FOR_PHOTOSYNTHESIS_def
  MAX_CHILDREN_PER_NODE_def STARVATION_STRESS_RATE_def DEHYDRATION_STRESS_RATE_def
  HEALTH_RECOVERY_RATE_def STRESS_DEATH_THRESHOLD_def BASE_TEMPERATURE_def
  TEMPERATURE_AMPLITUDE_def MIN_SUN_INTENSITY_def RAIN_START_CHANCE_def RAIN_STOP_CHANCE_def
  RAIN_WATER_RATE_def EVAPORATION_RATE_def TILE_SIZE_def PIXELS_PER_METER_def
  PARTICLE_SPEED_def

section \<open>Rounding to a double\<close>

text \<open>
  Where a claim speaks of an exact amount, the model keeps the rounding of the source's
  arithmetic. \<open>roundToDouble x\<close> is the IEEE 754 binary64 number nearest to the real \<open>x\<close>, ties
  to even: a multiple of \<open>quantum x\<close>, the spacing of the doubles at the magnitude of \<open>x\<close> (53
  significant bits, smallest exponent -1074). A result of magnitude \<open>2^1024\<close> or more is an
  infinity in the source and is not described here; a difference of two stored amounts never
  gets there. \<open>isDouble x\<close>: \<open>x\<close> is a double.
\<close>

definition quantum :: "real \<Rightarrow> real" where
  "quantum x = 2 powr of_int (max (\<lfloor>log 2 \<bar>x\<bar>\<rfloor> - 52) (- 1074))"

definition roundHalfEven :: "real \<Rightarrow> int" where
  "roundHalfEven y =
     (let f = \<lfloor>y\<rfloor> in
      if y - of_int f < 1 / 2 then f
      else if y - of_int f > 1 / 2 then f + 1
      else if even f then f else f + 1)"

definition roundToDouble :: "real \<Rightarrow> real" where
  "roundToDouble x = (if x = 0 then 0 else of_int (roundHalfEven (x / quantum x)) * quantum x)"

definition isDouble :: "real \<Rightarrow> bool" where
  "isDouble x \<longleftrightarrow> roundToDouble x = x"

definition dyadic53 :: "real \<Rightarrow> bool" where
  "dyadic53 x \<longleftrightarrow> (\<exists>m q :: int. - 1074 \<le> q \<and> \<bar>m\<bar> < 2 ^ 53 \<and> x = of_int m * 2 powr of_int q)"

lemma roundHalfEven_int [simp]: "roundHalfEven (of_int k) = k"
  by (simp add: roundHalfEven_def)

lemma quantum_pos: "0 < quantum x"
  by (simp add: quantum_def)

lemma two_powr_diff_int:
  fixes a b :: int
  assumes "b \<le> a"
  shows "(2::real) powr of_int a / 2 powr of_int b = of_int (2 ^ nat (a - b))"
proof -
  have "(2::real) powr of_int a / 2 powr of_int b = 2 powr of_int (a - b)"
    by (simp add: powr_diff)
  also have "\<dots> = 2 ^ nat (a - b)"
    using assms powr_real_of_int[of 2 "a - b"] by simp
  finally show ?thesis by simp
qed

lemma dyadic53_exact:
  assumes "dyadic53 x"
  shows "roundToDouble x = x"
proof (cases "x = 0")
  case True
  then show ?thesis by (simp add: roundToDouble_def)
next
  case False
  from assms obtain m q :: int where q: "- 1074 \<le> q" and m: "\<bar>m\<bar> < 2 ^ 53"
    and x: "x = of_int m * 2 powr of_int q"
    unfolding dyadic53_def by blast
  define e where "e = \<lfloor>log 2 \<bar>x\<bar>\<rfloor>"
  define q' where "q' = max (e - 52) (- 1074)"
  have ax: "\<bar>x\<bar> = of_int \<bar>m\<bar> * 2 powr of_int q" by (simp add: x abs_mult)
  have xpos: "0 < \<bar>x\<bar>" using False by simp
  have "\<bar>x\<bar> < 2 ^ 53 * 2 powr of_int q"
  proof -
    have "(of_int \<bar>m\<bar> :: real) < of_int (2 ^ 53)" using m by (simp only: of_int_less_iff)
    then have "(of_int \<bar>m\<bar> :: real) < 2 ^ 53" by simp
    then show ?thesis unfolding ax by (simp add: mult_strict_right_mono)
  qed
  also have "(2::real) ^ 53 * 2 powr of_int q = 2 powr (53 + of_int q)"
    by (simp add: powr_add powr_realpow[symmetric])
  finally have "log 2 \<bar>x\<bar> < 53 + of_int q"
    using xpos by (simp add: log_less_iff)
  moreover have "of_int e \<le> log 2 \<bar>x\<bar>" by (simp add: e_def)
  ultimately have "(of_int e :: real) < of_int (53 + q)" by simp
  then have "e < 53 + q" by (simp only: of_int_less_iff)
  then have le: "q' \<le> q" using q by (simp add: q'_def)
  have qu: "quantum x = 2 powr of_int q'" by (simp only: quantum_def q'_def e_def)
  have "x / quantum x = of_int m * (2 powr of_int q / 2 powr of_int q')"
    unfolding qu by (simp add: x)
  also have "\<dots> = of_int (m * 2 ^ nat (q - q'))"
    unfolding two_powr_diff_int[OF le] by simp
  finally have d: "x / quantum x = of_int (m * 2 ^ nat (q - q'))" .
  have "roundToDouble x = of_int (roundHalfEven (x / quantum x)) * quantum x"
    using False by (simp add: roundToDouble_def)
  also have "\<dots> = of_int (m * 2 ^ nat (q - q')) * quantum x"
    by (simp only: d roundHalfEven_int)
  also have "\<dots> = x / quantum x * quantum x" by (simp only: d)
  also have "\<dots> = x" using quantum_pos[of x] by simp
  finally show ?thesis .
qed

lemma isDouble_dyadic53:
  assumes "isDouble x"
  shows "dyadic53 x"
proof (cases "x = 0")
  case True
  show ?thesis unfolding dyadic53_def True by (intro exI[of _ 0]) simp
next
  case False
  define e where "e = \<lfloor>log 2 \<bar>x\<bar>\<rfloor>"
  define q where "q = max (e - 52) (- 1074)"
  define m where "m = roundHalfEven (x / quantum x)"
  have qu: "quantum x = 2 powr of_int q" by (simp only: quantum_def q_def e_def)
  have "roundToDouble x = of_int m * 2 powr of_int q"
    using False by (simp only: roundToDouble_def m_def qu if_False)
  then have x: "x = of_int m * 2 powr of_int q"
    using assms by (simp only: isDouble_def)
  have xpos: "0 < \<bar>x\<bar>" using False by simp
  have "log 2 \<bar>x\<bar> < of_int e + 1" by (simp add: e_def)
  then have "\<bar>x\<bar> < 2 powr (of_int e + 1)" using xpos by (simp add: log_less_iff)
  also have "(2::real) powr (of_int e + 1) = 2 powr of_int (e + 1)" by simp
  also have "\<dots> \<le> 2 powr of_int (q + 53)" by (simp add: q_def)
  also have "\<dots> = 2 ^ 53 * 2 powr of_int q"
    by (simp add: powr_add powr_realpow[symmetric] add.commute)
  finally have "\<bar>x\<bar> < 2 ^ 53 * 2 powr of_int q" .
  moreover have "\<bar>x\<bar> = (of_int \<bar>m\<bar> :: real) * 2 powr of_int q"
    by (subst x) (simp add: abs_mult)
  ultimately have "(of_int \<bar>m\<bar> :: real) * 2 powr of_int q < 2 ^ 53 * 2 powr of_int q"
    by simp
  then have "(of_int \<bar>m\<bar> :: real) < 2 ^ 53" by simp
  then have "(of_int \<bar>m\<bar> :: real) < of_int (2 ^ 53)" by simp
  then have "\<bar>m\<bar> < 2 ^ 53" by (simp only: of_int_less_iff)
  moreover have "- 1074 \<le> q" by (simp add: q_def)
  ultimately show ?thesis unfolding dyadic53_def using x by blast
qed

lemma isDouble_iff: "isDouble x \<longleftrightarrow> dyadic53 x"
  using isDouble_dyadic53 dyadic53_exact by (auto simp: isDouble_def)

lemma dyadic53_int:
  assumes "\<bar>k\<bar> < 2 ^ 53"
  shows "dyadic53 (of_int k)"
  unfolding dyadic53_def using assms by (intro exI[of _ k] exI[of _ 0]) simp

lemma dyadic53_minus_nat:
  assumes d: "dyadic53 s" and c: "of_nat c \<le> s" and b: "s < 2 ^ 53"
  shows "dyadic53 (s - of_nat c)"
proof -
  from d obtain m q :: int where q: "- 1074 \<le> q" and m: "\<bar>m\<bar> < 2 ^ 53"
    and s: "s = of_int m * 2 powr of_int q"
    unfolding dyadic53_def by blast
  show ?thesis
  proof (cases "0 \<le> q")
    case True
    have "s = of_int (m * 2 ^ nat q)" using True by (simp add: s powr_real_of_int)
    then obtain k :: int where k: "s = of_int k" by blast
    have e: "s - of_nat c = of_int (k - int c)" by (simp add: k)
    have "\<bar>k - int c\<bar> < 2 ^ 53"
    proof -
      have "(0::real) \<le> of_int (k - int c)" using c by (simp add: k)
      then have 1: "0 \<le> k - int c" by (simp only: of_int_0_le_iff)
      have "(of_int k :: real) < of_int (2 ^ 53)" using b by (simp add: k)
      then have "k < 2 ^ 53" by (simp only: of_int_less_iff)
      with 1 show ?thesis by simp
    qed
    then have "dyadic53 (of_int (k - int c))" by (rule dyadic53_int)
    then show ?thesis by (simp only: e)
  next
    case False
    define n where "n = nat (- q)"
    have p: "(2::real) powr of_int q = 1 / 2 ^ n" using False by (simp add: powr_int n_def)
    define m' where "m' = m - int c * 2 ^ n"
    have e: "s - of_nat c = of_int m' * 2 powr of_int q"
      by (simp add: s p m'_def field_simps)
    have "0 \<le> s - of_nat c" using c by simp
    then have "0 \<le> (of_int m' :: real) * 2 powr of_int q" by (simp only: e)
    then have "(0::real) \<le> of_int m'" by (simp add: zero_le_mult_iff)
    then have 1: "0 \<le> m'" by (simp only: of_int_0_le_iff)
    have "m' \<le> m" by (simp add: m'_def)
    with 1 m have "\<bar>m'\<bar> < 2 ^ 53" by simp
    with q e show ?thesis unfolding dyadic53_def by blast
  qed
qed

lemma exact_debit:
  assumes "isDouble s" "of_nat c \<le> s" "s < 2 ^ 53"
  shows "roundToDouble (s - of_nat c) = s - of_nat c"
  using assms by (intro dyadic53_exact dyadic53_minus_nat) (simp_all add: isDouble_iff)

lemma rounding_example: "roundToDouble (10 ^ 18 - 10) = 10 ^ 18"
proof -
  let ?x = "(10::real) ^ 18 - 10"
  have p59: "(2::real) powr of_int 59 = 2 ^ 59" using powr_real_of_int[of 2 59] by simp
  have p60: "(2::real) powr of_int (59 + 1) = 2 ^ 60" using powr_real_of_int[of 2 60] by simp
  have "\<lfloor>log 2 ?x\<rfloor> = 59"
    using floor_log_eq_powr_iff[of ?x 2 59] p59 p60 by simp
  then have "\<lfloor>log 2 \<bar>?x\<bar>\<rfloor> - 52 = 7" by simp
  then have "quantum ?x = 2 powr of_int 7" unfolding quantum_def by simp
  also have "\<dots> = 128" using powr_real_of_int[of 2 7] by simp
  finally have q: "quantum ?x = 128" .
  have "roundHalfEven (?x / 128) = 7812500000000000"
    by (simp add: roundHalfEven_def Let_def)
  then show ?thesis unfolding roundToDouble_def q by simp
qed

lemma isDouble_example: "isDouble (10 ^ 18)" "isDouble 100"
proof -
  have p18: "(2::real) powr of_int 18 = 2 ^ 18" using powr_real_of_int[of 2 18] by simp
  have e: "(10::real) ^ 18 = of_int 3814697265625 * 2 powr of_int 18" unfolding p18 by simp
  have "dyadic53 (10 ^ 18)" unfolding dyadic53_def
  proof (intro exI conjI)
    show "(10::real) ^ 18 = of_int 3814697265625 * 2 powr of_int 18" by (rule e)
    show "- 1074 \<le> (18::int)" by simp
    show "\<bar>3814697265625::int\<bar> < 2 ^ 53" by simp
  qed
  then show "isDouble (10 ^ 18)" by (simp add: isDouble_iff)
  have "dyadic53 (of_int 100)" by (rule dyadic53_int) simp
  then show "isDouble 100" by (simp add: isDouble_iff)
qed

section \<open>The store and its mutation API (core/state.ts)\<close>

text \<open>\<open>state.nodes[k]\<close>: a lookup in the table.\<close>

definition getNode :: "'a GameState_scheme \<Rightarrow> NodeId \<Rightarrow> PlantNode option" where
  "getNode s k = map_of (nodes s) k"

text \<open>\<open>state.nodes[k] = n\<close>.\<close>

definition putNode :: "NodeId \<Rightarrow> PlantNode \<Rightarrow> 'a GameState_scheme \<Rightarrow> 'a GameState_scheme" where
  "putNode k n s = s\<lparr>nodes := AList.update k n (nodes s)\<rparr>"

text \<open>
  A write through a reference to a node object that is already in the table: the object under
  key \<open>k\<close> is replaced by its image; nothing happens when the key is absent.
\<close>

definition modifyNode :: "NodeId \<Rightarrow> (PlantNode \<Rightarrow> PlantNode) \<Rightarrow> 'a GameState_scheme \<Rightarrow> 'a GameState_scheme" where
  "modifyNode k f s = (case getNode s k of None \<Rightarrow> s | Some n \<Rightarrow> putNode k (f n) s)"

definition getNodeCost :: "NodeType \<Rightarrow> real" where
  "getNodeCost t = (case t of
      LEAF \<Rightarrow> COST_LEAF
    | BRANCH \<Rightarrow> COST_BRANCH
    | ROOT \<Rightarrow> COST_ROOT
    | TRUNK \<Rightarrow> COST_TRUNK
    | SEED \<Rightarrow> 0)"

definition getDefaultRadius :: "NodeType \<Rightarrow> real" where
  "getDefaultRadius t = (case t of
      LEAF \<Rightarrow> LEAF_RADIUS
    | BRANCH \<Rightarrow> BRANCH_RADIUS
    | ROOT \<Rightarrow> ROOT_RADIUS
    | TRUNK \<Rightarrow> TRUNK_RADIUS
    | SEED \<Rightarrow> SEED_RADIUS)"

definition seedNode :: "NodeId \<Rightarrow> PlantNode" where
  "seedNode k = \<lparr> ident = k, ntype = SEED, position = \<lparr>vx = 0, vy = 0\<rparr>, parentId = None,
     childrenIds = [], radius = SEED_RADIUS, structuralHealth = 1.0, waterPressure = 0.5,
     sugarConcentration = 0.8, sugarStore = INITIAL_SUGAR, isActive = True, stressLevel = 0 \<rparr>"

definition initialClimate :: ClimateState where
  "initialClimate = \<lparr> sunIntensity = 0.5, sunAngle = pi / 4, temperature = 20, humidity = 0.5,
     soilWater = 0.9, isRaining = True, dayProgress = 0.25, day = 1, tick = 0 \<rparr>"

text \<open>
  The module state right after loading (or after \<open>resetState\<close> and \<open>clearParticles\<close>):
  \<open>nextId\<close> starts at 1, \<open>createInitialState\<close> draws the seed's id from it.
\<close>

definition createInitialState :: "(nat \<Rightarrow> real) \<Rightarrow> Sim" where
  "createInitialState rs = \<lparr> nodes = [(1, seedNode 1)], seedId = 1,
     resources = \<lparr> sugar = INITIAL_SUGAR, water = INITIAL_WATER, minerals = INITIAL_MINERALS \<rparr>,
     climate = initialClimate, selectedNodeId = None, isPaused = False, speedMultiplier = Fin 1,
     nextId = 2, particles = [], nextParticleId = 1, connectionParticleCounts = Map.empty,
     autoGrowEnabled = False, ticksSinceLastGrowth = 0, rolls = rs, rollsUsed = 0 \<rparr>"

text \<open>
  \<open>resetState\<close> resets the id counter and the store; the variables of the other modules are
  left as they are.
\<close>

definition resetState :: "Sim \<Rightarrow> Sim" where
  "resetState s = s\<lparr> nodes := [(1, seedNode 1)], seedId := 1,
     resources := \<lparr> sugar = INITIAL_SUGAR, water = INITIAL_WATER, minerals = INITIAL_MINERALS \<rparr>,
     climate := initialClimate, selectedNodeId := None, isPaused := False, speedMultiplier := Fin 1,
     nextId := 2 \<rparr>"

text \<open>
  \<open>addNode(parentId, type, position, radius?)\<close>. The optional radius is an \<open>option\<close>;
  \<open>radius ?? getDefaultRadius(type)\<close> takes the default only when it is missing. The result is
  the new node (or \<open>None\<close> for \<open>null\<close>) and the store after the call.
\<close>

definition addNode :: "NodeId \<Rightarrow> NodeType \<Rightarrow> Vec2 \<Rightarrow> real option \<Rightarrow> Sim \<Rightarrow> PlantNode option \<times> Sim" where
  "addNode parentId' type' position' radius' s =
     (case getNode s parentId' of
        None \<Rightarrow> (None, s)
      | Some parent \<Rightarrow>
          let cost = getNodeCost type' in
          if sugar (resources s) < cost then (None, s)
          else
            let nodeId = nextId s;
                node = \<lparr> ident = nodeId, ntype = type', position = position',
                         parentId = Some parentId', childrenIds = [],
                         radius = (case radius' of Some r \<Rightarrow> r | None \<Rightarrow> getDefaultRadius type'),
                         structuralHealth = 1.0,
                         waterPressure = max 0.3 (waterPressure parent * 0.95),
                         sugarConcentration = max 0.2 (sugarConcentration parent * 0.9),
                         sugarStore = 0, isActive = True, stressLevel = 0 \<rparr>;
                s1 = s\<lparr>nextId := Suc (nextId s)\<rparr>;
                s2 = modifyNode parentId' (\<lambda>p. p\<lparr>childrenIds := childrenIds p @ [nodeId]\<rparr>) s1;
                s3 = putNode nodeId node s2;
                s4 = s3\<lparr>resources := (resources s3)\<lparr>sugar := roundToDouble (sugar (resources s3) - cost)\<rparr>\<rparr>
            in (Some node, s4))"

text \<open>
  In the source the new node is entered in the table before the parent object's child list is
  extended. The parent object was fetched before either write, so the push reaches the old
  parent even in a table where the fresh id would collide with the parent's key; the model
  therefore pushes first and enters the node second. Whenever the fresh id is not yet a key
  the two orders give the same table.
\<close>

text \<open>
  The parent id is a string, and \<open>state.nodes\<close> is a plain object: \<open>state.nodes[parentId]\<close>
  finds an own key, and, failing that, a property that every object inherits from
  \<open>Object.prototype\<close>. \<open>Generated k\<close> is the string \<open>node_k\<close>, \<open>Named w\<close> any other string \<open>w\<close>.
  \<open>addNode\<close> above is the call at a generated id. At an inherited name the lookup yields a
  function or an object, which passes the test \<open>!parent\<close>; the sugar test is as usual; then an
  id is drawn, the new segment is built (its water pressure and sugar concentration are \<open>NaN\<close>,
  computed from fields the parent does not have) and entered in the table, and
  \<open>parent.childrenIds.push\<close> throws a \<open>TypeError\<close> because there is no such list: the sugar is
  not debited and nothing is returned. The table then holds a segment that \<open>PlantNode\<close> cannot
  describe; the outcome records it beside the rest of the store.
\<close>

datatype NodeKey = Generated NodeId | Named string

definition objectPrototypeNames :: "string list" where
  "objectPrototypeNames =
     [''constructor'', ''__proto__'', ''hasOwnProperty'', ''isPrototypeOf'',
      ''propertyIsEnumerable'', ''toLocaleString'', ''toString'', ''valueOf'',
      ''__defineGetter__'', ''__defineSetter__'', ''__lookupGetter__'', ''__lookupSetter__'']"

record HalfBuilt =
  enteredAs :: NodeId
  enteredType :: NodeType
  enteredPosition :: Vec2
  enteredParent :: string
  enteredRadius :: real

datatype AddOutcome =
    Returned "PlantNode option" Sim
  | ThrewTypeError Sim HalfBuilt

definition addNodeCall :: "NodeKey \<Rightarrow> NodeType \<Rightarrow> Vec2 \<Rightarrow> real option \<Rightarrow> Sim \<Rightarrow> AddOutcome" where
  "addNodeCall parentKey type' position' radius' s =
     (case parentKey of
        Generated k \<Rightarrow> (case addNode k type' position' radius' s of (res, s') \<Rightarrow> Returned res s')
      | Named w \<Rightarrow>
          if w \<notin> set objectPrototypeNames then Returned None s
          else if sugar (resources s) < getNodeCost type' then Returned None s
          else ThrewTypeError (s\<lparr>nextId := Suc (nextId s)\<rparr>)
                 \<lparr> enteredAs = nextId s, enteredType = type', enteredPosition = position',
                   enteredParent = w,
                   enteredRadius = (case radius' of Some r \<Rightarrow> r | None \<Rightarrow> getDefaultRadius type') \<rparr>)"

text \<open>
  \<open>removeRecursive\<close> is a recursive closure; on a cyclic child relation the source does not
  return (the recursion exhausts the stack). The model bounds the recursion depth by a fuel
  argument: \<open>None\<close> means that the depth was not enough.
\<close>

fun foldOpt :: "('a \<Rightarrow> 's \<Rightarrow> 's option) \<Rightarrow> 'a list \<Rightarrow> 's \<Rightarrow> 's option" where
  "foldOpt f [] s = Some s"
| "foldOpt f (x # xs) s = (case f x s of None \<Rightarrow> None | Some s' \<Rightarrow> foldOpt f xs s')"

fun removeRecursive :: "nat \<Rightarrow> NodeId \<Rightarrow> (NodeId \<times> PlantNode) list \<Rightarrow> (NodeId \<times> PlantNode) list option" where
  "removeRecursive 0 k ns = None"
| "removeRecursive (Suc fuel) k ns =
     (case map_of ns k of
        None \<Rightarrow> Some ns
      | Some n \<Rightarrow>
          (case foldOpt (removeRecursive fuel) (childrenIds n) ns of
             None \<Rightarrow> None
           | Some ns' \<Rightarrow> Some (AList.delete k ns')))"

definition removeNode :: "nat \<Rightarrow> NodeId \<Rightarrow> Sim \<Rightarrow> (bool \<times> Sim) option" where
  "removeNode fuel nodeId s =
     (case getNode s nodeId of
        None \<Rightarrow> Some (False, s)
      | Some node \<Rightarrow>
          if ntype node = SEED then Some (False, s)
          else
            let s1 = (case parentId node of
                        None \<Rightarrow> s
                      | Some p \<Rightarrow> modifyNode p (\<lambda>parent. parent\<lparr>childrenIds := filter (\<lambda>c. c \<noteq> nodeId) (childrenIds parent)\<rparr>) s)
            in (case removeRecursive fuel nodeId (nodes s1) of
                  None \<Rightarrow> None
                | Some ns' \<Rightarrow> Some (True, s1\<lparr>nodes := ns'\<rparr>)))"

text \<open>
  \<open>updateNode(nodeId, updates)\<close> merges a partial node into the stored one with
  \<open>Object.assign\<close>. A \<open>Partial<PlantNode>\<close> literal is the list of its field assignments, in
  the order in which they are written.
\<close>

datatype NodeField =
    F_ident NodeId
  | F_ntype NodeType
  | F_position Vec2
  | F_parentId "NodeId option"
  | F_childrenIds "NodeId list"
  | F_radius real
  | F_structuralHealth real
  | F_waterPressure real
  | F_sugarConcentration real
  | F_sugarStore real
  | F_isActive bool
  | F_stressLevel real

fun assignField :: "NodeField \<Rightarrow> PlantNode \<Rightarrow> PlantNode" where
  "assignField (F_ident v) n = n\<lparr>ident := v\<rparr>"
| "assignField (F_ntype v) n = n\<lparr>ntype := v\<rparr>"
| "assignField (F_position v) n = n\<lparr>position := v\<rparr>"
| "assignField (F_parentId v) n = n\<lparr>parentId := v\<rparr>"
| "assignField (F_childrenIds v) n = n\<lparr>childrenIds := v\<rparr>"
| "assignField (F_radius v) n = n\<lparr>radius := v\<rparr>"
| "assignField (F_structuralHealth v) n = n\<lparr>structuralHealth := v\<rparr>"
| "assignField (F_waterPressure v) n = n\<lparr>waterPressure := v\<rparr>"
| "assignField (F_sugarConcentration v) n = n\<lparr>sugarConcentration := v\<rparr>"
| "assignField (F_sugarStore v) n = n\<lparr>sugarStore := v\<rparr>"
| "assignField (F_isActive v) n = n\<lparr>isActive := v\<rparr>"
| "assignField (F_stressLevel v) n = n\<lparr>stressLevel := v\<rparr>"

definition objectAssign :: "PlantNode \<Rightarrow> NodeField list \<Rightarrow> PlantNode" where
  "objectAssign n updates = fold assignField updates n"

definition updateNode :: "NodeId \<Rightarrow> NodeField list \<Rightarrow> 'a GameState_scheme \<Rightarrow> 'a GameState_scheme" where
  "updateNode nodeId updates s = modifyNode nodeId (\<lambda>node. objectAssign node updates) s"

text \<open>\<open>modifyResources(delta)\<close>: each component of the delta is optional.\<close>

definition modifyResources :: "real option \<Rightarrow> real option \<Rightarrow> real option \<Rightarrow> 'a GameState_scheme \<Rightarrow> 'a GameState_scheme" where
  "modifyResources dsugar dwater dminerals s =
     (let r = resources s;
          r1 = (case dsugar of None \<Rightarrow> r | Some d \<Rightarrow> r\<lparr>sugar := max 0 (sugar r + d)\<rparr>);
          r2 = (case dwater of None \<Rightarrow> r1 | Some d \<Rightarrow> r1\<lparr>water := max 0 (water r1 + d)\<rparr>);
          r3 = (case dminerals of None \<Rightarrow> r2 | Some d \<Rightarrow> r2\<lparr>minerals := max 0 (minerals r2 + d)\<rparr>)
      in s\<lparr>resources := r3\<rparr>)"

text \<open>
  \<open>updateClimate(updates)\<close>: \<open>Object.assign\<close> on the climate record. The only caller in the
  core, the climate system, passes every field but \<open>tick\<close>; the model takes the merged record.
\<close>

definition updateClimate :: "(ClimateState \<Rightarrow> ClimateState) \<Rightarrow> 'a GameState_scheme \<Rightarrow> 'a GameState_scheme" where
  "updateClimate updates s = s\<lparr>climate := updates (climate s)\<rparr>"

definition selectNode :: "NodeId option \<Rightarrow> 'a GameState_scheme \<Rightarrow> 'a GameState_scheme" where
  "selectNode nodeId s = s\<lparr>selectedNodeId := nodeId\<rparr>"

definition setPaused :: "bool \<Rightarrow> 'a GameState_scheme \<Rightarrow> 'a GameState_scheme" where
  "setPaused paused s = s\<lparr>isPaused := paused\<rparr>"

text \<open>
  \<open>setSpeedMultiplier(multiplier)\<close>: the argument is any \<open>number\<close>, and so is what is stored.
\<close>

definition setSpeedMultiplier :: "number \<Rightarrow> 'a GameState_scheme \<Rightarrow> 'a GameState_scheme" where
  "setSpeedMultiplier multiplier s =
     s\<lparr>speedMultiplier := mathMax (Fin 0.1) (mathMin (Fin 10) multiplier)\<rparr>"

definition incrementTick :: "'a GameState_scheme \<Rightarrow> 'a GameState_scheme" where
  "incrementTick s = s\<lparr>climate := (climate s)\<lparr>tick := Suc (tick (climate s))\<rparr>\<rparr>"

text \<open>
  \<open>extendNode(nodeId, direction)\<close>. The loop over \<open>node.childrenIds\<close> fetches each child
  from the table and, when it is there, rewrites its parent pointer and shifts its position.
\<close>

definition tileInMeters :: real where
  "tileInMeters = TILE_SIZE / PIXELS_PER_METER"

definition shiftBy :: "Vec2 \<Rightarrow> Vec2 \<Rightarrow> Vec2" where
  "shiftBy direction p = \<lparr> vx = vx p + vx direction * tileInMeters, vy = vy p + vy direction * tileInMeters \<rparr>"

definition extendNode :: "NodeId \<Rightarrow> Vec2 \<Rightarrow> Sim \<Rightarrow> PlantNode option \<times> Sim" where
  "extendNode nodeId direction s =
     (case getNode s nodeId of
        None \<Rightarrow> (None, s)
      | Some node \<Rightarrow>
          if ntype node \<noteq> TRUNK \<and> ntype node \<noteq> BRANCH \<and> ntype node \<noteq> ROOT then (None, s)
          else
            let cost = getNodeCost (ntype node) in
            if sugar (resources s) < cost then (None, s)
            else
              let newPosition = shiftBy direction (position node);
                  newNodeId = nextId s;
                  newNode = \<lparr> ident = newNodeId, ntype = ntype node, position = newPosition,
                              parentId = Some nodeId, childrenIds = childrenIds node,
                              radius = radius node * 0.95, structuralHealth = 1.0,
                              waterPressure = waterPressure node * 0.98,
                              sugarConcentration = sugarConcentration node * 0.98,
                              sugarStore = 0, isActive = True, stressLevel = 0 \<rparr>;
                  s1 = s\<lparr>nextId := Suc (nextId s)\<rparr>;
                  s2 = fold (\<lambda>childId. modifyNode childId
                              (\<lambda>child. child\<lparr>parentId := Some newNodeId,
                                                position := shiftBy direction (position child)\<rparr>))
                            (childrenIds node) s1;
                  s3 = modifyNode nodeId (\<lambda>n. n\<lparr>childrenIds := [newNodeId]\<rparr>) s2;
                  s4 = putNode newNodeId newNode s3;
                  s5 = s4\<lparr>resources := (resources s4)\<lparr>sugar := sugar (resources s4) - cost\<rparr>\<rparr>
              in (Some newNode, s5))"

text \<open>
  Example stores for the concrete instances below: the initial store with an all-zero stream of
  random outcomes, and a small plant (seed 1, trunk 2 under the seed, leaf 3 and branch 4 under
  the trunk).
\<close>

definition exampleNode :: "NodeId \<Rightarrow> NodeType \<Rightarrow> NodeId option \<Rightarrow> NodeId list \<Rightarrow> PlantNode" where
  "exampleNode k t p cs = \<lparr> ident = k, ntype = t, position = \<lparr>vx = 0, vy = 0\<rparr>, parentId = p,
     childrenIds = cs, radius = 0.02, structuralHealth = 1, waterPressure = 0.5,
     sugarConcentration = 0.5, sugarStore = 0, isActive = True, stressLevel = 0 \<rparr>"

definition exampleStore :: Sim where
  "exampleStore = (createInitialState (\<lambda>i. 0))\<lparr>
     nodes := [(1, exampleNode 1 SEED None [2]), (2, exampleNode 2 TRUNK (Some 1) [3, 4]),
               (3, exampleNode 3 LEAF (Some 2) []), (4, exampleNode 4 BRANCH (Some 2) [])],
     nextId := 5 \<rparr>"

text \<open>
  Every key of the table was drawn from the id counter: it is below \<open>nextId\<close>. This holds
  initially and after every operation of the store, since keys are only ever created by
  \<open>generateId\<close>.
\<close>

definition idsFresh :: "Sim \<Rightarrow> bool" where
  "idsFresh s = list_all (\<lambda>k. k < nextId s) (map fst (nodes s))"

text \<open>
  The child relation of a table, the set of ids reachable from a segment through child lists,
  and the rooted subtree of a segment: the reachable ids that are keys of the table.
  \<open>ranked rank ns\<close> says that \<open>rank\<close> strictly decreases from every stored segment to each
  entry of its child list: the child relation has no cycle (in a tree, the height of a
  segment is such a rank).
\<close>

definition childRel :: "(NodeId \<times> PlantNode) list \<Rightarrow> (NodeId \<times> NodeId) set" where
  "childRel ns = {(p, c). \<exists>n. map_of ns p = Some n \<and> c \<in> set (childrenIds n)}"

definition reachIds :: "(NodeId \<times> PlantNode) list \<Rightarrow> NodeId \<Rightarrow> NodeId set" where
  "reachIds ns k = {d. (k, d) \<in> (childRel ns)\<^sup>*}"

definition subtreeIds :: "(NodeId \<times> PlantNode) list \<Rightarrow> NodeId \<Rightarrow> NodeId set" where
  "subtreeIds ns k = reachIds ns k \<inter> set (map fst ns)"

definition ranked :: "(NodeId \<Rightarrow> nat) \<Rightarrow> (NodeId \<times> PlantNode) list \<Rightarrow> bool" where
  "ranked rank ns = list_all (\<lambda>(k, n). list_all (\<lambda>c. rank c < rank k) (childrenIds n)) ns"

definition restrictOut :: "NodeId set \<Rightarrow> (NodeId \<times> PlantNode) list \<Rightarrow> (NodeId \<times> PlantNode) list" where
  "restrictOut D ns = filter (\<lambda>kv. fst kv \<notin> D) ns"

definition closedUnder :: "(NodeId \<times> PlantNode) list \<Rightarrow> NodeId set \<Rightarrow> bool" where
  "closedUnder ns D \<longleftrightarrow> (\<forall>x y. x \<in> D \<longrightarrow> (x, y) \<in> childRel ns \<longrightarrow> y \<in> D)"

section \<open>Basic facts about the table\<close>

lemma idsFresh_nextId: "idsFresh s \<Longrightarrow> nextId s \<notin> set (map fst (nodes s))"
  by (auto simp: idsFresh_def list_all_iff)

lemma getNode_putNode [simp]:
  "getNode (putNode k n s) k' = (if k' = k then Some n else getNode s k')"
  by (simp add: getNode_def putNode_def update_conv')

lemma getNode_frame [simp]:
  "getNode (seedId_update f1 s) = getNode s" "getNode (resources_update f2 s) = getNode s"
  "getNode (climate_update f3 s) = getNode s" "getNode (selectedNodeId_update f4 s) = getNode s"
  "getNode (isPaused_update f5 s) = getNode s" "getNode (speedMultiplier_update f6 s) = getNode s"
  "getNode (GameState.more_update f7 s) = getNode s"
  by (simp_all add: getNode_def fun_eq_iff)

lemma getNode_frame_sim [simp]:
  "getNode (nextId_update g1 t) = getNode t" "getNode (particles_update g2 t) = getNode t"
  "getNode (nextParticleId_update g3 t) = getNode t"
  "getNode (connectionParticleCounts_update g4 t) = getNode t"
  "getNode (autoGrowEnabled_update g5 t) = getNode t"
  "getNode (ticksSinceLastGrowth_update g6 t) = getNode t"
  "getNode (rolls_update g7 t) = getNode t" "getNode (rollsUsed_update g8 t) = getNode t"
  by (simp_all add: getNode_def fun_eq_iff)

lemma getNode_modifyNode [simp]:
  "getNode (modifyNode k f s) k' = (if k' = k then map_option f (getNode s k') else getNode s k')"
  by (auto simp: modifyNode_def split: option.splits)

lemma keys_putNode:
  "map fst (nodes (putNode k n s)) =
     (if k \<in> set (map fst (nodes s)) then map fst (nodes s) else map fst (nodes s) @ [k])"
  by (simp add: putNode_def update_keys)

lemma getNode_None_iff: "getNode s k = None \<longleftrightarrow> k \<notin> set (map fst (nodes s))"
  by (simp add: getNode_def map_of_eq_None_iff)

lemma keys_modifyNode [simp]: "map fst (nodes (modifyNode k f s)) = map fst (nodes s)"
  using getNode_None_iff[of s k]
  by (auto simp: modifyNode_def keys_putNode split: option.splits)

lemma length_nodes_modifyNode [simp]: "length (nodes (modifyNode k f s)) = length (nodes s)"
  by (metis keys_modifyNode length_map)

lemma length_nodes_putNode:
  "length (nodes (putNode k n s)) = (if k \<in> set (map fst (nodes s)) then length (nodes s) else Suc (length (nodes s)))"
  by (metis keys_putNode length_map length_append_singleton)

lemma frame_putNode [simp]:
  "seedId (putNode k n s) = seedId s" "resources (putNode k n s) = resources s"
  "climate (putNode k n s) = climate s" "selectedNodeId (putNode k n s) = selectedNodeId s"
  "isPaused (putNode k n s) = isPaused s" "speedMultiplier (putNode k n s) = speedMultiplier s"
  "GameState.more (putNode k n s) = GameState.more s"
  by (simp_all add: putNode_def)

lemma frame_modifyNode [simp]:
  "seedId (modifyNode k f s) = seedId s" "resources (modifyNode k f s) = resources s"
  "climate (modifyNode k f s) = climate s" "selectedNodeId (modifyNode k f s) = selectedNodeId s"
  "isPaused (modifyNode k f s) = isPaused s" "speedMultiplier (modifyNode k f s) = speedMultiplier s"
  "GameState.more (modifyNode k f s) = GameState.more s"
  by (simp_all add: modifyNode_def split: option.splits)

lemma frame_sim_putNode [simp]:
  "nextId (putNode k n s) = nextId s" "particles (putNode k n s) = particles s"
  by (simp_all add: putNode_def)

section \<open>Structural mutations\<close>

text \<open>
  Claim C10, amended. For every input \<open>m\<close> other than \<open>NaN\<close> (finite, zero, negative or
  infinite), \<open>setSpeedMultiplier(m)\<close> stores exactly \<open>max(0.1, min(10, m))\<close>: a finite number
  that lies in \<open>[0.1, 10]\<close> and is never zero or negative.
\<close>

theorem setSpeedMultiplier_clamps:
  assumes "m \<noteq> NaN"
  shows "\<exists>v. speedMultiplier (setSpeedMultiplier m s) = Fin v
           \<and> 0.1 \<le> v \<and> v \<le> 10 \<and> 0 < v
           \<and> (\<forall>x. m = Fin x \<longrightarrow> v = max 0.1 (min 10 x))
           \<and> (m = PosInf \<longrightarrow> v = 10) \<and> (m = NegInf \<longrightarrow> v = 0.1)"
proof (cases m)
  case NaN
  with assms show ?thesis by simp
next
  case NegInf
  have "speedMultiplier (setSpeedMultiplier m s) = Fin 0.1"
    by (simp add: NegInf setSpeedMultiplier_def)
  then show ?thesis using NegInf by (intro exI[of _ "0.1"]) simp
next
  case (Fin x)
  have "speedMultiplier (setSpeedMultiplier m s) = Fin (max 0.1 (min 10 x))"
    by (simp add: Fin setSpeedMultiplier_def)
  moreover have "0.1 \<le> max 0.1 (min 10 x)" "max 0.1 (min 10 x) \<le> 10" "0 < max 0.1 (min 10 x)"
    by (simp_all add: max_def min_def)
  ultimately show ?thesis using Fin by (intro exI[of _ "max 0.1 (min 10 x)"]) simp
next
  case PosInf
  have "speedMultiplier (setSpeedMultiplier m s) = Fin 10"
    by (simp add: PosInf setSpeedMultiplier_def)
  then show ?thesis using PosInf by (intro exI[of _ 10]) simp
qed

theorem setSpeedMultiplier_clamps_witness:
  "speedMultiplier (setSpeedMultiplier (Fin (- 3)) (createInitialState (\<lambda>i. 0))) = Fin 0.1
   \<and> speedMultiplier (setSpeedMultiplier (Fin 0) (createInitialState (\<lambda>i. 0))) = Fin 0.1
   \<and> speedMultiplier (setSpeedMultiplier PosInf (createInitialState (\<lambda>i. 0))) = Fin 10"
  using setSpeedMultiplier_clamps[of "Fin (- 3)" "createInitialState (\<lambda>i. 0)"]
    setSpeedMultiplier_clamps[of "Fin 0" "createInitialState (\<lambda>i. 0)"]
    setSpeedMultiplier_clamps[of PosInf "createInitialState (\<lambda>i. 0)"]
  by auto

text \<open>
  Claim C10 as stated fails at the one input that is no number: \<open>Math.min(10, NaN)\<close> and
  \<open>Math.max(0.1, NaN)\<close> are \<open>NaN\<close>, so \<open>setSpeedMultiplier(NaN)\<close> stores \<open>NaN\<close>, which lies in
  no interval.
\<close>

theorem setSpeedMultiplier_counterexample:
  "speedMultiplier (setSpeedMultiplier NaN (createInitialState (\<lambda>i. 0))) = NaN"
  by (simp add: setSpeedMultiplier_def)

lemma getNodeCost_nat: "\<exists>c::nat. getNodeCost t = of_nat c"
proof (cases t)
  case SEED then show ?thesis by (intro exI[of _ 0]) (simp add: getNodeCost_def)
next
  case ROOT then show ?thesis by (intro exI[of _ 12]) (simp add: getNodeCost_def CONFIG)
next
  case TRUNK then show ?thesis by (intro exI[of _ 20]) (simp add: getNodeCost_def CONFIG)
next
  case BRANCH then show ?thesis by (intro exI[of _ 15]) (simp add: getNodeCost_def CONFIG)
next
  case LEAF then show ?thesis by (intro exI[of _ 10]) (simp add: getNodeCost_def CONFIG)
qed

lemma exact_cost_debit:
  assumes "isDouble x" "getNodeCost t \<le> x" "x < 2 ^ 53"
  shows "roundToDouble (x - getNodeCost t) = x - getNodeCost t"
proof -
  obtain c :: nat where c: "getNodeCost t = of_nat c" using getNodeCost_nat by blast
  show ?thesis unfolding c by (rule exact_debit) (use assms c in simp_all)
qed

text \<open>
  Claim C2, amended. In a store whose keys were all drawn from the id counter (every key is
  below \<open>nextId\<close>), for a call of \<open>addNode\<close> whose parent id is a generated id: when that id is
  not in the table or the stored sugar is below the cost of the type, the call returns no
  segment and the store is unchanged; when the parent is in the table and the sugar covers the
  cost, it returns a new segment under a key that was not in the table, the stored sugar
  becomes the double nearest to sugar minus cost, which is exactly sugar minus cost whenever
  the stored sugar is a double below \<open>2^53\<close>, and the number of segments grows by exactly one.
\<close>

theorem addNode_spec:
  assumes fresh: "idsFresh s"
  shows "(getNode s parentId' = None \<or> sugar (resources s) < getNodeCost type'
            \<longrightarrow> addNodeCall (Generated parentId') type' position' radius' s = Returned None s)
       \<and> (getNode s parentId' \<noteq> None \<and> getNodeCost type' \<le> sugar (resources s)
            \<longrightarrow> (\<exists>node s'. addNodeCall (Generated parentId') type' position' radius' s
                              = Returned (Some node) s'
                  \<and> getNode s (ident node) = None
                  \<and> getNode s' (ident node) = Some node
                  \<and> sugar (resources s') = roundToDouble (sugar (resources s) - getNodeCost type')
                  \<and> (isDouble (sugar (resources s)) \<and> sugar (resources s) < 2 ^ 53
                       \<longrightarrow> sugar (resources s') = sugar (resources s) - getNodeCost type')
                  \<and> length (nodes s') = Suc (length (nodes s))))"
proof (intro conjI impI)
  assume "getNode s parentId' = None \<or> sugar (resources s) < getNodeCost type'"
  then show "addNodeCall (Generated parentId') type' position' radius' s = Returned None s"
    by (auto simp: addNodeCall_def addNode_def Let_def split: option.splits)
next
  assume ok: "getNode s parentId' \<noteq> None \<and> getNodeCost type' \<le> sugar (resources s)"
  from fresh have nk: "nextId s \<notin> set (map fst (nodes s))" by (rule idsFresh_nextId)
  then have nn: "getNode s (nextId s) = None" by (simp add: getNode_None_iff)
  from ok obtain parent where p: "getNode s parentId' = Some parent" by auto
  have ex: "isDouble (sugar (resources s)) \<and> sugar (resources s) < 2 ^ 53
      \<longrightarrow> roundToDouble (sugar (resources s) - getNodeCost type') = sugar (resources s) - getNodeCost type'"
    using exact_cost_debit[of "sugar (resources s)" type'] ok by blast
  show "\<exists>node s'. addNodeCall (Generated parentId') type' position' radius' s = Returned (Some node) s'
                  \<and> getNode s (ident node) = None
                  \<and> getNode s' (ident node) = Some node
                  \<and> sugar (resources s') = roundToDouble (sugar (resources s) - getNodeCost type')
                  \<and> (isDouble (sugar (resources s)) \<and> sugar (resources s) < 2 ^ 53
                       \<longrightarrow> sugar (resources s') = sugar (resources s) - getNodeCost type')
                  \<and> length (nodes s') = Suc (length (nodes s))"
    using ok p nn nk ex
    by (simp add: addNodeCall_def addNode_def Let_def length_nodes_putNode)
qed

theorem addNode_spec_witness:
  "idsFresh (createInitialState (\<lambda>i. 0))
   \<and> addNodeCall (Generated 7) TRUNK \<lparr>vx = 0, vy = - 0.25\<rparr> None (createInitialState (\<lambda>i. 0))
       = Returned None (createInitialState (\<lambda>i. 0))
   \<and> (\<exists>node s'. addNodeCall (Generated 1) TRUNK \<lparr>vx = 0, vy = - 0.25\<rparr> None (createInitialState (\<lambda>i. 0))
                   = Returned (Some node) s'
         \<and> sugar (resources s') = sugar (resources (createInitialState (\<lambda>i. 0))) - getNodeCost TRUNK
         \<and> length (nodes s') = Suc (length (nodes (createInitialState (\<lambda>i. 0)))))"
proof -
  let ?s = "createInitialState (\<lambda>i. 0)"
  have h: "idsFresh ?s"
    by (simp add: createInitialState_def idsFresh_def)
  have a: "getNode ?s 7 = None"
    by (simp add: createInitialState_def getNode_def)
  have b: "getNode ?s 1 \<noteq> None \<and> getNodeCost TRUNK \<le> sugar (resources ?s)"
    by (simp add: createInitialState_def getNode_def getNodeCost_def CONFIG)
  have "sugar (resources ?s) = 100" by (simp add: createInitialState_def CONFIG)
  then have c: "isDouble (sugar (resources ?s)) \<and> sugar (resources ?s) < 2 ^ 53"
    using isDouble_example(2) by simp
  from addNode_spec[OF h, of 7 TRUNK] addNode_spec[OF h, of 1 TRUNK] a b c h
  show ?thesis by blast
qed

text \<open>
  Claim C2 as stated fails: the sugar is a double, and above \<open>2^53\<close> the doubles are more than
  one apart. In a store with sugar \<open>10^18\<close> (a double) a leaf, cost 10, is added and the stored
  sugar is what it was: the nearest double to \<open>10^18 - 10\<close> is \<open>10^18\<close>.
\<close>

definition richStore :: Sim where
  "richStore = (createInitialState (\<lambda>i. 0))\<lparr>
     resources := \<lparr> sugar = 10 ^ 18, water = INITIAL_WATER, minerals = INITIAL_MINERALS \<rparr> \<rparr>"

theorem addNode_counterexample:
  "isDouble (sugar (resources richStore))
   \<and> getNodeCost LEAF = 10
   \<and> fst (addNode 1 LEAF \<lparr>vx = 0, vy = - 0.25\<rparr> None richStore) \<noteq> None
   \<and> sugar (resources (snd (addNode 1 LEAF \<lparr>vx = 0, vy = - 0.25\<rparr> None richStore)))
       = sugar (resources richStore)"
proof -
  have s: "sugar (resources richStore) = 10 ^ 18" by (simp add: richStore_def)
  have c: "getNodeCost LEAF = 10" by (simp add: getNodeCost_def CONFIG)
  have g: "getNode richStore 1 = Some (seedNode 1)"
    by (simp add: richStore_def createInitialState_def getNode_def)
  have "\<not> sugar (resources richStore) < getNodeCost LEAF" by (simp add: s c)
  then have "fst (addNode 1 LEAF \<lparr>vx = 0, vy = - 0.25\<rparr> None richStore) \<noteq> None
     \<and> sugar (resources (snd (addNode 1 LEAF \<lparr>vx = 0, vy = - 0.25\<rparr> None richStore)))
         = roundToDouble (sugar (resources richStore) - getNodeCost LEAF)"
    using g by (simp add: addNode_def Let_def)
  then show ?thesis
    unfolding s c using isDouble_example(1) rounding_example by simp
qed

text \<open>
  A rejected structural mutation at a generated id is atomic. \<open>addNode\<close> returns no segment
  exactly when the parent is missing or the sugar is below the cost, \<open>extendNode\<close> exactly when
  the target is missing, is not a trunk, branch or root, or the sugar is below the cost; in
  each of these cases the whole state after the call (segments, resources, climate, selection,
  and the id counter) is the state before it.
\<close>

lemma rejected_mutation_atomic:
  "(fst (addNode parentId' type' position' radius' s) = None
      \<longleftrightarrow> (getNode s parentId' = None \<or> sugar (resources s) < getNodeCost type'))
   \<and> (fst (addNode parentId' type' position' radius' s) = None
      \<longrightarrow> snd (addNode parentId' type' position' radius' s) = s)
   \<and> (fst (extendNode nodeId direction s) = None
      \<longleftrightarrow> (case getNode s nodeId of
             None \<Rightarrow> True
           | Some node \<Rightarrow> (ntype node \<noteq> TRUNK \<and> ntype node \<noteq> BRANCH \<and> ntype node \<noteq> ROOT)
                          \<or> sugar (resources s) < getNodeCost (ntype node)))
   \<and> (fst (extendNode nodeId direction s) = None
      \<longrightarrow> snd (extendNode nodeId direction s) = s)"
  by (auto simp: addNode_def extendNode_def Let_def split: option.splits)

text \<open>
  Claim C7. The claim is that a call of \<open>addNode\<close> with a missing parent returns no segment and
  changes nothing. The test \<open>if (!parent)\<close> with its warning "Parent not found" is there to
  do that, but a name inherited from \<open>Object.prototype\<close> is no key of the table and still
  passes it. With the parent id \<open>constructor\<close> on the initial store the call neither returns
  nor leaves the store alone: the id counter has advanced from 2 to 3, a half-built leaf is
  entered under \<open>node_2\<close>, the sugar is not debited, and a \<open>TypeError\<close> is thrown.
\<close>

theorem addNode_inherited_parent_throws:
  "addNodeCall (Named ''constructor'') LEAF \<lparr>vx = 0, vy = 0\<rparr> None (createInitialState (\<lambda>i. 0))
     = ThrewTypeError ((createInitialState (\<lambda>i. 0))\<lparr>nextId := 3\<rparr>)
         \<lparr> enteredAs = 2, enteredType = LEAF, enteredPosition = \<lparr>vx = 0, vy = 0\<rparr>,
           enteredParent = ''constructor'', enteredRadius = LEAF_RADIUS \<rparr>
   \<and> getNode (createInitialState (\<lambda>i. 0)) 2 = None
   \<and> addNodeCall (Named ''constructor'') LEAF \<lparr>vx = 0, vy = 0\<rparr> None (createInitialState (\<lambda>i. 0))
     \<noteq> Returned None (createInitialState (\<lambda>i. 0))"
  by (simp add: addNodeCall_def objectPrototypeNames_def createInitialState_def getNodeCost_def
      getDefaultRadius_def getNode_def CONFIG)



section \<open>Pruning a subtree\<close>

lemma rankedD:
  "ranked rank ns \<Longrightarrow> map_of ns k = Some n \<Longrightarrow> c \<in> set (childrenIds n) \<Longrightarrow> rank c < rank k"
  by (auto simp: ranked_def list_all_iff dest!: map_of_SomeD)

lemma childRel_rank: "ranked rank ns \<Longrightarrow> (p, c) \<in> childRel ns \<Longrightarrow> rank c < rank p"
  by (auto simp: childRel_def dest: rankedD)

lemma reach_rank:
  assumes "ranked rank ns" "(k, d) \<in> (childRel ns)\<^sup>*"
  shows "rank d \<le> rank k"
  using assms(2)
proof (induction rule: rtrancl_induct)
  case base
  then show ?case by simp
next
  case (step y z)
  with childRel_rank[OF assms(1) step.hyps(2)] show ?case by simp
qed

lemma reachIds_Some:
  assumes "map_of ns k = Some n"
  shows "reachIds ns k = insert k (\<Union>c\<in>set (childrenIds n). reachIds ns c)"
proof (intro set_eqI iffI)
  fix d assume "d \<in> reachIds ns k"
  then have "(k, d) \<in> (childRel ns)\<^sup>*" by (simp add: reachIds_def)
  then show "d \<in> insert k (\<Union>c\<in>set (childrenIds n). reachIds ns c)"
  proof (cases rule: converse_rtranclE)
    case base
    then show ?thesis by simp
  next
    case (step c)
    from step(1) assms have "c \<in> set (childrenIds n)" by (auto simp: childRel_def)
    with step(2) show ?thesis by (auto simp: reachIds_def)
  qed
next
  fix d assume "d \<in> insert k (\<Union>c\<in>set (childrenIds n). reachIds ns c)"
  then consider "d = k" | c where "c \<in> set (childrenIds n)" "(c, d) \<in> (childRel ns)\<^sup>*"
    by (auto simp: reachIds_def)
  then show "d \<in> reachIds ns k"
  proof cases
    case 1
    then show ?thesis by (simp add: reachIds_def)
  next
    case 2
    from 2(1) assms have "(k, c) \<in> childRel ns" by (auto simp: childRel_def)
    with 2(2) show ?thesis by (auto simp: reachIds_def intro: converse_rtrancl_into_rtrancl)
  qed
qed

lemma reachIds_None:
  assumes "map_of ns k = None"
  shows "reachIds ns k = {k}"
proof -
  have "\<And>d. (k, d) \<in> (childRel ns)\<^sup>* \<Longrightarrow> d = k"
    using assms by (erule_tac converse_rtranclE) (auto simp: childRel_def)
  then show ?thesis by (auto simp: reachIds_def)
qed

lemma closedUnder_reach: "closedUnder ns D \<Longrightarrow> k \<in> D \<Longrightarrow> reachIds ns k \<subseteq> D"
proof
  fix d assume c: "closedUnder ns D" and k: "k \<in> D" and "d \<in> reachIds ns k"
  then have "(k, d) \<in> (childRel ns)\<^sup>*" by (simp add: reachIds_def)
  then show "d \<in> D"
    by (induction rule: rtrancl_induct) (use c k in \<open>auto simp: closedUnder_def\<close>)
qed

lemma closedUnder_Un_reach: "closedUnder ns D \<Longrightarrow> closedUnder ns (D \<union> reachIds ns k)"
  by (auto simp: closedUnder_def reachIds_def intro: rtrancl_into_rtrancl)

lemma closedUnder_empty: "closedUnder ns {}"
  by (simp add: closedUnder_def)

lemma map_of_restrictOut: "map_of (restrictOut D ns) k = (if k \<in> D then None else map_of ns k)"
  by (induction ns) (auto simp: restrictOut_def)

lemma restrictOut_absent:
  "X \<inter> set (map fst ns) \<subseteq> D \<Longrightarrow> restrictOut (D \<union> X) ns = restrictOut D ns"
  unfolding restrictOut_def by (rule filter_cong) auto

lemma delete_restrictOut: "AList.delete k (restrictOut D ns) = restrictOut (insert k D) ns"
  by (auto simp: AList.delete_eq restrictOut_def intro: filter_cong)

lemma foldOpt_remove:
  assumes IH: "\<And>k D. closedUnder ns0 D \<Longrightarrow> rank k < fuel \<Longrightarrow>
            removeRecursive fuel k (restrictOut D ns0) = Some (restrictOut (D \<union> reachIds ns0 k) ns0)"
  shows "closedUnder ns0 D \<Longrightarrow> \<forall>c\<in>set cs. rank c < fuel \<Longrightarrow>
     foldOpt (removeRecursive fuel) cs (restrictOut D ns0)
       = Some (restrictOut (D \<union> (\<Union>c\<in>set cs. reachIds ns0 c)) ns0)"
proof (induction cs arbitrary: D)
  case Nil
  then show ?case by simp
next
  case (Cons c cs)
  have cl: "closedUnder ns0 (D \<union> reachIds ns0 c)"
    using Cons.prems(1) by (rule closedUnder_Un_reach)
  have "foldOpt (removeRecursive fuel) (c # cs) (restrictOut D ns0)
      = foldOpt (removeRecursive fuel) cs (restrictOut (D \<union> reachIds ns0 c) ns0)"
    using IH[OF Cons.prems(1), of c] Cons.prems(2) by simp
  also have "\<dots> = Some (restrictOut ((D \<union> reachIds ns0 c) \<union> (\<Union>c\<in>set cs. reachIds ns0 c)) ns0)"
    using Cons.IH[OF cl] Cons.prems(2) by simp
  finally show ?case by (simp add: Un_assoc)
qed

lemma removeRecursive_restrictOut:
  assumes r: "ranked rank ns0"
  shows "closedUnder ns0 D \<Longrightarrow> rank k < fuel \<Longrightarrow>
     removeRecursive fuel k (restrictOut D ns0) = Some (restrictOut (D \<union> reachIds ns0 k) ns0)"
proof (induction fuel arbitrary: k D)
  case 0
  then show ?case by simp
next
  case (Suc fuel)
  show ?case
  proof (cases "map_of (restrictOut D ns0) k")
    case None
    then have "k \<in> D \<or> map_of ns0 k = None" by (auto simp: map_of_restrictOut split: if_splits)
    then have "reachIds ns0 k \<inter> set (map fst ns0) \<subseteq> D"
    proof
      assume "k \<in> D"
      with closedUnder_reach[OF Suc.prems(1)] show ?thesis by blast
    next
      assume n: "map_of ns0 k = None"
      then have "k \<notin> set (map fst ns0)" by (simp add: map_of_eq_None_iff)
      with reachIds_None[OF n] show ?thesis by auto
    qed
    then have "restrictOut (D \<union> reachIds ns0 k) ns0 = restrictOut D ns0"
      by (rule restrictOut_absent)
    with None show ?thesis by simp
  next
    case (Some n)
    then have kD: "k \<notin> D" and n: "map_of ns0 k = Some n"
      by (auto simp: map_of_restrictOut split: if_splits)
    have rk: "\<forall>c\<in>set (childrenIds n). rank c < fuel"
      using rankedD[OF r n] Suc.prems(2) by fastforce
    have "foldOpt (removeRecursive fuel) (childrenIds n) (restrictOut D ns0)
       = Some (restrictOut (D \<union> (\<Union>c\<in>set (childrenIds n). reachIds ns0 c)) ns0)"
      by (rule foldOpt_remove[OF Suc.IH Suc.prems(1) rk])
    then have "removeRecursive (Suc fuel) k (restrictOut D ns0)
       = Some (restrictOut (insert k (D \<union> (\<Union>c\<in>set (childrenIds n). reachIds ns0 c))) ns0)"
      using Some by (simp add: delete_restrictOut)
    also have "insert k (D \<union> (\<Union>c\<in>set (childrenIds n). reachIds ns0 c)) = D \<union> reachIds ns0 k"
      by (simp add: reachIds_Some[OF n])
    finally show ?thesis .
  qed
qed

lemma removeRecursive_exact:
  assumes "ranked rank ns" "rank k < fuel"
  shows "removeRecursive fuel k ns = Some (restrictOut (reachIds ns k) ns)"
  using removeRecursive_restrictOut[OF assms(1) closedUnder_empty assms(2)]
  by (simp add: restrictOut_def)


lemma set_update_subset: "set (AList.update k v ns) \<subseteq> insert (k, v) (set ns)"
  by (induction ns) auto

lemma ranked_shrink:
  assumes "ranked rank (nodes s)" "\<And>m. set (childrenIds (f m)) \<subseteq> set (childrenIds m)"
  shows "ranked rank (nodes (modifyNode p f s))"
proof (cases "getNode s p")
  case None
  then show ?thesis using assms(1) by (simp add: modifyNode_def)
next
  case (Some m)
  then have m: "(p, m) \<in> set (nodes s)" by (auto simp: getNode_def dest: map_of_SomeD)
  have "set (nodes (modifyNode p f s)) \<subseteq> insert (p, f m) (set (nodes s))"
    using Some by (simp add: modifyNode_def putNode_def set_update_subset)
  moreover have "list_all (\<lambda>c. rank c < rank p) (childrenIds (f m))"
    using assms m by (fastforce simp: ranked_def list_all_iff)
  ultimately show ?thesis
    using assms(1) by (fastforce simp: ranked_def list_all_iff)
qed

lemma reachIds_detach:
  assumes r: "ranked rank (nodes s)"
  shows "reachIds (nodes (modifyNode p (\<lambda>parent. parent\<lparr>childrenIds := filter (\<lambda>c. c \<noteq> k) (childrenIds parent)\<rparr>) s)) k
       = reachIds (nodes s) k"
    (is "reachIds ?ns1 k = reachIds ?ns k")
proof -
  have m1: "map_of ?ns1 x = (if x = p then map_option (\<lambda>parent. parent\<lparr>childrenIds := filter (\<lambda>c. c \<noteq> k) (childrenIds parent)\<rparr>) (map_of ?ns x) else map_of ?ns x)" for x
    using getNode_modifyNode[of p _ s x] by (simp add: getNode_def)
  have sub: "childRel ?ns1 \<subseteq> childRel ?ns"
    by (auto simp: childRel_def m1 split: if_splits)
  have keep: "(x, y) \<in> childRel ?ns \<Longrightarrow> y \<noteq> k \<Longrightarrow> (x, y) \<in> childRel ?ns1" for x y
    by (auto simp: childRel_def m1)
  have "(k, d) \<in> (childRel ?ns)\<^sup>* \<Longrightarrow> (k, d) \<in> (childRel ?ns1)\<^sup>*" for d
  proof (induction rule: rtrancl_induct)
    case base
    then show ?case by simp
  next
    case (step y z)
    have "rank z < rank y" using childRel_rank[OF r step.hyps(2)] .
    moreover have "rank y \<le> rank k" using reach_rank[OF r step.hyps(1)] .
    ultimately have "z \<noteq> k" by auto
    with keep[OF step.hyps(2)] step.IH show ?case by (auto intro: rtrancl_into_rtrancl)
  qed
  moreover have "(k, d) \<in> (childRel ?ns1)\<^sup>* \<Longrightarrow> (k, d) \<in> (childRel ?ns)\<^sup>*" for d
    using rtrancl_mono[OF sub] by auto
  ultimately show ?thesis by (auto simp: reachIds_def)
qed

lemma length_restrictOut:
  assumes "distinct (map fst ns)"
  shows "length (restrictOut X ns) + card (X \<inter> set (map fst ns)) = length ns"
proof -
  have "length (filter (\<lambda>k. k \<in> X) (map fst ns)) = card ({k. k \<in> X} \<inter> set (map fst ns))"
    using assms by (rule distinct_length_filter)
  moreover have "length (filter (\<lambda>k. k \<in> X) (map fst ns)) + length (filter (\<lambda>k. k \<notin> X) (map fst ns)) = length (map fst ns)"
    using sum_length_filter_compl[of "\<lambda>k. k \<in> X" "map fst ns"] by simp
  moreover have "length (filter (\<lambda>k. k \<notin> X) (map fst ns)) = length (restrictOut X ns)"
    by (simp add: restrictOut_def filter_map comp_def)
  ultimately show ?thesis by simp
qed

lemma keys_restrictOut: "set (map fst (restrictOut X ns)) = set (map fst ns) - X"
  by (auto simp: restrictOut_def)

text \<open>
  Claim C8. In a table with distinct keys and an acyclic child relation, \<open>removeNode\<close> on
  the seed returns \<open>false\<close> and leaves the state unchanged; on a stored segment that is not
  the seed it returns \<open>true\<close> (a recursion depth above the segment's rank suffices), the keys
  left are exactly the old keys outside the segment's rooted subtree, so the number of segments
  drops by exactly the size of that subtree, every surviving segment is as before except that
  the removed id is filtered from the child list of the removed segment's parent, and nothing
  but the table changes.
\<close>

theorem removeNode_spec:
  assumes r: "ranked rank (nodes s)" and d: "distinct (map fst (nodes s))"
    and n: "getNode s k = Some node"
  shows "(ntype node = SEED \<longrightarrow> removeNode fuel k s = Some (False, s))
       \<and> (ntype node \<noteq> SEED \<and> rank k < fuel \<longrightarrow>
            (\<exists>s'. removeNode fuel k s = Some (True, s')
               \<and> s'\<lparr>nodes := nodes s\<rparr> = s
               \<and> set (map fst (nodes s')) = set (map fst (nodes s)) - subtreeIds (nodes s) k
               \<and> length (nodes s') + card (subtreeIds (nodes s) k) = length (nodes s)
               \<and> (\<forall>k'. k' \<notin> subtreeIds (nodes s) k \<longrightarrow>
                     getNode s' k' = map_option
                       (\<lambda>m. if parentId node = Some k'
                            then m\<lparr>childrenIds := filter (\<lambda>c. c \<noteq> k) (childrenIds m)\<rparr> else m)
                       (getNode s k'))))"
proof (intro conjI impI)
  assume "ntype node = SEED"
  with n show "removeNode fuel k s = Some (False, s)" by (simp add: removeNode_def)
next
  assume a: "ntype node \<noteq> SEED \<and> rank k < fuel"
  let ?detach = "\<lambda>parent. parent\<lparr>childrenIds := filter (\<lambda>c. c \<noteq> k) (childrenIds parent)\<rparr>"
  define s1 where "s1 = (case parentId node of None \<Rightarrow> s | Some p \<Rightarrow> modifyNode p ?detach s)"
  have keys1: "map fst (nodes s1) = map fst (nodes s)"
    by (simp add: s1_def split: option.splits)
  have r1: "ranked rank (nodes s1)"
    using r by (auto simp: s1_def split: option.splits intro: ranked_shrink)
  have reach1: "reachIds (nodes s1) k = reachIds (nodes s) k"
    using reachIds_detach[OF r] by (simp add: s1_def split: option.splits)
  have rest1: "s1\<lparr>nodes := nodes s\<rparr> = s"
    by (simp add: s1_def modifyNode_def putNode_def split: option.splits)
  have get1: "getNode s1 k' = map_option (\<lambda>m. if parentId node = Some k' then ?detach m else m) (getNode s k')" for k'
    by (cases "getNode s k'") (auto simp: s1_def split: option.splits)
  have rr: "removeRecursive fuel k (nodes s1) = Some (restrictOut (reachIds (nodes s) k) (nodes s1))"
    using removeRecursive_exact[OF r1, of k fuel] a reach1 by simp
  let ?s' = "s1\<lparr>nodes := restrictOut (reachIds (nodes s) k) (nodes s1)\<rparr>"
  have res: "removeNode fuel k s = Some (True, ?s')"
    using n a rr by (simp add: removeNode_def s1_def Let_def)
  have e1: "?s'\<lparr>nodes := nodes s\<rparr> = s" using rest1 by simp
  have sub: "subtreeIds (nodes s) k = reachIds (nodes s) k \<inter> set (map fst (nodes s1))"
    by (simp add: subtreeIds_def keys1)
  have e2: "set (map fst (nodes ?s')) = set (map fst (nodes s)) - subtreeIds (nodes s) k"
    using keys_restrictOut[of "reachIds (nodes s) k" "nodes s1"] keys1
    by (auto simp: subtreeIds_def)
  have e3: "length (nodes ?s') + card (subtreeIds (nodes s) k) = length (nodes s)"
  proof -
    have "length (nodes s1) = length (nodes s)"
      using arg_cong[OF keys1, of length] by simp
    moreover have "distinct (map fst (nodes s1))" using d keys1 by simp
    ultimately show ?thesis
      using length_restrictOut[of "nodes s1" "reachIds (nodes s) k"] sub by simp
  qed
  have e4: "\<forall>k'. k' \<notin> subtreeIds (nodes s) k \<longrightarrow>
                     getNode ?s' k' = map_option
                       (\<lambda>m. if parentId node = Some k' then ?detach m else m) (getNode s k')"
  proof (intro allI impI)
    fix k' assume k': "k' \<notin> subtreeIds (nodes s) k"
    show "getNode ?s' k' = map_option (\<lambda>m. if parentId node = Some k' then ?detach m else m) (getNode s k')"
    proof (cases "k' \<in> reachIds (nodes s) k")
      case False
      then show ?thesis using get1[of k'] by (simp add: getNode_def map_of_restrictOut)
    next
      case True
      with k' have "k' \<notin> set (map fst (nodes s))" by (simp add: subtreeIds_def)
      then have "getNode s k' = None" by (simp add: getNode_None_iff)
      with True show ?thesis by (simp add: getNode_def map_of_restrictOut)
    qed
  qed
  from res e1 e2 e3 e4 show "\<exists>s'. removeNode fuel k s = Some (True, s')
               \<and> s'\<lparr>nodes := nodes s\<rparr> = s
               \<and> set (map fst (nodes s')) = set (map fst (nodes s)) - subtreeIds (nodes s) k
               \<and> length (nodes s') + card (subtreeIds (nodes s) k) = length (nodes s)
               \<and> (\<forall>k'. k' \<notin> subtreeIds (nodes s) k \<longrightarrow>
                     getNode s' k' = map_option
                       (\<lambda>m. if parentId node = Some k'
                            then m\<lparr>childrenIds := filter (\<lambda>c. c \<noteq> k) (childrenIds m)\<rparr> else m)
                       (getNode s k'))"
    by blast
qed


theorem removeNode_spec_witness:
  "ranked (\<lambda>k. 10 - k) (nodes exampleStore)
   \<and> distinct (map fst (nodes exampleStore))
   \<and> removeNode 9 1 exampleStore = Some (False, exampleStore)
   \<and> subtreeIds (nodes exampleStore) 2 = {2, 3, 4}
   \<and> (\<exists>s'. removeNode 9 2 exampleStore = Some (True, s')
          \<and> length (nodes s') + 3 = length (nodes exampleStore)
          \<and> set (map fst (nodes s')) = {1})"
proof -
  let ?ns = "nodes exampleStore"
  have r: "ranked (\<lambda>k. 10 - k) ?ns"
    by (simp add: exampleStore_def ranked_def exampleNode_def)
  have d: "distinct (map fst ?ns)"
    by (simp add: exampleStore_def)
  have n1: "getNode exampleStore 1 = Some (exampleNode 1 SEED None [2])"
    and n2: "getNode exampleStore 2 = Some (exampleNode 2 TRUNK (Some 1) [3, 4])"
    and n3: "getNode exampleStore 3 = Some (exampleNode 3 LEAF (Some 2) [])"
    and n4: "getNode exampleStore 4 = Some (exampleNode 4 BRANCH (Some 2) [])"
    by (simp_all add: exampleStore_def getNode_def)
  have r3: "reachIds ?ns 3 = {3}"
    using reachIds_Some[OF n3[unfolded getNode_def]] by (simp add: exampleNode_def)
  have r4: "reachIds ?ns 4 = {4}"
    using reachIds_Some[OF n4[unfolded getNode_def]] by (simp add: exampleNode_def)
  have r2: "reachIds ?ns 2 = {2, 3, 4}"
    using reachIds_Some[OF n2[unfolded getNode_def]] r3 r4 by (auto simp: exampleNode_def)
  have sub: "subtreeIds ?ns 2 = {2, 3, 4}"
    using r2 by (auto simp: subtreeIds_def exampleStore_def)
  have keys: "set (map fst ?ns) = {1, 2, 3, 4}"
    by (auto simp: exampleStore_def)
  have t1: "ntype (exampleNode 1 SEED None [2]) = SEED"
    and t2: "ntype (exampleNode 2 TRUNK (Some 1) [3, 4]) \<noteq> SEED \<and> (10::nat) - 2 < 9"
    by (simp_all add: exampleNode_def)
  from removeNode_spec[OF r d n1, of 9] t1
  have a: "removeNode 9 1 exampleStore = Some (False, exampleStore)" by simp
  from removeNode_spec[OF r d n2, of 9] t2
  obtain s' where s': "removeNode 9 2 exampleStore = Some (True, s')"
      "set (map fst (nodes s')) = set (map fst ?ns) - subtreeIds ?ns 2"
      "length (nodes s') + card (subtreeIds ?ns 2) = length ?ns"
    by blast
  have c: "card (subtreeIds ?ns 2) = 3" using sub by simp
  have l: "length (nodes s') + 3 = length ?ns" using s'(3) c by simp
  have "set (map fst ?ns) - subtreeIds ?ns 2 = {1}" unfolding keys sub by auto
  with s'(2) have k: "set (map fst (nodes s')) = {1}" by simp
  from s'(1) l k r d a sub show ?thesis by blast
qed


section \<open>Flow markers (core/systems/hydraulics.ts)\<close>

text \<open>
  The marker pool of hydraulics.ts. The source keys the per-connection counts by the string
  \<open>from->to\<close>; for ids of the form \<open>node_k\<close> that string determines the pair, so the key is
  the pair. \<open>get(key) || 0\<close> reads an absent count as 0.
\<close>

definition MAX_TOTAL_PARTICLES :: nat where "MAX_TOTAL_PARTICLES = 150"
definition MAX_PARTICLES_PER_CONNECTION :: nat where "MAX_PARTICLES_PER_CONNECTION = 2"

definition connectionCountOf :: "((NodeId \<times> NodeId) \<rightharpoonup> nat) \<Rightarrow> NodeId \<times> NodeId \<Rightarrow> nat" where
  "connectionCountOf counts connectionKey = (case counts connectionKey of None \<Rightarrow> 0 | Some c \<Rightarrow> c)"

definition spawnFlowParticle :: "NodeId \<Rightarrow> NodeId \<Rightarrow> SapType \<Rightarrow> real \<Rightarrow> Sim \<Rightarrow> Sim" where
  "spawnFlowParticle fromNodeId' toNodeId' type' speed' s =
     (if MAX_TOTAL_PARTICLES \<le> length (particles s) then s
      else
        let connectionKey = (fromNodeId', toNodeId');
            connectionCount = connectionCountOf (connectionParticleCounts s) connectionKey
        in if MAX_PARTICLES_PER_CONNECTION \<le> connectionCount then s
           else s\<lparr> connectionParticleCounts :=
                      (connectionParticleCounts s)(connectionKey \<mapsto> connectionCount + 1),
                    particles := particles s @
                      [\<lparr> pid = nextParticleId s, fromNodeId = fromNodeId', toNodeId = toNodeId',
                         progress = 0, ptype = type',
                         speed = min 3 (max 0.5 speed' * PARTICLE_SPEED) \<rparr>],
                    nextParticleId := Suc (nextParticleId s) \<rparr>)"

definition decrementConnectionCount :: "NodeId \<Rightarrow> NodeId \<Rightarrow> ((NodeId \<times> NodeId) \<rightharpoonup> nat) \<Rightarrow> ((NodeId \<times> NodeId) \<rightharpoonup> nat)" where
  "decrementConnectionCount fromNodeId' toNodeId' counts =
     (let connectionKey = (fromNodeId', toNodeId');
          count = connectionCountOf counts connectionKey
      in if count \<le> 1 then counts(connectionKey := None)
         else counts(connectionKey \<mapsto> count - 1))"

text \<open>
  \<open>updateParticles\<close> filters the particle list with a callback that advances the progress
  of a particle and decrements the count of its connection when the particle is dropped. The
  callback runs over the particles in order, threading the counts.
\<close>

fun filterParticles :: "'a GameState_scheme \<Rightarrow> FlowParticle list \<Rightarrow> ((NodeId \<times> NodeId) \<rightharpoonup> nat)
    \<Rightarrow> FlowParticle list \<times> ((NodeId \<times> NodeId) \<rightharpoonup> nat)" where
  "filterParticles s [] counts = ([], counts)"
| "filterParticles s (particle # rest) counts =
     (if getNode s (fromNodeId particle) = None \<or> getNode s (toNodeId particle) = None
      then filterParticles s rest (decrementConnectionCount (fromNodeId particle) (toNodeId particle) counts)
      else
        let particle' = particle\<lparr>progress := progress particle + speed particle * (1 / real TICKS_PER_SECOND)\<rparr>
        in if 1.0 \<le> progress particle'
           then filterParticles s rest (decrementConnectionCount (fromNodeId particle) (toNodeId particle) counts)
           else (case filterParticles s rest counts of (kept, counts') \<Rightarrow> (particle' # kept, counts')))"

definition updateParticles :: "Sim \<Rightarrow> Sim" where
  "updateParticles s =
     (case filterParticles s (particles s) (connectionParticleCounts s) of
        (kept, counts') \<Rightarrow> s\<lparr>particles := kept, connectionParticleCounts := counts'\<rparr>)"

definition clearParticles :: "Sim \<Rightarrow> Sim" where
  "clearParticles s = s\<lparr>particles := [], connectionParticleCounts := Map.empty\<rparr>"

text \<open>
  The states of the marker pool that can be reached: from an empty pool, by any call of
  \<open>spawnFlowParticle\<close>, \<open>updateParticles\<close> or \<open>clearParticles\<close>, and by any other change of
  the simulation that leaves the particle list and the counts alone (the table of segments
  may change arbitrarily between two calls).
\<close>

definition onConnection :: "NodeId \<times> NodeId \<Rightarrow> FlowParticle list \<Rightarrow> nat" where
  "onConnection key ps = length (filter (\<lambda>p. (fromNodeId p, toNodeId p) = key) ps)"

inductive particleReach :: "Sim \<Rightarrow> bool" where
  start: "particles s = [] \<Longrightarrow> connectionParticleCounts s = Map.empty \<Longrightarrow> particleReach s"
| spawn: "particleReach s \<Longrightarrow> particleReach (spawnFlowParticle f t ty sp s)"
| update: "particleReach s \<Longrightarrow> particleReach (updateParticles s)"
| clear: "particleReach s \<Longrightarrow> particleReach (clearParticles s)"
| other: "particleReach s \<Longrightarrow> particles s' = particles s
          \<Longrightarrow> connectionParticleCounts s' = connectionParticleCounts s \<Longrightarrow> particleReach s'"

definition countsTrack :: "Sim \<Rightarrow> bool" where
  "countsTrack s \<longleftrightarrow> (\<forall>key. connectionCountOf (connectionParticleCounts s) key = onConnection key (particles s))"

definition particleBudget :: "Sim \<Rightarrow> bool" where
  "particleBudget s \<longleftrightarrow> length (particles s) \<le> MAX_TOTAL_PARTICLES
      \<and> (\<forall>key. onConnection key (particles s) \<le> MAX_PARTICLES_PER_CONNECTION)"

lemma connectionCountOf_decrement:
  "connectionCountOf (decrementConnectionCount f t c) key
     = (if key = (f, t) then connectionCountOf c key - 1 else connectionCountOf c key)"
  by (auto simp: decrementConnectionCount_def connectionCountOf_def Let_def split: option.splits)

lemma filterParticles_track:
  "\<forall>key. connectionCountOf c key = n key + onConnection key ps
   \<Longrightarrow> filterParticles s ps c = (kept, c')
   \<Longrightarrow> (\<forall>key. connectionCountOf c' key = n key + onConnection key kept)
       \<and> (\<forall>key. onConnection key kept \<le> onConnection key ps)
       \<and> length kept \<le> length ps"
proof (induction ps arbitrary: c n kept c')
  case Nil
  then show ?case by (simp add: onConnection_def)
next
  case (Cons p ps)
  let ?k = "(fromNodeId p, toNodeId p)"
  let ?p' = "p\<lparr>progress := progress p + speed p * (1 / real TICKS_PER_SECOND)\<rparr>"
  show ?case
  proof (cases "getNode s (fromNodeId p) = None \<or> getNode s (toNodeId p) = None \<or> 1 \<le> progress ?p'")
    case True
    then have eq: "filterParticles s ps (decrementConnectionCount (fromNodeId p) (toNodeId p) c) = (kept, c')"
      using Cons.prems(2) by (auto simp: Let_def split: if_splits)
    have "\<forall>key. connectionCountOf (decrementConnectionCount (fromNodeId p) (toNodeId p) c) key
              = n key + onConnection key ps"
      using Cons.prems(1) by (auto simp: connectionCountOf_decrement onConnection_def)
    from Cons.IH[OF this eq] show ?thesis by (auto simp: onConnection_def le_SucI)
  next
    case False
    obtain ks cs where r: "filterParticles s ps c = (ks, cs)" by (cases "filterParticles s ps c")
    with False Cons.prems(2) have k: "kept = ?p' # ks" "c' = cs"
      by (auto simp: Let_def split: if_splits)
    have "\<forall>key. connectionCountOf c key = (n key + (if ?k = key then 1 else 0)) + onConnection key ps"
      using Cons.prems(1) by (auto simp: onConnection_def)
    from Cons.IH[OF this r] show ?thesis using k by (auto simp: onConnection_def)
  qed
qed

lemma countsTrack_spawn: "countsTrack s \<Longrightarrow> countsTrack (spawnFlowParticle f t ty sp s)"
  by (auto simp: countsTrack_def spawnFlowParticle_def Let_def connectionCountOf_def onConnection_def)

lemma countsTrack_update: "countsTrack s \<Longrightarrow> countsTrack (updateParticles s)"
proof -
  assume a: "countsTrack s"
  obtain ks cs where r: "filterParticles s (particles s) (connectionParticleCounts s) = (ks, cs)"
    by (cases "filterParticles s (particles s) (connectionParticleCounts s)")
  from a have "\<forall>key. connectionCountOf (connectionParticleCounts s) key = (\<lambda>_. 0) key + onConnection key (particles s)"
    by (simp add: countsTrack_def)
  from filterParticles_track[OF this r] show ?thesis
    by (simp add: countsTrack_def updateParticles_def r)
qed

lemma budget_spawn:
  "countsTrack s \<Longrightarrow> particleBudget s \<Longrightarrow> particleBudget (spawnFlowParticle f t ty sp s)"
  by (auto simp: countsTrack_def particleBudget_def spawnFlowParticle_def Let_def onConnection_def
      MAX_TOTAL_PARTICLES_def MAX_PARTICLES_PER_CONNECTION_def)

lemma filterParticles_le:
  "filterParticles s ps c = (kept, c')
   \<Longrightarrow> (\<forall>key. onConnection key kept \<le> onConnection key ps) \<and> length kept \<le> length ps"
proof (induction ps arbitrary: c kept c')
  case Nil
  then show ?case by (simp add: onConnection_def)
next
  case (Cons p ps)
  let ?p' = "p\<lparr>progress := progress p + speed p * (1 / real TICKS_PER_SECOND)\<rparr>"
  show ?case
  proof (cases "getNode s (fromNodeId p) = None \<or> getNode s (toNodeId p) = None \<or> 1 \<le> progress ?p'")
    case True
    then have "filterParticles s ps (decrementConnectionCount (fromNodeId p) (toNodeId p) c) = (kept, c')"
      using Cons.prems by (auto simp: Let_def split: if_splits)
    from Cons.IH[OF this] show ?thesis by (auto simp: onConnection_def le_SucI)
  next
    case False
    obtain ks cs where r: "filterParticles s ps c = (ks, cs)" by (cases "filterParticles s ps c")
    with False Cons.prems have k: "kept = ?p' # ks"
      by (auto simp: Let_def split: if_splits)
    from Cons.IH[OF r] show ?thesis using k by (auto simp: onConnection_def)
  qed
qed

lemma budget_update: "particleBudget s \<Longrightarrow> particleBudget (updateParticles s)"
proof -
  assume a: "particleBudget s"
  obtain ks cs where r: "filterParticles s (particles s) (connectionParticleCounts s) = (ks, cs)"
    by (cases "filterParticles s (particles s) (connectionParticleCounts s)")
  from filterParticles_le[OF r] a show ?thesis
    by (fastforce simp: particleBudget_def updateParticles_def r intro: order_trans)
qed

lemma particleReach_inv: "particleReach s \<Longrightarrow> countsTrack s \<and> particleBudget s"
proof (induction rule: particleReach.induct)
  case (start s)
  then show ?case
    by (simp add: countsTrack_def particleBudget_def connectionCountOf_def onConnection_def)
next
  case (spawn s f t ty sp)
  then show ?case by (simp add: countsTrack_spawn budget_spawn)
next
  case (update s)
  then show ?case by (simp add: countsTrack_update budget_update)
next
  case (clear s)
  then show ?case
    by (simp add: clearParticles_def countsTrack_def particleBudget_def connectionCountOf_def onConnection_def)
next
  case (other s s')
  then show ?case by (simp add: countsTrack_def particleBudget_def)
qed

text \<open>
  Claim C4. After every sequence of spawn calls and particle updates, whatever the arguments
  of the calls (hence whatever the random rolls that decide them) and whatever happens to the
  segments in between, at most 150 markers are live and at most 2 of them are on any one
  (source, destination) pair.
\<close>

theorem particle_caps:
  assumes "particleReach s"
  shows "length (particles s) \<le> 150
       \<and> (\<forall>src dst. length (filter (\<lambda>p. fromNodeId p = src \<and> toNodeId p = dst) (particles s)) \<le> 2)"
  using particleReach_inv[OF assms]
  by (simp add: particleBudget_def onConnection_def MAX_TOTAL_PARTICLES_def MAX_PARTICLES_PER_CONNECTION_def)

definition exampleParticles :: Sim where
  "exampleParticles = spawnFlowParticle 1 2 xylem 0.8 (spawnFlowParticle 1 2 xylem 0.8
      (spawnFlowParticle 1 2 xylem 0.8 exampleStore))"

theorem particle_caps_witness:
  "particleReach exampleParticles
   \<and> length (particles exampleParticles) = 2
   \<and> length (particles exampleParticles) \<le> 150
   \<and> (\<forall>src dst. length (filter (\<lambda>p. fromNodeId p = src \<and> toNodeId p = dst) (particles exampleParticles)) \<le> 2)"
proof -
  have "particleReach exampleStore"
    by (rule particleReach.start) (simp_all add: exampleStore_def createInitialState_def)
  then have r: "particleReach exampleParticles"
    unfolding exampleParticles_def by (intro particleReach.spawn)
  have "length (particles exampleParticles) = 2"
    by (simp add: exampleParticles_def exampleStore_def createInitialState_def spawnFlowParticle_def
        connectionCountOf_def Let_def MAX_TOTAL_PARTICLES_def MAX_PARTICLES_PER_CONNECTION_def)
  with particle_caps[OF r] r show ?thesis by simp
qed


section \<open>Loops over the table, references and random rolls\<close>

text \<open>
  \<open>Math.random()\<close>: the next outcome of the stream. The source's generator returns values
  in \<open>[0, 1)\<close>; the definitions below make sense for any stream, and a theorem that needs
  the range says so.
\<close>

definition mathRandom :: "Sim \<Rightarrow> real \<times> Sim" where
  "mathRandom s = (rolls s (rollsUsed s), s\<lparr>rollsUsed := Suc (rollsUsed s)\<rparr>)"

text \<open>
  \<open>for (const node of Object.values(state.nodes))\<close> takes the list of node objects once and
  then visits them in order. No system removes a key from the table during such a loop, so the
  visit of the object under key \<open>k\<close> reads the table at \<open>k\<close> when its turn comes. The body
  receives the key (the reference) and the node as it is at the start of the visit.
\<close>

definition forEachKey :: "NodeId list \<Rightarrow> (NodeId \<Rightarrow> PlantNode \<Rightarrow> Sim \<Rightarrow> Sim) \<Rightarrow> Sim \<Rightarrow> Sim" where
  "forEachKey ks body s =
     fold (\<lambda>k s'. case getNode s' k of None \<Rightarrow> s' | Some node \<Rightarrow> body k node s') ks s"

definition forEachNode :: "(NodeId \<Rightarrow> PlantNode \<Rightarrow> Sim \<Rightarrow> Sim) \<Rightarrow> Sim \<Rightarrow> Sim" where
  "forEachNode body s = forEachKey (map fst (nodes s)) body s"

text \<open>
  A read through a reference after the table has been written: the node now stored under the
  key (the node held before, should the key be gone).
\<close>

definition live :: "Sim \<Rightarrow> NodeId \<Rightarrow> PlantNode \<Rightarrow> PlantNode" where
  "live s k node = (case getNode s k of None \<Rightarrow> node | Some n \<Rightarrow> n)"

text \<open>\<open>getChildren(state, node)\<close> (utils/graph.ts), as references: the child ids that are keys.\<close>

definition getChildren :: "'a GameState_scheme \<Rightarrow> PlantNode \<Rightarrow> NodeId list" where
  "getChildren s node = filter (\<lambda>c. getNode s c \<noteq> None) (childrenIds node)"

text \<open>\<open>getNodesByType(state, type)\<close> (utils/graph.ts), as references.\<close>

definition getNodesByType :: "'a GameState_scheme \<Rightarrow> NodeType \<Rightarrow> NodeId list" where
  "getNodesByType s t = map fst (filter (\<lambda>kn. ntype (snd kn) = t) (nodes s))"

section \<open>Climate (core/systems/climate.ts)\<close>

definition TWO_PI :: real where "TWO_PI = pi * 2"

definition sunIntensityAt :: "real \<Rightarrow> real" where
  "sunIntensityAt dayProgress' =
     max MIN_SUN_INTENSITY
       (if dayProgress' < 0.25 then sin (dayProgress' * TWO_PI) * 0.8
        else if dayProgress' < 0.75 then sin (dayProgress' * pi)
        else max 0 (sin (dayProgress' * TWO_PI) * 0.3))"

definition updateClimateSystem :: "Sim \<Rightarrow> Sim" where
  "updateClimateSystem s =
     (let cl = climate s;
          ticksPerDay = TICKS_PER_SECOND * SECONDS_PER_DAY;
          dayProgress' = real (tick cl mod ticksPerDay) / real ticksPerDay;
          previousDayProgress = dayProgress cl;
          isNewDay = (dayProgress' < previousDayProgress \<and> previousDayProgress > 0.9);
          day' = (if isNewDay then day cl + 1 else day cl);
          sunAngle' = dayProgress' * TWO_PI;
          sunIntensity' = sunIntensityAt dayProgress';
          tempPhase = (dayProgress' + 0.1) * TWO_PI;
          temperature' = BASE_TEMPERATURE + TEMPERATURE_AMPLITUDE * sin (tempPhase - pi / 2);
          humidity' = 0.5 + 0.3 * cos (dayProgress' * TWO_PI);
          (r, s1) = mathRandom s;
          isRaining' =
            (if \<not> isRaining cl then (if r < RAIN_START_CHANCE * (1 + humidity') then True else False)
             else (if r < RAIN_STOP_CHANCE then False else True));
          soilWater' =
            (if isRaining' then min 1.0 (soilWater cl + RAIN_WATER_RATE)
             else max 0 (soilWater cl - EVAPORATION_RATE * (sunIntensity' * (temperature' / 30))))
      in updateClimate (\<lambda>c. c\<lparr> sunIntensity := sunIntensity', sunAngle := sunAngle',
              temperature := temperature', humidity := humidity', soilWater := soilWater',
              isRaining := isRaining', dayProgress := dayProgress', day := day' \<rparr>) s1)"

definition getSoilWaterAtDepth :: "'a GameState_scheme \<Rightarrow> real \<Rightarrow> real" where
  "getSoilWaterAtDepth s depth =
     (let baseWater = soilWater (climate s);
          depthFactor = min 1 (depth / 2);
          depthBonus = depthFactor * 0.3
      in min 1.0 (baseWater + depthBonus))"

section \<open>Hydraulics (core/systems/hydraulics.ts)\<close>

text \<open>
  Each loop body below is the body of the corresponding \<open>for\<close> loop of the source; a
  \<open>continue\<close> returns the state unchanged. \<open>a && Math.random() < p\<close> draws a roll only when
  \<open>a\<close> holds.
\<close>

definition spawnOnRoll :: "real \<Rightarrow> NodeId \<Rightarrow> NodeId \<Rightarrow> SapType \<Rightarrow> real \<Rightarrow> Sim \<Rightarrow> Sim" where
  "spawnOnRoll chance fromNodeId' toNodeId' type' speed' s =
     (case mathRandom s of (r, s1) \<Rightarrow>
        if r < chance then spawnFlowParticle fromNodeId' toNodeId' type' speed' s1 else s1)"

definition transpirationBody :: "real \<Rightarrow> NodeId \<Rightarrow> PlantNode \<Rightarrow> Sim \<Rightarrow> Sim" where
  "transpirationBody transpFactor k node s =
     (if \<not> isActive node then s
      else if ntype node = LEAF \<or> length (childrenIds node) = 0 then
        let waterLoss = TRANSPIRATION_RATE * transpFactor * radius node in
        if waterPressure node > 0.15 then
          let actualLoss = min waterLoss (waterPressure node - 0.12);
              newPressure = max 0.12 (waterPressure node - actualLoss)
          in if actualLoss > 0 then
               let s1 = updateNode (ident node) [F_waterPressure newPressure] s in
               (case parentId node of
                  None \<Rightarrow> s1
                | Some p \<Rightarrow> spawnOnRoll 0.05 p (ident node) xylem (0.8 + transpFactor * 0.5) s1)
             else s
        else s
      else s)"

definition processTranspiration :: "Sim \<Rightarrow> Sim" where
  "processTranspiration s =
     (let baseFactor = 0.2;
          sunFactor = sunIntensity (climate s) * (1 + temperature (climate s) / 40);
          transpFactor = baseFactor + sunFactor * 0.8
      in forEachNode (transpirationBody transpFactor) s)"

definition rootUptakeBody :: "NodeId \<Rightarrow> PlantNode \<Rightarrow> Sim \<Rightarrow> Sim" where
  "rootUptakeBody k rootNode s =
     (if \<not> isActive rootNode then s
      else
        let depth = \<bar>vy (position rootNode)\<bar>;
            soilWater' = getSoilWaterAtDepth s depth
        in if soilWater' > 0.1 \<and> waterPressure rootNode < 0.95 then
             let uptake = ROOT_UPTAKE_RATE * radius rootNode * max 0.1 (soilWater' - waterPressure rootNode);
                 newPressure = min 1.0 (waterPressure rootNode + uptake)
             in if uptake > 0.001 then
                  let s1 = updateNode (ident rootNode) [F_waterPressure newPressure] s;
                      s2 = modifyResources None (Some (uptake * 10)) None s1
                  in (case parentId rootNode of
                        None \<Rightarrow> s2
                      | Some p \<Rightarrow> spawnOnRoll 0.05 (ident rootNode) p xylem (0.8 + soilWater' * 0.5) s2)
                else s
           else s)"

definition processRootUptake :: "Sim \<Rightarrow> Sim" where
  "processRootUptake s = forEachKey (getNodesByType s ROOT) rootUptakeBody s"

definition xylemBody :: "NodeId \<Rightarrow> PlantNode \<Rightarrow> Sim \<Rightarrow> Sim" where
  "xylemBody k node s =
     (if \<not> isActive node then s
      else case parentId node of
        None \<Rightarrow> s
      | Some pk \<Rightarrow>
         (case getNode s pk of
            None \<Rightarrow> s
          | Some parent \<Rightarrow>
              if \<not> isActive parent then s
              else
                let pressureDiff = waterPressure parent - waterPressure node;
                    s1 = (if pressureDiff > FLOW_THRESHOLD then
                            let flowCapacity = min (radius node) (radius parent);
                                flowRate = WATER_FLOW_RATE * pressureDiff * flowCapacity;
                                actualFlow = min flowRate (waterPressure parent * 0.5);
                                sa = updateNode (ident parent)
                                       [F_waterPressure (waterPressure parent - actualFlow)] s;
                                node' = live sa k node;
                                sb = updateNode (ident node')
                                       [F_waterPressure (min 1.0 (waterPressure node' + actualFlow * 0.95))] sa
                            in if actualFlow > 0.0005
                               then spawnOnRoll 0.3 (ident parent) (ident node) xylem (actualFlow * 15) sb
                               else sb
                          else s);
                    parent' = live s1 pk parent;
                    node'' = live s1 k node
                in if waterPressure parent' > 0.1 \<or> waterPressure node'' > 0.1
                   then spawnOnRoll 0.02 (ident parent') (ident node'') xylem 0.8 s1
                   else s1))"

definition processXylemFlow :: "Sim \<Rightarrow> Sim" where
  "processXylemFlow s = forEachNode xylemBody s"

definition phloemChildBody :: "NodeId \<Rightarrow> NodeId \<Rightarrow> Sim \<Rightarrow> Sim" where
  "phloemChildBody k c s =
     (case getNode s k of
        None \<Rightarrow> s
      | Some node \<Rightarrow>
         (case getNode s c of
            None \<Rightarrow> s
          | Some child \<Rightarrow>
              if \<not> isActive child then s
              else
                let concDiff = sugarConcentration node - sugarConcentration child;
                    s1 = (if \<bar>concDiff\<bar> > FLOW_THRESHOLD then
                            let flowCapacity = min (radius node) (radius child);
                                flowRate = SUGAR_DIFFUSION_RATE * \<bar>concDiff\<bar> * flowCapacity;
                                actualFlow = flowRate
                            in if concDiff > 0 then
                                 let sa = updateNode (ident node)
                                            [F_sugarConcentration (sugarConcentration node - actualFlow * 0.5),
                                             F_sugarStore (max 0 (sugarStore node - actualFlow))] s;
                                     child' = live sa c child;
                                     sb = updateNode (ident child')
                                            [F_sugarConcentration (min 1.0 (sugarConcentration child' + actualFlow * 0.45)),
                                             F_sugarStore (sugarStore child' + actualFlow * 0.9)] sa
                                 in if actualFlow > 0.0005
                                    then spawnOnRoll 0.3 (ident node) (ident child) phloem (actualFlow * 15) sb
                                    else sb
                               else
                                 let sa = updateNode (ident child)
                                            [F_sugarConcentration (sugarConcentration child - \<bar>actualFlow\<bar> * 0.5)] s;
                                     node' = live sa k node;
                                     sb = updateNode (ident node')
                                            [F_sugarConcentration (min 1.0 (sugarConcentration node' + \<bar>actualFlow\<bar> * 0.45))] sa
                                 in if \<bar>actualFlow\<bar> > 0.0005
                                    then spawnOnRoll 0.3 (ident child) (ident node) phloem (\<bar>actualFlow\<bar> * 15) sb
                                    else sb
                          else s);
                    node'' = live s1 k node;
                    child'' = live s1 c child
                in if isActive node'' \<and> isActive child''
                   then spawnOnRoll 0.02 (ident child'') (ident node'') phloem 0.7 s1
                   else s1))"

definition phloemBody :: "NodeId \<Rightarrow> PlantNode \<Rightarrow> Sim \<Rightarrow> Sim" where
  "phloemBody k node s =
     (if \<not> isActive node then s
      else fold (phloemChildBody k) (getChildren s node) s)"

definition processPhloemFlow :: "Sim \<Rightarrow> Sim" where
  "processPhloemFlow s = forEachNode phloemBody s"

definition updateHydraulics :: "Sim \<Rightarrow> Sim" where
  "updateHydraulics s =
     updateParticles (processPhloemFlow (processXylemFlow (processRootUptake (processTranspiration s))))"

section \<open>Metabolism (core/systems/metabolism.ts)\<close>

text \<open>
  Photosynthesis multiplies the radius by 10 and respiration by 5. Over the reals these
  products are always finite. In the source they are doubles: from a radius of about
  \<open>1.8 * 10^307\<close> the product \<open>radius * 10\<close> is \<open>Infinity\<close>, so are the sugar produced and the
  sugar buffer, the respiration cost follows at twice that radius, and \<open>Infinity - Infinity\<close>
  is \<open>NaN\<close>. The two bodies below describe the source for radii up to \<open>10^307\<close>, where both
  products are below the largest double.
\<close>

definition photosynthesisBody :: "NodeId \<Rightarrow> PlantNode \<Rightarrow> Sim \<Rightarrow> Sim" where
  "photosynthesisBody k node s =
     (if \<not> isActive node then s
      else if ntype node \<noteq> LEAF \<and> length (childrenIds node) > 0 then s
      else if waterPressure node < MIN_WATER_FOR_PHOTOSYNTHESIS then s
      else
        let sunFactor = 0.15 + sunIntensity (climate s) * 0.85;
            waterFactor = min 1 (waterPressure node / 0.5);
            sizeFactor = radius node * 10;
            sugarProduced = PHOTOSYNTHESIS_RATE * sunFactor * waterFactor * sizeFactor
        in if sugarProduced > 0 then
             let waterCost = sugarProduced * WATER_PER_SUGAR;
                 s1 = updateNode (ident node)
                        [F_waterPressure (max 0 (waterPressure node - waterCost * 0.1)),
                         F_sugarStore (sugarStore node + sugarProduced),
                         F_sugarConcentration (min 1.0 (sugarConcentration node + sugarProduced * 0.1))] s;
                 s2 = modifyResources (Some sugarProduced) None None s1
             in (case parentId node of
                   None \<Rightarrow> s2
                 | Some p \<Rightarrow> spawnOnRoll (0.1 + sunFactor * 0.25) (ident node) p phloem (0.6 + sugarProduced * 3) s2)
           else s)"

definition processPhotosynthesis :: "Sim \<Rightarrow> Sim" where
  "processPhotosynthesis s = forEachNode photosynthesisBody s"

definition respirationBody :: "NodeId \<Rightarrow> PlantNode \<Rightarrow> Sim \<Rightarrow> Sim" where
  "respirationBody k node s =
     (if \<not> isActive node then s
      else
        let respirationCost = NODE_RESPIRATION_COST * (1 + radius node * 5) in
        if sugarStore node \<ge> respirationCost then
          let s1 = updateNode (ident node)
                     [F_sugarStore (sugarStore node - respirationCost),
                      F_sugarConcentration (max 0 (sugarConcentration node - respirationCost * 0.05))] s
          in if ntype node = ROOT
             then (case parentId node of
                     None \<Rightarrow> s1
                   | Some p \<Rightarrow> spawnOnRoll 0.25 p (ident node) phloem 0.7 s1)
             else s1
        else
          let deficit = respirationCost - sugarStore node;
              s1 = updateNode (ident node)
                     [F_sugarStore 0,
                      F_sugarConcentration (max 0 (sugarConcentration node - 0.01))] s;
              stressIncrease = deficit * STARVATION_STRESS_RATE;
              node' = live s1 k node
          in updateNode (ident node') [F_stressLevel (min 1 (stressLevel node' + stressIncrease))] s1)"

definition processRespiration :: "Sim \<Rightarrow> Sim" where
  "processRespiration s = forEachNode respirationBody s"

definition stressHealthBody :: "NodeId \<Rightarrow> PlantNode \<Rightarrow> Sim \<Rightarrow> Sim" where
  "stressHealthBody k node s =
     (if \<not> isActive node then s
      else
        let d1 = (if waterPressure node < 0.08
                  then 0 + DEHYDRATION_STRESS_RATE * (0.08 - waterPressure node) else 0);
            stressDelta = (if waterPressure node > 0.15 \<and> sugarStore node > 0.02
                           then d1 - HEALTH_RECOVERY_RATE
                           else if waterPressure node > 0.1
                           then d1 - HEALTH_RECOVERY_RATE * 0.5
                           else d1);
            newStress = max 0 (min 1 (stressLevel node + stressDelta));
            targetHealth = 1 - newStress * 0.8;
            newHealth = structuralHealth node + (targetHealth - structuralHealth node) * 0.1
        in if newStress \<ge> STRESS_DEATH_THRESHOLD
           then updateNode (ident node)
                  [F_stressLevel 1, F_structuralHealth 0, F_isActive False] s
           else updateNode (ident node)
                  [F_stressLevel newStress, F_structuralHealth (max 0 (min 1 newHealth))] s)"

definition processStressAndHealth :: "Sim \<Rightarrow> Sim" where
  "processStressAndHealth s = forEachNode stressHealthBody s"

definition updateMetabolism :: "Sim \<Rightarrow> Sim" where
  "updateMetabolism s = processStressAndHealth (processRespiration (processPhotosynthesis s))"

section \<open>Growth heuristic (core/systems/autogrow.ts)\<close>

datatype ActionType = GROW | THICKEN | EXTEND

text \<open>
  The target of an action is a reference to a node object; nothing writes the table between
  the analysis and the execution of an action, so the record holds the node as analysed.
\<close>

record GrowAction =
  actionType :: ActionType
  targetNode :: PlantNode
  growType :: "NodeType option"
  direction :: "Vec2 option"

record PlantAnalysis =
  leafCount :: nat
  rootCount :: nat
  trunkCount :: nat
  branchCount :: nat
  totalNodes :: nat
  balanceRatio :: real
  avgStress :: real
  weakestNode :: "PlantNode option"
  growthTips :: "PlantNode list"
  extendableTrunks :: "PlantNode list"
  extendableRoots :: "PlantNode list"

definition setAutoGrow :: "bool \<Rightarrow> Sim \<Rightarrow> Sim" where
  "setAutoGrow enabled s = s\<lparr>autoGrowEnabled := enabled, ticksSinceLastGrowth := 0\<rparr>"

text \<open>
  \<open>analyzePlant\<close> is one loop over the active nodes that counts, sums and collects; the
  accumulators are independent of each other, so each is computed by its own pass over the
  list of active nodes, in table order.
\<close>

definition weakestOf :: "PlantNode list \<Rightarrow> real \<times> PlantNode option" where
  "weakestOf ns = fold (\<lambda>node (highestStress, weakest).
       if stressLevel node > highestStress then (stressLevel node, Some node)
       else (highestStress, weakest)) ns (0, None)"

definition analyzePlant :: "Sim \<Rightarrow> PlantAnalysis" where
  "analyzePlant s =
     (let active = filter isActive (map snd (nodes s));
          leafCount' = length (filter (\<lambda>n. ntype n = LEAF) active);
          rootCount' = length (filter (\<lambda>n. ntype n = ROOT) active);
          trunkCount' = length (filter (\<lambda>n. ntype n = TRUNK) active);
          branchCount' = length (filter (\<lambda>n. ntype n = BRANCH) active);
          totalStress = sum_list (map stressLevel active);
          totalNodes' = length (nodes s);
          canopySize = leafCount' + trunkCount' + branchCount'
      in \<lparr> leafCount = leafCount', rootCount = rootCount', trunkCount = trunkCount',
           branchCount = branchCount', totalNodes = totalNodes',
           balanceRatio = (if rootCount' > 0 then real canopySize / real rootCount' else real canopySize),
           avgStress = (if totalNodes' > 0 then totalStress / real totalNodes' else 0),
           weakestNode = snd (weakestOf active),
           growthTips = filter (\<lambda>n. length (getChildren s n) < MAX_CHILDREN_PER_NODE) active,
           extendableTrunks = filter (\<lambda>n. length (childrenIds n) > 0
                                   \<and> (ntype n = TRUNK \<or> ntype n = BRANCH)) active,
           extendableRoots = filter (\<lambda>n. length (childrenIds n) > 0 \<and> ntype n = ROOT) active \<rparr>)"

text \<open>
  \<open>xs[Math.floor(Math.random() * xs.length)]\<close>. For a roll in \<open>[0, 1)\<close> and a non-empty
  list the index is in range; an index out of range makes the source fail on the undefined
  target, which cannot happen with the source's generator and is \<open>None\<close> here.
\<close>

definition pickRandom :: "'a list \<Rightarrow> Sim \<Rightarrow> 'a option \<times> Sim" where
  "pickRandom xs s =
     (case mathRandom s of (r, s1) \<Rightarrow>
        let i = \<lfloor>r * real (length xs)\<rfloor>
        in (if 0 \<le> i \<and> nat i < length xs then Some (xs ! nat i) else None, s1))"

definition getRandomRootDirection :: "Sim \<Rightarrow> Vec2 option \<times> Sim" where
  "getRandomRootDirection s =
     pickRandom [\<lparr>vx = 0, vy = 1\<rparr>, \<lparr>vx = - 1, vy = 1\<rparr>, \<lparr>vx = 1, vy = 1\<rparr>] s"

definition growAction :: "PlantNode \<Rightarrow> NodeType \<Rightarrow> Vec2 \<Rightarrow> GrowAction" where
  "growAction target t dir = \<lparr> actionType = GROW, targetNode = target, growType = Some t, direction = Some dir \<rparr>"

text \<open>The priorities of \<open>decideAction\<close>, last first; each falls through to the next.\<close>

definition decide6 :: "PlantAnalysis \<Rightarrow> Sim \<Rightarrow> GrowAction option \<times> Sim" where
  "decide6 analysis s =
     (if sugar (resources s) \<ge> COST_BRANCH then
        (case mathRandom s of (r, s1) \<Rightarrow>
           if r < 0.4 then
             let candidates = filter (\<lambda>n. ntype n = TRUNK) (growthTips analysis) in
             if length candidates > 0 then
               (case pickRandom candidates s1 of (target, s2) \<Rightarrow>
                 (case mathRandom s2 of (r', s3) \<Rightarrow>
                    let dir = (if r' < 0.5 then \<lparr>vx = - 1, vy = - 1\<rparr> else \<lparr>vx = 1, vy = - 1\<rparr>)
                    in (map_option (\<lambda>t. growAction t BRANCH dir) target, s3)))
             else (None, s1)
           else (None, s1))
      else (None, s))"

definition decide5 :: "PlantAnalysis \<Rightarrow> Sim \<Rightarrow> GrowAction option \<times> Sim" where
  "decide5 analysis s =
     (if sugar (resources s) \<ge> COST_TRUNK then
        let trunks = filter (\<lambda>n. ntype n = TRUNK \<or> ntype n = SEED) (growthTips analysis) in
        if length trunks > 0 then
          (case pickRandom trunks s of (target, s1) \<Rightarrow>
             (map_option (\<lambda>t. growAction t TRUNK \<lparr>vx = 0, vy = - 1\<rparr>) target, s1))
        else decide6 analysis s
      else decide6 analysis s)"

definition decide4 :: "PlantAnalysis \<Rightarrow> Sim \<Rightarrow> GrowAction option \<times> Sim" where
  "decide4 analysis s =
     (if sugar (resources s) \<ge> COST_TRUNK then
        (case mathRandom s of (r, s1) \<Rightarrow>
           if r < 0.3 then
             if length (extendableTrunks analysis) > 0 then
               (case pickRandom (extendableTrunks analysis) s1 of (target, s2) \<Rightarrow>
                  (map_option (\<lambda>t. \<lparr> actionType = EXTEND, targetNode = t, growType = None,
                                       direction = Some \<lparr>vx = 0, vy = - 1\<rparr> \<rparr>) target, s2))
             else decide5 analysis s1
           else decide5 analysis s1)
      else decide5 analysis s)"

definition decide3 :: "PlantAnalysis \<Rightarrow> Sim \<Rightarrow> GrowAction option \<times> Sim" where
  "decide3 analysis s =
     (if leafCount analysis < rootCount analysis * 2 \<and> sugar (resources s) \<ge> COST_LEAF then
        let candidates = filter (\<lambda>n. ntype n = TRUNK \<or> ntype n = BRANCH) (growthTips analysis) in
        if length candidates > 0 then
          (case pickRandom candidates s of (target, s1) \<Rightarrow>
             (map_option (\<lambda>t. growAction t LEAF \<lparr>vx = 0, vy = - 1\<rparr>) target, s1))
        else decide4 analysis s
      else decide4 analysis s)"

definition decide2 :: "PlantAnalysis \<Rightarrow> Sim \<Rightarrow> GrowAction option \<times> Sim" where
  "decide2 analysis s =
     (if balanceRatio analysis > 3 \<and> sugar (resources s) \<ge> COST_ROOT then
        let roots = map snd (filter (\<lambda>kn. ntype (snd kn) = ROOT) (nodes s)) in
        if length roots > 0 then
          (case pickRandom roots s of (targetRoot, s1) \<Rightarrow>
             (case targetRoot of
                None \<Rightarrow> (None, s1)
              | Some t \<Rightarrow>
                  if length (getChildren s1 t) < MAX_CHILDREN_PER_NODE then
                    (case getRandomRootDirection s1 of (dir, s2) \<Rightarrow>
                       (map_option (\<lambda>d. growAction t ROOT d) dir, s2))
                  else decide3 analysis s1))
        else
          (case getNode s (seedId s) of
             None \<Rightarrow> decide3 analysis s
           | Some seed \<Rightarrow>
               if length (getChildren s seed) < MAX_CHILDREN_PER_NODE
               then (Some (growAction seed ROOT \<lparr>vx = 0, vy = 1\<rparr>), s)
               else decide3 analysis s)
      else decide3 analysis s)"

definition decideAction :: "PlantAnalysis \<Rightarrow> Sim \<Rightarrow> GrowAction option \<times> Sim" where
  "decideAction analysis s =
     (case weakestNode analysis of
        None \<Rightarrow> decide2 analysis s
      | Some w \<Rightarrow>
          if stressLevel w > 0.3 \<and> sugar (resources s) \<ge> COST_HARDEN
             \<and> (ntype w = TRUNK \<or> ntype w = BRANCH \<or> ntype w = ROOT)
          then (Some \<lparr> actionType = THICKEN, targetNode = w, growType = None, direction = None \<rparr>, s)
          else decide2 analysis s)"

text \<open>\<open>Math.round\<close> rounds half up.\<close>

definition mathRound :: "real \<Rightarrow> int" where
  "mathRound v = \<lfloor>v + 1 / 2\<rfloor>"

definition gridCell :: "Vec2 \<Rightarrow> int \<times> int" where
  "gridCell p = (mathRound ((vx p * PIXELS_PER_METER) / TILE_SIZE),
                 mathRound ((vy p * PIXELS_PER_METER) / TILE_SIZE))"

definition executeAction :: "GrowAction \<Rightarrow> Sim \<Rightarrow> Sim" where
  "executeAction action s =
     (case actionType action of
        THICKEN \<Rightarrow>
          let newRadius = radius (targetNode action) * 1.2;
              s1 = updateNode (ident (targetNode action)) [F_radius newRadius] s
          in s1\<lparr>resources := (resources s1)\<lparr>sugar := sugar (resources s1) - COST_HARDEN\<rparr>\<rparr>
      | EXTEND \<Rightarrow>
          (case direction action of
             None \<Rightarrow> s
           | Some dir \<Rightarrow> snd (extendNode (ident (targetNode action)) dir s))
      | GROW \<Rightarrow>
          (case (growType action, direction action) of
             (Some gt, Some dir) \<Rightarrow>
               let newPos = shiftBy dir (position (targetNode action));
                   occupied = list_ex (\<lambda>kn. gridCell (position (snd kn)) = gridCell newPos) (nodes s)
               in if \<not> occupied
                  then snd (addNode (ident (targetNode action)) gt newPos None s)
                  else s
           | _ \<Rightarrow> s))"

definition updateAutoGrow :: "Sim \<Rightarrow> Sim" where
  "updateAutoGrow s =
     (if \<not> autoGrowEnabled s then s
      else
        let sugarExcess = max 0 (sugar (resources s) - 50);
            speedBonus = min 0.8 (sugarExcess / 500);
            growthInterval = max 5 (15 * (1 - speedBonus));
            s1 = s\<lparr>ticksSinceLastGrowth := Suc (ticksSinceLastGrowth s)\<rparr>
        in if real (ticksSinceLastGrowth s1) < growthInterval then s1
           else
             let s2 = s1\<lparr>ticksSinceLastGrowth := 0\<rparr> in
             if sugar (resources s2) < 20 then s2
             else
               (case decideAction (analyzePlant s2) s2 of
                  (None, s3) \<Rightarrow> s3
                | (Some action, s3) \<Rightarrow> executeAction action s3))"

section \<open>The scheduler's step (core/loop.ts)\<close>

text \<open>
  \<open>tick\<close> runs the systems in their fixed order; \<open>stepSimulation\<close> is the manual single
  step. The animation-frame accumulator only decides how many ticks run and is not modelled.
\<close>

definition tick' :: "Sim \<Rightarrow> Sim" where
  "tick' s = incrementTick (updateAutoGrow (updateMetabolism (updateHydraulics (updateClimateSystem s))))"

definition stepSimulation :: "Sim \<Rightarrow> Sim" where
  "stepSimulation s = tick' s"

section \<open>Loops: general facts\<close>

lemma getNode_updateNode [simp]:
  "getNode (updateNode k fs s) k' = (if k' = k then map_option (\<lambda>n. objectAssign n fs) (getNode s k') else getNode s k')"
  by (simp add: updateNode_def)

lemma keys_updateNode [simp]: "map fst (nodes (updateNode k fs s)) = map fst (nodes s)"
  by (simp add: updateNode_def)

lemma frame_updateNode [simp]:
  "seedId (updateNode k fs s) = seedId s" "resources (updateNode k fs s) = resources s"
  "climate (updateNode k fs s) = climate s" "selectedNodeId (updateNode k fs s) = selectedNodeId s"
  "isPaused (updateNode k fs s) = isPaused s" "speedMultiplier (updateNode k fs s) = speedMultiplier s"
  "GameState.more (updateNode k fs s) = GameState.more s"
  by (simp_all add: updateNode_def)

lemma nodes_spawnFlowParticle [simp]:
  "nodes (spawnFlowParticle f t ty sp s) = nodes s"
  "climate (spawnFlowParticle f t ty sp s) = climate s"
  "resources (spawnFlowParticle f t ty sp s) = resources s"
  "getNode (spawnFlowParticle f t ty sp s) = getNode s"
  by (simp_all add: spawnFlowParticle_def Let_def getNode_def fun_eq_iff)

lemma nodes_spawnOnRoll [simp]:
  "nodes (spawnOnRoll c f t ty sp s) = nodes s"
  "climate (spawnOnRoll c f t ty sp s) = climate s"
  "resources (spawnOnRoll c f t ty sp s) = resources s"
  "getNode (spawnOnRoll c f t ty sp s) = getNode s"
  by (simp_all add: spawnOnRoll_def mathRandom_def Let_def getNode_def fun_eq_iff)

lemma nodes_modifyResources [simp]:
  "nodes (modifyResources a b c s) = nodes s"
  "climate (modifyResources a b c s) = climate s"
  "getNode (modifyResources a b c s) = getNode s"
  by (simp_all add: modifyResources_def Let_def getNode_def fun_eq_iff)

lemma forEachKey_Nil [simp]: "forEachKey [] body s = s"
  by (simp add: forEachKey_def)

lemma forEachKey_Cons [simp]:
  "forEachKey (k # ks) body s =
     forEachKey ks body (case getNode s k of None \<Rightarrow> s | Some node \<Rightarrow> body k node s)"
  by (simp add: forEachKey_def)

lemma forEachKey_inv:
  assumes "\<And>k n t. I t \<Longrightarrow> getNode t k = Some n \<Longrightarrow> I (body k n t)"
  shows "I s \<Longrightarrow> I (forEachKey ks body s)"
  by (induction ks arbitrary: s) (auto split: option.splits intro: assms)

text \<open>
  The keys of the table are pairwise distinct (a JavaScript object has each key once) and
  every node is stored under its own id. Both hold initially and are kept by every operation:
  no operation writes the \<open>id\<close> field, and nodes are entered under the id they carry.
\<close>

definition keysOk :: "'a GameState_scheme \<Rightarrow> bool" where
  "keysOk s \<longleftrightarrow> distinct (map fst (nodes s)) \<and> list_all (\<lambda>kn. ident (snd kn) = fst kn) (nodes s)"

lemma in_nodes_iff: "distinct (map fst (nodes s)) \<Longrightarrow> (k, n) \<in> set (nodes s) \<longleftrightarrow> getNode s k = Some n"
  by (simp add: getNode_def)

lemma keysOk_ident: "keysOk s \<Longrightarrow> getNode s k = Some n \<Longrightarrow> ident n = k"
  by (auto simp: keysOk_def list_all_iff getNode_def dest!: map_of_SomeD)

lemma keysOkI:
  "distinct (map fst (nodes s)) \<Longrightarrow> (\<And>k n. getNode s k = Some n \<Longrightarrow> ident n = k) \<Longrightarrow> keysOk s"
  by (auto simp: keysOk_def list_all_iff in_nodes_iff)

text \<open>A loop whose body rewrites only the visited node, by a fixed function.\<close>

lemma forEachKey_pointwise:
  assumes body: "\<And>k n t. P t \<Longrightarrow> getNode t k = Some n \<Longrightarrow> ident n = k \<Longrightarrow>
            P (body k n t) \<and> map fst (nodes (body k n t)) = map fst (nodes t)
            \<and> (\<forall>k'. getNode (body k n t) k' = (if k' = k then Some (g n) else getNode t k'))"
    and g: "\<And>n. ident (g n) = ident n"
  shows "P s \<Longrightarrow> keysOk s \<Longrightarrow> distinct ks \<Longrightarrow>
     P (forEachKey ks body s) \<and> map fst (nodes (forEachKey ks body s)) = map fst (nodes s)
     \<and> (\<forall>k'. getNode (forEachKey ks body s) k' =
           (if k' \<in> set ks then map_option g (getNode s k') else getNode s k'))"
proof (induction ks arbitrary: s)
  case Nil
  then show ?case by simp
next
  case (Cons k ks)
  show ?case
  proof (cases "getNode s k")
    case None
    with Cons.IH[OF Cons.prems(1,2)] Cons.prems(3) show ?thesis by auto
  next
    case (Some n)
    let ?t = "body k n s"
    have id: "ident n = k" using keysOk_ident[OF Cons.prems(2) Some] .
    from body[OF Cons.prems(1) Some id]
    have P: "P ?t" and keys: "map fst (nodes ?t) = map fst (nodes s)"
      and get: "\<And>k'. getNode ?t k' = (if k' = k then Some (g n) else getNode s k')"
      by auto
    have ok: "keysOk ?t"
    proof (rule keysOkI)
      show "distinct (map fst (nodes ?t))" using keys Cons.prems(2) by (simp add: keysOk_def)
      fix k' n' assume "getNode ?t k' = Some n'"
      then show "ident n' = k'"
        using get[of k'] g[of n] id keysOk_ident[OF Cons.prems(2), of k' n'] by (auto split: if_splits)
    qed
    have kks: "k \<notin> set ks" "distinct ks" using Cons.prems(3) by auto
    have step: "forEachKey (k # ks) body s = forEachKey ks body ?t" using Some by simp
    from Cons.IH[OF P ok kks(2)]
    have 1: "P (forEachKey ks body ?t)"
      and 2: "map fst (nodes (forEachKey ks body ?t)) = map fst (nodes ?t)"
      and 3: "\<And>k'. getNode (forEachKey ks body ?t) k' =
           (if k' \<in> set ks then map_option g (getNode ?t k') else getNode ?t k')"
      by blast+
    have "getNode (forEachKey ks body ?t) k' =
           (if k' \<in> set (k # ks) then map_option g (getNode s k') else getNode s k')" for k'
      unfolding 3[of k'] get[of k'] using kks(1) Some by (cases "k' = k") simp_all
    with 1 2 keys show ?thesis unfolding step by simp
  qed
qed

lemma forEachNode_pointwise:
  assumes body: "\<And>k n t. P t \<Longrightarrow> getNode t k = Some n \<Longrightarrow> ident n = k \<Longrightarrow>
            P (body k n t) \<and> map fst (nodes (body k n t)) = map fst (nodes t)
            \<and> (\<forall>k'. getNode (body k n t) k' = (if k' = k then Some (g n) else getNode t k'))"
    and g: "\<And>n. ident (g n) = ident n"
    and "P s" "keysOk s"
  shows "P (forEachNode body s) \<and> map fst (nodes (forEachNode body s)) = map fst (nodes s)
     \<and> (\<forall>k'. getNode (forEachNode body s) k' = map_option g (getNode s k'))"
proof -
  have d: "distinct (map fst (nodes s))" using assms(4) by (simp add: keysOk_def)
  have n: "getNode s k' = None" if "k' \<notin> set (map fst (nodes s))" for k'
    using that by (simp add: getNode_None_iff)
  from forEachKey_pointwise[of P body g, OF body g assms(3,4) d]
  have 1: "P (forEachNode body s)"
    and 2: "map fst (nodes (forEachNode body s)) = map fst (nodes s)"
    and 3: "\<And>k'. getNode (forEachNode body s) k' =
           (if k' \<in> set (map fst (nodes s)) then map_option g (getNode s k') else getNode s k')"
    unfolding forEachNode_def by blast+
  have "getNode (forEachNode body s) k' = map_option g (getNode s k')" for k'
    unfolding 3[of k'] using n[of k'] by simp
  with 1 2 show ?thesis by simp
qed


section \<open>What the per-node loops do to a node\<close>

text \<open>
  Five loops (transpiration, root uptake, photosynthesis, respiration, stress and health) read
  and write only the visited node. For each, the function below gives the node after the
  visit; the lemmas that follow prove that the loop body of the source does exactly that, and
  that the whole loop maps the function over the table.
\<close>

definition transpireNode :: "real \<Rightarrow> PlantNode \<Rightarrow> PlantNode" where
  "transpireNode transpFactor node =
     (if isActive node \<and> (ntype node = LEAF \<or> length (childrenIds node) = 0)
         \<and> waterPressure node > 0.15
         \<and> min (TRANSPIRATION_RATE * transpFactor * radius node) (waterPressure node - 0.12) > 0
      then node\<lparr>waterPressure := max 0.12 (waterPressure node
               - min (TRANSPIRATION_RATE * transpFactor * radius node) (waterPressure node - 0.12))\<rparr>
      else node)"

definition soilWaterAt :: "ClimateState \<Rightarrow> real \<Rightarrow> real" where
  "soilWaterAt cl depth = min 1.0 (soilWater cl + min 1 (depth / 2) * 0.3)"

definition uptakeOf :: "ClimateState \<Rightarrow> PlantNode \<Rightarrow> real" where
  "uptakeOf cl node = ROOT_UPTAKE_RATE * radius node
       * max 0.1 (soilWaterAt cl \<bar>vy (position node)\<bar> - waterPressure node)"

definition uptakeNode :: "ClimateState \<Rightarrow> PlantNode \<Rightarrow> PlantNode" where
  "uptakeNode cl node =
     (if ntype node = ROOT \<and> isActive node \<and> soilWaterAt cl \<bar>vy (position node)\<bar> > 0.1
         \<and> waterPressure node < 0.95 \<and> uptakeOf cl node > 0.001
      then node\<lparr>waterPressure := min 1.0 (waterPressure node + uptakeOf cl node)\<rparr>
      else node)"

definition sugarProducedBy :: "ClimateState \<Rightarrow> PlantNode \<Rightarrow> real" where
  "sugarProducedBy cl node = PHOTOSYNTHESIS_RATE * (0.15 + sunIntensity cl * 0.85)
       * min 1 (waterPressure node / 0.5) * (radius node * 10)"

definition photosynthNode :: "ClimateState \<Rightarrow> PlantNode \<Rightarrow> PlantNode" where
  "photosynthNode cl node =
     (if isActive node \<and> \<not> (ntype node \<noteq> LEAF \<and> length (childrenIds node) > 0)
         \<and> \<not> waterPressure node < MIN_WATER_FOR_PHOTOSYNTHESIS \<and> sugarProducedBy cl node > 0
      then node\<lparr> waterPressure := max 0 (waterPressure node - sugarProducedBy cl node * WATER_PER_SUGAR * 0.1),
                 sugarStore := sugarStore node + sugarProducedBy cl node,
                 sugarConcentration := min 1.0 (sugarConcentration node + sugarProducedBy cl node * 0.1) \<rparr>
      else node)"

definition respirationCostOf :: "PlantNode \<Rightarrow> real" where
  "respirationCostOf node = NODE_RESPIRATION_COST * (1 + radius node * 5)"

definition respireNode :: "PlantNode \<Rightarrow> PlantNode" where
  "respireNode node =
     (if \<not> isActive node then node
      else if sugarStore node \<ge> respirationCostOf node
      then node\<lparr> sugarStore := sugarStore node - respirationCostOf node,
                 sugarConcentration := max 0 (sugarConcentration node - respirationCostOf node * 0.05) \<rparr>
      else node\<lparr> sugarStore := 0,
                 sugarConcentration := max 0 (sugarConcentration node - 0.01),
                 stressLevel := min 1 (stressLevel node
                     + (respirationCostOf node - sugarStore node) * STARVATION_STRESS_RATE) \<rparr>)"

definition newStressOf :: "PlantNode \<Rightarrow> real" where
  "newStressOf node =
     max 0 (min 1 (stressLevel node +
       (if waterPressure node > 0.15 \<and> sugarStore node > 0.02
        then (if waterPressure node < 0.08
              then 0 + DEHYDRATION_STRESS_RATE * (0.08 - waterPressure node) else 0) - HEALTH_RECOVERY_RATE
        else if waterPressure node > 0.1
        then (if waterPressure node < 0.08
              then 0 + DEHYDRATION_STRESS_RATE * (0.08 - waterPressure node) else 0) - HEALTH_RECOVERY_RATE * 0.5
        else (if waterPressure node < 0.08
              then 0 + DEHYDRATION_STRESS_RATE * (0.08 - waterPressure node) else 0))))"

definition stressHealthNode :: "PlantNode \<Rightarrow> PlantNode" where
  "stressHealthNode node =
     (if \<not> isActive node then node
      else if newStressOf node \<ge> STRESS_DEATH_THRESHOLD
      then node\<lparr> stressLevel := 1, structuralHealth := 0, isActive := False \<rparr>
      else node\<lparr> stressLevel := newStressOf node,
                 structuralHealth := max 0 (min 1 (structuralHealth node
                     + ((1 - newStressOf node * 0.8) - structuralHealth node) * 0.1)) \<rparr>)"

lemma live_updateNode [simp]:
  "getNode s k = Some n \<Longrightarrow> live (updateNode k fs s) k n' = objectAssign n fs"
  by (simp add: live_def)

lemma transpirationBody_node:
  assumes "getNode s k = Some n" "ident n = k"
  shows "getNode (transpirationBody tf k n s) k' = (if k' = k then Some (transpireNode tf n) else getNode s k')"
  using assms
  apply (simp only: transpirationBody_def transpireNode_def Let_def)
  apply (simp add: objectAssign_def split: option.splits del: min_less_iff_conj)
  done

lemma rootUptakeBody_node:
  assumes "getNode s k = Some n" "ident n = k" "ntype n = ROOT"
  shows "getNode (rootUptakeBody k n s) k' = (if k' = k then Some (uptakeNode (climate s) n) else getNode s k')"
  using assms
  apply (simp only: rootUptakeBody_def getSoilWaterAtDepth_def Let_def)
  apply (simp only: flip: soilWaterAt_def)
  apply (simp only: flip: uptakeOf_def)
  apply (simp add: uptakeNode_def objectAssign_def split: option.splits)
  done

lemma photosynthesisBody_node:
  assumes "getNode s k = Some n" "ident n = k"
  shows "getNode (photosynthesisBody k n s) k' = (if k' = k then Some (photosynthNode (climate s) n) else getNode s k')"
  using assms
  apply (simp only: photosynthesisBody_def Let_def)
  apply (simp only: flip: sugarProducedBy_def)
  apply (simp add: photosynthNode_def objectAssign_def split: option.splits)
  done

lemma respirationBody_node:
  assumes "getNode s k = Some n" "ident n = k"
  shows "getNode (respirationBody k n s) k' = (if k' = k then Some (respireNode n) else getNode s k')"
  using assms
  apply (simp only: respirationBody_def Let_def)
  apply (simp only: flip: respirationCostOf_def)
  apply (simp add: respireNode_def objectAssign_def split: option.splits)
  done

lemma stressHealthBody_node:
  assumes "getNode s k = Some n" "ident n = k"
  shows "getNode (stressHealthBody k n s) k' = (if k' = k then Some (stressHealthNode n) else getNode s k')"
  using assms
  apply (simp only: stressHealthBody_def Let_def)
  apply (simp only: flip: newStressOf_def)
  apply (simp add: stressHealthNode_def objectAssign_def split: option.splits)
  done


lemmas frame_prims =
  keys_updateNode frame_updateNode nodes_spawnOnRoll nodes_modifyResources

lemma keys_bodies [simp]:
  "map fst (nodes (transpirationBody tf k n s)) = map fst (nodes s)"
  "map fst (nodes (rootUptakeBody k n s)) = map fst (nodes s)"
  "map fst (nodes (photosynthesisBody k n s)) = map fst (nodes s)"
  "map fst (nodes (respirationBody k n s)) = map fst (nodes s)"
  "map fst (nodes (stressHealthBody k n s)) = map fst (nodes s)"
  by (simp_all only: transpirationBody_def rootUptakeBody_def photosynthesisBody_def
      respirationBody_def stressHealthBody_def Let_def frame_prims simp_thms
      split: if_split option.split)

lemma climate_bodies [simp]:
  "climate (transpirationBody tf k n s) = climate s"
  "climate (rootUptakeBody k n s) = climate s"
  "climate (photosynthesisBody k n s) = climate s"
  "climate (respirationBody k n s) = climate s"
  "climate (stressHealthBody k n s) = climate s"
  by (simp_all only: transpirationBody_def rootUptakeBody_def photosynthesisBody_def
      respirationBody_def stressHealthBody_def Let_def frame_prims simp_thms
      split: if_split option.split)

lemma ident_nodeFuns [simp]:
  "ident (transpireNode tf n) = ident n" "ident (uptakeNode cl n) = ident n"
  "ident (photosynthNode cl n) = ident n" "ident (respireNode n) = ident n"
  "ident (stressHealthNode n) = ident n"
  by (simp_all add: transpireNode_def uptakeNode_def photosynthNode_def respireNode_def
      stressHealthNode_def)

lemma keysOk_pointwise:
  assumes "keysOk s" "map fst (nodes s') = map fst (nodes s)"
    and "\<And>k. getNode s' k = map_option g (getNode s k)" and "\<And>n. ident (g n) = ident n"
  shows "keysOk s'"
proof (rule keysOkI)
  show "distinct (map fst (nodes s'))" using assms(1,2) by (simp add: keysOk_def)
  fix k n assume "getNode s' k = Some n"
  then obtain m where "getNode s k = Some m" "n = g m" using assms(3)[of k] by auto
  then show "ident n = k" using keysOk_ident[OF assms(1)] assms(4) by auto
qed

lemma processTranspiration_pointwise:
  assumes "keysOk s"
  shows "climate (processTranspiration s) = climate s
       \<and> map fst (nodes (processTranspiration s)) = map fst (nodes s)
       \<and> (\<forall>k. getNode (processTranspiration s) k = map_option
            (transpireNode (0.2 + sunIntensity (climate s) * (1 + temperature (climate s) / 40) * 0.8))
            (getNode s k))"
  unfolding processTranspiration_def Let_def
  by (rule forEachNode_pointwise[where P = "\<lambda>t. climate t = climate s"])
     (simp_all add: transpirationBody_node assms)

lemma processPhotosynthesis_pointwise:
  assumes "keysOk s"
  shows "climate (processPhotosynthesis s) = climate s
       \<and> map fst (nodes (processPhotosynthesis s)) = map fst (nodes s)
       \<and> (\<forall>k. getNode (processPhotosynthesis s) k = map_option (photosynthNode (climate s)) (getNode s k))"
  unfolding processPhotosynthesis_def
  by (rule forEachNode_pointwise[where P = "\<lambda>t. climate t = climate s"])
     (simp_all add: photosynthesisBody_node assms)

lemma processRespiration_pointwise:
  assumes "keysOk s"
  shows "climate (processRespiration s) = climate s
       \<and> map fst (nodes (processRespiration s)) = map fst (nodes s)
       \<and> (\<forall>k. getNode (processRespiration s) k = map_option respireNode (getNode s k))"
  unfolding processRespiration_def
  by (rule forEachNode_pointwise[where P = "\<lambda>t. climate t = climate s"])
     (simp_all add: respirationBody_node assms)

lemma processStressAndHealth_pointwise:
  assumes "keysOk s"
  shows "climate (processStressAndHealth s) = climate s
       \<and> map fst (nodes (processStressAndHealth s)) = map fst (nodes s)
       \<and> (\<forall>k. getNode (processStressAndHealth s) k = map_option stressHealthNode (getNode s k))"
  unfolding processStressAndHealth_def
  by (rule forEachNode_pointwise[where P = "\<lambda>t. climate t = climate s"])
     (simp_all add: stressHealthBody_node assms)

lemma getNodesByType_iff:
  assumes "distinct (map fst (nodes s))"
  shows "k \<in> set (getNodesByType s t) \<longleftrightarrow> (\<exists>n. getNode s k = Some n \<and> ntype n = t)"
  using assms by (force simp: getNodesByType_def in_nodes_iff[symmetric])

lemma distinct_getNodesByType: "distinct (map fst (nodes s)) \<Longrightarrow> distinct (getNodesByType s t)"
  by (simp add: getNodesByType_def distinct_map_filter)

lemma processRootUptake_pointwise:
  assumes "keysOk s"
  shows "climate (processRootUptake s) = climate s
       \<and> map fst (nodes (processRootUptake s)) = map fst (nodes s)
       \<and> (\<forall>k. getNode (processRootUptake s) k = map_option (uptakeNode (climate s)) (getNode s k))"
proof -
  have d: "distinct (map fst (nodes s))" using assms by (simp add: keysOk_def)
  let ?body = "\<lambda>k n t. if ntype n = ROOT then rootUptakeBody k n t else t"
  let ?g = "\<lambda>n. if ntype n = ROOT then uptakeNode (climate s) n else n"
  have ty: "ntype (uptakeNode cl n) = ntype n" for cl n by (simp add: uptakeNode_def)
  have gen: "keysOk t \<Longrightarrow> climate t = climate s \<Longrightarrow> distinct ks \<Longrightarrow>
       (\<forall>k\<in>set ks. \<forall>n. getNode t k = Some n \<longrightarrow> ntype n = ROOT) \<Longrightarrow>
       climate (forEachKey ks rootUptakeBody t) = climate s
       \<and> map fst (nodes (forEachKey ks rootUptakeBody t)) = map fst (nodes t)
       \<and> (\<forall>k'. getNode (forEachKey ks rootUptakeBody t) k' =
             (if k' \<in> set ks then map_option (uptakeNode (climate s)) (getNode t k') else getNode t k'))"
    for ks t
  proof (induction ks arbitrary: t)
    case Nil
    then show ?case by simp
  next
    case (Cons k ks)
    show ?case
    proof (cases "getNode t k")
      case None
      with Cons.IH[OF Cons.prems(1,2)] Cons.prems(3,4) show ?thesis by auto
    next
      case (Some n)
      let ?t = "rootUptakeBody k n t"
      have id: "ident n = k" using keysOk_ident[OF Cons.prems(1) Some] .
      have rt: "ntype n = ROOT" using Cons.prems(4) Some by simp
      have get: "getNode ?t k' = (if k' = k then Some (uptakeNode (climate s) n) else getNode t k')" for k'
        using rootUptakeBody_node[OF Some id rt] Cons.prems(2) by simp
      have ok: "keysOk ?t"
      proof (rule keysOkI)
        show "distinct (map fst (nodes ?t))" using Cons.prems(1) by (simp add: keysOk_def)
        fix k' n' assume "getNode ?t k' = Some n'"
        then show "ident n' = k'"
          using get[of k'] id keysOk_ident[OF Cons.prems(1), of k' n'] by (auto split: if_splits)
      qed
      have kks: "k \<notin> set ks" "distinct ks" using Cons.prems(3) by auto
      have ty': "\<forall>k\<in>set ks. \<forall>n. getNode ?t k = Some n \<longrightarrow> ntype n = ROOT"
        using Cons.prems(4) kks(1) by (auto simp: get)
      have cl: "climate ?t = climate s" using Cons.prems(2) by simp
      have step: "forEachKey (k # ks) rootUptakeBody t = forEachKey ks rootUptakeBody ?t"
        using Some by simp
      from Cons.IH[OF ok cl kks(2) ty']
      have 1: "climate (forEachKey ks rootUptakeBody ?t) = climate s"
        and 2: "map fst (nodes (forEachKey ks rootUptakeBody ?t)) = map fst (nodes ?t)"
        and 3: "\<And>k'. getNode (forEachKey ks rootUptakeBody ?t) k' =
             (if k' \<in> set ks then map_option (uptakeNode (climate s)) (getNode ?t k') else getNode ?t k')"
        by blast+
      have "getNode (forEachKey ks rootUptakeBody ?t) k' =
             (if k' \<in> set (k # ks) then map_option (uptakeNode (climate s)) (getNode t k') else getNode t k')" for k'
        unfolding 3[of k'] get[of k'] using kks(1) Some by (cases "k' = k") simp_all
      with 1 2 show ?thesis unfolding step by simp
    qed
  qed
  have roots: "\<forall>k\<in>set (getNodesByType s ROOT). \<forall>n. getNode s k = Some n \<longrightarrow> ntype n = ROOT"
    using getNodesByType_iff[OF d] by auto
  from gen[OF assms refl distinct_getNodesByType[OF d] roots]
  have 1: "climate (processRootUptake s) = climate s"
    and 2: "map fst (nodes (processRootUptake s)) = map fst (nodes s)"
    and 3: "\<And>k'. getNode (processRootUptake s) k' =
             (if k' \<in> set (getNodesByType s ROOT) then map_option (uptakeNode (climate s)) (getNode s k') else getNode s k')"
    unfolding processRootUptake_def by blast+
  have "getNode (processRootUptake s) k = map_option (uptakeNode (climate s)) (getNode s k)" for k
  proof (cases "k \<in> set (getNodesByType s ROOT)")
    case True
    then show ?thesis by (simp add: 3)
  next
    case False
    then have "\<And>n. getNode s k = Some n \<Longrightarrow> ntype n \<noteq> ROOT"
      using getNodesByType_iff[OF d, of k ROOT] by auto
    then have "map_option (uptakeNode (climate s)) (getNode s k) = getNode s k"
      by (cases "getNode s k") (simp_all add: uptakeNode_def)
    with False show ?thesis by (simp add: 3)
  qed
  with 1 2 show ?thesis by simp
qed


section \<open>Starvation\<close>

text \<open>
  The stress, the structural health and the activity flag of a segment are written only by
  the respiration loop and by the stress-and-health loop, which run one after the other in
  every tick. \<open>starvedRun env j n\<close> is the segment \<open>n\<close> after \<open>j\<close> ticks, where \<open>env j\<close> maps the
  segment after tick \<open>j\<close> to the segment as respiration finds it in the next tick (whatever
  else happened to it in between).
\<close>

fun starvedRun :: "(nat \<Rightarrow> PlantNode \<Rightarrow> PlantNode) \<Rightarrow> nat \<Rightarrow> PlantNode \<Rightarrow> PlantNode" where
  "starvedRun env 0 n = n"
| "starvedRun env (Suc j) n = stressHealthNode (respireNode (env j (starvedRun env j n)))"

definition isDead :: "PlantNode \<Rightarrow> bool" where
  "isDead n \<longleftrightarrow> \<not> isActive n \<and> structuralHealth n = 0 \<and> stressLevel n = 1"

text \<open>
  Claim C5. The header of the metabolism module says that starving nodes accumulate stress and
  eventually die, and the starving branch of respiration adds stress for the deficit. The
  code does not get there: with water pressure above 0.1 the partial recovery of the
  stress-and-health step (0.01 per tick) outweighs the starvation stress of the respiration
  step (0.000011 per tick at radius 0.02). A trunk with an empty sugar buffer, water pressure
  0.5 and stress 0 comes out of respiration followed by stress-and-health exactly as it went
  in, tick after tick, so it never reaches the death threshold however long its buffer is
  held at 0.
\<close>

definition wateredNode :: PlantNode where
  "wateredNode = (exampleNode 2 TRUNK (Some 1) [3, 4])\<lparr>sugarConcentration := 0\<rparr>"

definition wateredStore :: Sim where
  "wateredStore = exampleStore\<lparr>nodes := [(2, wateredNode)]\<rparr>"

lemma wateredNode_fixed: "stressHealthNode (respireNode wateredNode) = wateredNode"
  by (simp add: wateredNode_def exampleNode_def respireNode_def stressHealthNode_def newStressOf_def
      respirationCostOf_def CONFIG)

lemma wateredNode_forever: "starvedRun (\<lambda>j n. n) j wateredNode = wateredNode"
  by (induction j) (simp_all add: wateredNode_fixed)

theorem starvation_counterexample:
  "sugarStore wateredNode = 0 \<and> waterPressure wateredNode = 0.5 \<and> isActive wateredNode
   \<and> stressLevel wateredNode < STRESS_DEATH_THRESHOLD
   \<and> nodes wateredStore = [(2, wateredNode)]
   \<and> nodes (processStressAndHealth (processRespiration wateredStore)) = nodes wateredStore
   \<and> (\<forall>j. starvedRun (\<lambda>j n. n) j wateredNode = wateredNode)"
proof -
  have n: "sugarStore wateredNode = 0 \<and> waterPressure wateredNode = 0.5 \<and> isActive wateredNode
     \<and> stressLevel wateredNode < STRESS_DEATH_THRESHOLD \<and> ident wateredNode = 2
     \<and> radius wateredNode = 0.02 \<and> sugarConcentration wateredNode = 0
     \<and> structuralHealth wateredNode = 1 \<and> stressLevel wateredNode = 0 \<and> ntype wateredNode = TRUNK"
    by (simp add: wateredNode_def exampleNode_def STRESS_DEATH_THRESHOLD_def)
  have s: "nodes wateredStore = [(2, wateredNode)]" by (simp add: wateredStore_def)
  have r: "nodes (processRespiration wateredStore) = [(2, wateredNode\<lparr>stressLevel := 0.000011\<rparr>)]"
    using n
    apply (simp add: processRespiration_def forEachNode_def s getNode_def)
    apply (simp add: respirationBody_def Let_def NODE_RESPIRATION_COST_def STARVATION_STRESS_RATE_def
        updateNode_def modifyNode_def putNode_def getNode_def s objectAssign_def live_def)
    done
  have "nodes (processStressAndHealth (processRespiration wateredStore)) = [(2, wateredNode)]"
    using n
    apply (simp add: processStressAndHealth_def forEachNode_def r getNode_def)
    apply (simp add: stressHealthBody_def Let_def CONFIG
        updateNode_def modifyNode_def putNode_def getNode_def r objectAssign_def)
    done
  with n s wateredNode_forever show ?thesis by simp
qed


section \<open>Ranges and dead segments: invariants of the systems\<close>

text \<open>
  \<open>nodeOk\<close>: the ranges of a segment. \<open>vitalsOk\<close>: an inactive segment has structural health
  0 and stress 1. \<open>(nodeFull rg vt)\<close> is both. \<open>(nodeMid rg vt)\<close> is what holds between the phloem step and
  the respiration step of a tick: the phloem step subtracts from the concentration of the
  sending segment without clamping at 0, so for an active segment the lower bound of the
  concentration is dropped until respiration clamps it again; an inactive segment is never
  written by a system and keeps \<open>(nodeFull rg vt)\<close>.
\<close>

definition nodeOk :: "PlantNode \<Rightarrow> bool" where
  "nodeOk n \<longleftrightarrow> 0 \<le> waterPressure n \<and> waterPressure n \<le> 1
     \<and> 0 \<le> sugarConcentration n \<and> sugarConcentration n \<le> 1
     \<and> 0 \<le> structuralHealth n \<and> structuralHealth n \<le> 1
     \<and> 0 \<le> stressLevel n \<and> stressLevel n \<le> 1
     \<and> 0 < radius n"

definition vitalsOk :: "PlantNode \<Rightarrow> bool" where
  "vitalsOk n \<longleftrightarrow> isActive n \<or> (structuralHealth n = 0 \<and> stressLevel n = 1)"

definition nodeFull :: "bool \<Rightarrow> bool \<Rightarrow> PlantNode \<Rightarrow> bool" where
  "nodeFull rg vt n \<longleftrightarrow> (rg \<longrightarrow> nodeOk n) \<and> (vt \<longrightarrow> vitalsOk n)"

definition nodeMid :: "bool \<Rightarrow> bool \<Rightarrow> PlantNode \<Rightarrow> bool" where
  "nodeMid rg vt n \<longleftrightarrow>
     (if isActive n
      then (rg \<longrightarrow> nodeOk (n\<lparr>sugarConcentration := min 1 (max 0 (sugarConcentration n))\<rparr>)
                   \<and> sugarConcentration n \<le> 1)
      else nodeFull rg vt n)"

definition allNodes :: "(PlantNode \<Rightarrow> bool) \<Rightarrow> 'a GameState_scheme \<Rightarrow> bool" where
  "allNodes Q s = list_all (\<lambda>kn. Q (snd kn)) (nodes s)"

text \<open>
  The invariant of the loops of a tick, relative to the state \<open>s0\<close> at the start of the tick:
  the keys and the id counter are those of \<open>s0\<close>, every node satisfies \<open>Q\<close>, and every node
  that was inactive in \<open>s0\<close> is still there, unchanged.
\<close>

definition loopInv :: "(PlantNode \<Rightarrow> bool) \<Rightarrow> Sim \<Rightarrow> Sim \<Rightarrow> bool" where
  "loopInv Q s0 t \<longleftrightarrow> keysOk t \<and> map fst (nodes t) = map fst (nodes s0) \<and> nextId t = nextId s0
     \<and> allNodes Q t
     \<and> (\<forall>k n. getNode s0 k = Some n \<longrightarrow> \<not> isActive n \<longrightarrow> getNode t k = Some n)"

lemma allNodes_iff:
  "distinct (map fst (nodes s)) \<Longrightarrow> allNodes Q s \<longleftrightarrow> (\<forall>k n. getNode s k = Some n \<longrightarrow> Q n)"
  by (auto simp: allNodes_def list_all_iff in_nodes_iff[symmetric])

lemma allNodesD: "allNodes Q s \<Longrightarrow> getNode s k = Some n \<Longrightarrow> Q n"
  by (auto simp: allNodes_def list_all_iff getNode_def dest!: map_of_SomeD)

lemma loopInv_refl: "keysOk s \<Longrightarrow> allNodes Q s \<Longrightarrow> loopInv Q s s"
  by (simp add: loopInv_def)

lemma loopInv_cong:
  assumes "loopInv Q s0 t" "nodes t' = nodes t" "nextId t' = nextId t"
  shows "loopInv Q s0 t'"
proof -
  have "keysOk t' = keysOk t" "allNodes Q t' = allNodes Q t" "getNode t' = getNode t"
    using assms(2) by (simp_all add: keysOk_def allNodes_def getNode_def fun_eq_iff)
  then show ?thesis using assms unfolding loopInv_def by simp
qed

lemma loopInv_weaken: "loopInv Q s0 t \<Longrightarrow> (\<And>n. Q n \<Longrightarrow> Q' n) \<Longrightarrow> loopInv Q' s0 t"
  by (auto simp: loopInv_def allNodes_def list_all_iff)

lemma loopInv_trans: "loopInv Q s0 s1 \<Longrightarrow> loopInv Q' s1 s2 \<Longrightarrow> loopInv Q' s0 s2"
  by (auto simp: loopInv_def)

lemma loopInv_get:
  assumes "loopInv Q s0 t" "getNode t k = Some n"
  shows "Q n" "ident n = k"
  using assms allNodesD[of Q t k n] keysOk_ident[of t k n] by (auto simp: loopInv_def)

lemma nextId_modifyNode [simp]: "nextId (modifyNode k f s) = nextId s"
  by (simp add: modifyNode_def putNode_def split: option.splits)

lemma nextId_updateNode [simp]: "nextId (updateNode k fs s) = nextId s"
  by (simp add: updateNode_def)

lemma loopInv_modify:
  assumes inv: "loopInv Q s0 t" and n: "getNode t k = Some n" and act: "isActive n"
    and q: "Q (f n)" and i: "ident (f n) = ident n"
  shows "loopInv Q s0 (modifyNode k f t)"
proof -
  have ok: "keysOk t" and keys: "map fst (nodes t) = map fst (nodes s0)"
    and all: "allNodes Q t" using inv by (simp_all add: loopInv_def)
  have d: "distinct (map fst (nodes t))" using ok by (simp add: keysOk_def)
  have ok': "keysOk (modifyNode k f t)"
  proof (rule keysOkI)
    show "distinct (map fst (nodes (modifyNode k f t)))" using d by simp
    fix k' n' assume "getNode (modifyNode k f t) k' = Some n'"
    then show "ident n' = k'"
      using n i keysOk_ident[OF ok, of k'] by (auto split: if_splits)
  qed
  have all': "allNodes Q (modifyNode k f t)"
    unfolding allNodes_iff[OF keysOk_def[THEN iffD1, OF ok', THEN conjunct1]]
    using n q allNodesD[OF all] by (auto split: if_splits)
  have dead: "\<forall>k' m. getNode s0 k' = Some m \<longrightarrow> \<not> isActive m \<longrightarrow> getNode (modifyNode k f t) k' = Some m"
    using inv n act by (auto simp: loopInv_def)
  show ?thesis using ok' keys all' dead inv by (simp add: loopInv_def)
qed

lemma loopInv_update:
  assumes "loopInv Q s0 t" "getNode t k = Some n" "isActive n"
    "Q (objectAssign n fs)" "ident (objectAssign n fs) = ident n"
  shows "loopInv Q s0 (updateNode k fs t)"
  unfolding updateNode_def using assms by (rule loopInv_modify)

lemma nextId_prims [simp]:
  "nextId (spawnFlowParticle f t ty sp s) = nextId s"
  "nextId (spawnOnRoll c f t ty sp s) = nextId s"
  "nextId (modifyResources a b d s) = nextId s"
  by (simp_all add: spawnOnRoll_def mathRandom_def spawnFlowParticle_def modifyResources_def Let_def)

lemma loopInv_spawnOnRoll [simp]:
  "loopInv Q s0 (spawnOnRoll c f t ty sp s) = loopInv Q s0 s"
  by (simp add: loopInv_def keysOk_def allNodes_def)

lemma loopInv_modifyResources [simp]:
  "loopInv Q s0 (modifyResources a b c s) = loopInv Q s0 s"
  by (simp add: loopInv_def keysOk_def allNodes_def)


lemma assign_pressure [simp]:
  "ident (objectAssign n [F_waterPressure p]) = ident n"
  "isActive (objectAssign n [F_waterPressure p]) = isActive n"
  "waterPressure (objectAssign n [F_waterPressure p]) = p"
  by (simp_all add: objectAssign_def)

lemma nodeFull_pressure:
  "(nodeFull rg vt) n \<Longrightarrow> (rg \<Longrightarrow> 0 \<le> p) \<Longrightarrow> (rg \<Longrightarrow> p \<le> 1) \<Longrightarrow> (nodeFull rg vt) (objectAssign n [F_waterPressure p])"
  by (simp add: nodeFull_def nodeOk_def vitalsOk_def objectAssign_def)

lemma nodeFullD:
  "(nodeFull rg vt) n \<Longrightarrow> rg \<Longrightarrow> 0 \<le> waterPressure n \<and> waterPressure n \<le> 1 \<and> 0 < radius n"
  by (simp add: nodeFull_def nodeOk_def)

lemma xylem_flow_bounds:
  fixes pp pn rn rp :: real
  assumes "0 \<le> pp" "pp \<le> 1" "0 < rn" "0 < rp" "pp - pn > FLOW_THRESHOLD"
  defines "af \<equiv> min (WATER_FLOW_RATE * (pp - pn) * min rn rp) (pp * 0.5)"
  shows "0 \<le> af" "0 \<le> pp - af" "pp - af \<le> 1"
proof -
  have "0 < WATER_FLOW_RATE * (pp - pn) * min rn rp"
    using assms(3,4,5) by (simp add: WATER_FLOW_RATE_def FLOW_THRESHOLD_def)
  then show "0 \<le> af" using assms(1) by (simp add: af_def)
  then show "pp - af \<le> 1" using assms(2) by simp
  have "af \<le> pp * 0.5" by (simp add: af_def)
  then show "0 \<le> pp - af" using assms(1) by linarith
qed

lemma xylemBody_inv:
  assumes inv: "loopInv (nodeFull rg vt) s0 t" and n: "getNode t k = Some node"
  shows "loopInv (nodeFull rg vt) s0 (xylemBody k node t)"
proof (cases "isActive node")
  case False
  then show ?thesis using inv by (simp add: xylemBody_def)
next
  case act: True
  show ?thesis
  proof (cases "parentId node")
    case None
    then show ?thesis using inv by (simp add: xylemBody_def)
  next
    case (Some pk)
    show ?thesis
    proof (cases "getNode t pk")
      case None
      then show ?thesis using inv Some by (simp add: xylemBody_def)
    next
      case par: (Some parent)
      show ?thesis
      proof (cases "isActive parent")
        case False
        then show ?thesis using inv Some par by (simp add: xylemBody_def)
      next
        case pact: True
        have qn: "(nodeFull rg vt) node" and idn: "ident node = k" using loopInv_get[OF inv n] by auto
        have qp: "(nodeFull rg vt) parent" and idp: "ident parent = pk" using loopInv_get[OF inv par] by auto
        define af where "af = min (WATER_FLOW_RATE * (waterPressure parent - waterPressure node)
             * min (radius node) (radius parent)) (waterPressure parent * 0.5)"
        define sa where "sa = updateNode (ident parent) [F_waterPressure (waterPressure parent - af)] t"
        define node' where "node' = live sa k node"
        define sb where "sb = updateNode (ident node') [F_waterPressure (min 1.0 (waterPressure node' + af * 0.95))] sa"
        define s1 where "s1 = (if waterPressure parent - waterPressure node > FLOW_THRESHOLD
           then (if af > 0.0005 then spawnOnRoll 0.3 (ident parent) (ident node) xylem (af * 15) sb else sb)
           else t)"
        have body: "xylemBody k node t =
           (if waterPressure (live s1 pk parent) > 0.1 \<or> waterPressure (live s1 k node) > 0.1
            then spawnOnRoll 0.02 (ident (live s1 pk parent)) (ident (live s1 k node)) xylem 0.8 s1
            else s1)"
          unfolding xylemBody_def Let_def s1_def sb_def node'_def sa_def af_def
          by (simp only: act Some par pact simp_thms if_True if_False option.case)
        have "loopInv (nodeFull rg vt) s0 s1"
        proof (cases "waterPressure parent - waterPressure node > FLOW_THRESHOLD")
          case False
          then show ?thesis using inv by (simp add: s1_def)
        next
          case True
          note b = xylem_flow_bounds[OF _ _ _ _ True, of "radius node" "radius parent", folded af_def]
          have af: "0 \<le> af" "0 \<le> waterPressure parent - af" "waterPressure parent - af \<le> 1" if rg
            using b nodeFullD[OF qn that] nodeFullD[OF qp that] by auto
          have isa: "loopInv (nodeFull rg vt) s0 sa"
            unfolding sa_def idp
            by (rule loopInv_update[OF inv par pact]) (simp_all add: nodeFull_pressure[OF qp af(2,3)])
          have gk: "getNode sa k = Some node'"
            using n par by (auto simp: node'_def sa_def idp live_def)
          have act': "isActive node'"
            using n par act pact by (auto simp: node'_def sa_def idp live_def)
          have qn': "(nodeFull rg vt) node'" and idn': "ident node' = k" using loopInv_get[OF isa gk] by auto
          have "loopInv (nodeFull rg vt) s0 sb"
            unfolding sb_def idn'
          proof (rule loopInv_update[OF isa gk act'])
            have "0 \<le> min 1.0 (waterPressure node' + af * 0.95)" if rg
              using af(1)[OF that] nodeFullD[OF qn' that] by simp
            then show "(nodeFull rg vt) (objectAssign node' [F_waterPressure (min 1.0 (waterPressure node' + af * 0.95))])"
              by (intro nodeFull_pressure[OF qn']) simp_all
          qed simp
          then show ?thesis using True by (simp add: s1_def)
        qed
        then show ?thesis unfolding body by simp
      qed
    qed
  qed
qed

lemma processXylemFlow_inv:
  assumes "loopInv (nodeFull rg vt) s0 s"
  shows "loopInv (nodeFull rg vt) s0 (processXylemFlow s)"
  unfolding processXylemFlow_def forEachNode_def
  by (rule forEachKey_inv[where I = "loopInv (nodeFull rg vt) s0"]) (auto intro: xylemBody_inv assms)


lemma nodeFull_imp_nodeMid: "(nodeFull rg vt) n \<Longrightarrow> (nodeMid rg vt) n"
  by (auto simp: nodeMid_def nodeFull_def nodeOk_def)

lemma nodeMidD: "(nodeMid rg vt) n \<Longrightarrow> rg \<Longrightarrow> sugarConcentration n \<le> 1 \<and> 0 < radius n"
  by (auto simp: nodeMid_def nodeFull_def nodeOk_def split: if_splits)

lemma nodeMid_sugar:
  assumes "(nodeMid rg vt) n" "isActive n" "rg \<Longrightarrow> c \<le> 1"
  shows "(nodeMid rg vt) (objectAssign n [F_sugarConcentration c, F_sugarStore st])"
    "(nodeMid rg vt) (objectAssign n [F_sugarConcentration c])"
  using assms by (auto simp: nodeMid_def nodeOk_def objectAssign_def)

lemma assign_sugar [simp]:
  "ident (objectAssign n [F_sugarConcentration c, F_sugarStore st]) = ident n"
  "isActive (objectAssign n [F_sugarConcentration c, F_sugarStore st]) = isActive n"
  "ident (objectAssign n [F_sugarConcentration c]) = ident n"
  "isActive (objectAssign n [F_sugarConcentration c]) = isActive n"
  by (simp_all add: objectAssign_def)

definition activeAt :: "Sim \<Rightarrow> NodeId \<Rightarrow> bool" where
  "activeAt t k \<longleftrightarrow> (\<exists>n. getNode t k = Some n \<and> isActive n)"

lemma phloem_write_gen:
  assumes inv: "loopInv (nodeMid rg vt) s0 t" and x: "getNode t x = Some n" and act: "isActive n"
    and c: "rg \<Longrightarrow> c \<le> 1" and fs: "fs = [F_sugarConcentration c, F_sugarStore st] \<or> fs = [F_sugarConcentration c]"
  shows "loopInv (nodeMid rg vt) s0 (updateNode (ident n) fs t)
       \<and> (\<forall>y. activeAt (updateNode (ident n) fs t) y = activeAt t y)"
proof -
  have id: "ident n = x" using loopInv_get[OF inv x] by simp
  have q: "(nodeMid rg vt) n" using loopInv_get[OF inv x] by simp
  have q': "(nodeMid rg vt) (objectAssign n fs)" "ident (objectAssign n fs) = ident n"
      "isActive (objectAssign n fs) = isActive n"
    using fs nodeMid_sugar[OF q act c] by auto
  have "loopInv (nodeMid rg vt) s0 (updateNode (ident n) fs t)"
    unfolding id by (rule loopInv_update[OF inv x act q'(1,2)])
  moreover have "activeAt (updateNode (ident n) fs t) y = activeAt t y" for y
    using x q'(3) by (auto simp: activeAt_def id)
  ultimately show ?thesis by simp
qed

lemma phloem_write2:
  assumes "loopInv (nodeMid rg vt) s0 t" "getNode t x = Some n" "isActive n" "rg \<Longrightarrow> c \<le> 1"
  shows "loopInv (nodeMid rg vt) s0 (updateNode (ident n) [F_sugarConcentration c, F_sugarStore st] t)"
    and "activeAt (updateNode (ident n) [F_sugarConcentration c, F_sugarStore st] t) y = activeAt t y"
  using phloem_write_gen[OF assms, of "[F_sugarConcentration c, F_sugarStore st]" st] by simp_all

lemma phloem_write1:
  assumes "loopInv (nodeMid rg vt) s0 t" "getNode t x = Some n" "isActive n" "rg \<Longrightarrow> c \<le> 1"
  shows "loopInv (nodeMid rg vt) s0 (updateNode (ident n) [F_sugarConcentration c] t)"
    and "activeAt (updateNode (ident n) [F_sugarConcentration c] t) y = activeAt t y"
  using phloem_write_gen[OF assms, of "[F_sugarConcentration c]" 0] by simp_all

lemma live_present: "getNode t k = Some n \<Longrightarrow> live t k m = n"
  by (simp add: live_def)

lemma phloem_flow_nonneg:
  fixes d r1 r2 :: real
  assumes "0 < r1" "0 < r2"
  shows "0 \<le> SUGAR_DIFFUSION_RATE * \<bar>d\<bar> * min r1 r2"
  using assms by (simp add: SUGAR_DIFFUSION_RATE_def)

lemma phloemChildBody_inv:
  assumes inv: "loopInv (nodeMid rg vt) s0 t" and ka: "activeAt t k"
  shows "loopInv (nodeMid rg vt) s0 (phloemChildBody k c t) \<and> activeAt (phloemChildBody k c t) k"
proof -
  from ka obtain node where n: "getNode t k = Some node" and act: "isActive node"
    by (auto simp: activeAt_def)
  show ?thesis
  proof (cases "getNode t c")
    case None
    then show ?thesis using inv ka n by (simp add: phloemChildBody_def)
  next
    case ch: (Some child)
    show ?thesis
    proof (cases "isActive child")
      case False
      then show ?thesis using inv ka n ch by (simp add: phloemChildBody_def)
    next
      case cact: True
      have ca: "activeAt t c" using ch cact by (auto simp: activeAt_def)
      define fl where "fl = SUGAR_DIFFUSION_RATE * \<bar>sugarConcentration node - sugarConcentration child\<bar>
           * min (radius node) (radius child)"
      define sa1 where "sa1 = updateNode (ident node)
           [F_sugarConcentration (sugarConcentration node - fl * 0.5),
            F_sugarStore (max 0 (sugarStore node - fl))] t"
      define child' where "child' = live sa1 c child"
      define sb1 where "sb1 = updateNode (ident child')
           [F_sugarConcentration (min 1.0 (sugarConcentration child' + fl * 0.45)),
            F_sugarStore (sugarStore child' + fl * 0.9)] sa1"
      define sa2 where "sa2 = updateNode (ident child)
           [F_sugarConcentration (sugarConcentration child - \<bar>fl\<bar> * 0.5)] t"
      define node' where "node' = live sa2 k node"
      define sb2 where "sb2 = updateNode (ident node')
           [F_sugarConcentration (min 1.0 (sugarConcentration node' + \<bar>fl\<bar> * 0.45))] sa2"
      define s1 where "s1 =
         (if \<bar>sugarConcentration node - sugarConcentration child\<bar> > FLOW_THRESHOLD then
            if sugarConcentration node - sugarConcentration child > 0
            then (if fl > 0.0005 then spawnOnRoll 0.3 (ident node) (ident child) phloem (fl * 15) sb1 else sb1)
            else (if \<bar>fl\<bar> > 0.0005 then spawnOnRoll 0.3 (ident child) (ident node) phloem (\<bar>fl\<bar> * 15) sb2 else sb2)
          else t)"
      have body: "phloemChildBody k c t =
         (if isActive (live s1 k node) \<and> isActive (live s1 c child)
          then spawnOnRoll 0.02 (ident (live s1 c child)) (ident (live s1 k node)) phloem 0.7 s1
          else s1)"
        unfolding phloemChildBody_def Let_def s1_def sb1_def sb2_def node'_def child'_def sa1_def sa2_def fl_def
        by (simp only: n ch cact simp_thms if_True if_False option.case)
      have qn: "(nodeMid rg vt) node" and qc: "(nodeMid rg vt) child"
        using loopInv_get[OF inv n] loopInv_get[OF inv ch] by auto
      have fl0: "0 \<le> fl" if rg unfolding fl_def using nodeMidD[OF qn that] nodeMidD[OF qc that]
        by (intro phloem_flow_nonneg) auto
      have down: "loopInv (nodeMid rg vt) s0 sb1 \<and> activeAt sb1 k"
      proof -
        have c1: "sugarConcentration node - fl * 0.5 \<le> 1" if rg
          using fl0[OF that] nodeMidD[OF qn that] by simp
        have i1: "loopInv (nodeMid rg vt) s0 sa1"
          unfolding sa1_def by (rule phloem_write2[OF inv n act c1])
        have a1: "activeAt sa1 y = activeAt t y" for y
          unfolding sa1_def by (rule phloem_write2[OF inv n act c1])
        from a1[of c] ca obtain ch1 where g1: "getNode sa1 c = Some ch1" and ac1: "isActive ch1"
          by (auto simp: activeAt_def)
        have ce: "child' = ch1" unfolding child'_def using g1 by (rule live_present)
        have c2: "min 1.0 (sugarConcentration ch1 + fl * 0.45) \<le> 1" by simp
        have "loopInv (nodeMid rg vt) s0 sb1"
          unfolding sb1_def ce by (rule phloem_write2[OF i1 g1 ac1 c2])
        moreover have "activeAt sb1 k = activeAt sa1 k"
          unfolding sb1_def ce by (rule phloem_write2[OF i1 g1 ac1 c2])
        ultimately show ?thesis using a1[of k] ka by simp
      qed
      have up: "loopInv (nodeMid rg vt) s0 sb2 \<and> activeAt sb2 k"
      proof -
        have "0 \<le> \<bar>fl\<bar>" by simp
        then have c1: "sugarConcentration child - \<bar>fl\<bar> * 0.5 \<le> 1" if rg
          using nodeMidD[OF qc that] by linarith
        have i1: "loopInv (nodeMid rg vt) s0 sa2"
          unfolding sa2_def by (rule phloem_write1[OF inv ch cact c1])
        have a1: "activeAt sa2 y = activeAt t y" for y
          unfolding sa2_def by (rule phloem_write1[OF inv ch cact c1])
        from a1[of k] ka obtain n1 where g1: "getNode sa2 k = Some n1" and an1: "isActive n1"
          by (auto simp: activeAt_def)
        have ne: "node' = n1" unfolding node'_def using g1 by (rule live_present)
        have c2: "min 1.0 (sugarConcentration n1 + \<bar>fl\<bar> * 0.45) \<le> 1" by simp
        have "loopInv (nodeMid rg vt) s0 sb2"
          unfolding sb2_def ne by (rule phloem_write1[OF i1 g1 an1 c2])
        moreover have "activeAt sb2 k = activeAt sa2 k"
          unfolding sb2_def ne by (rule phloem_write1[OF i1 g1 an1 c2])
        ultimately show ?thesis using a1[of k] ka by simp
      qed
      have sp: "activeAt (spawnOnRoll p a b ty v u) k = activeAt u k" for p a b ty v u
        by (simp add: activeAt_def)
      have "loopInv (nodeMid rg vt) s0 s1 \<and> activeAt s1 k"
        using inv ka down up by (simp add: s1_def sp)
      then show ?thesis unfolding body by (simp add: sp)
    qed
  qed
qed

lemma fold_inv:
  assumes "\<And>x t. I t \<Longrightarrow> I (f x t)"
  shows "I s \<Longrightarrow> I (fold f xs s)"
  by (induction xs arbitrary: s) (auto intro: assms)

lemma phloemBody_inv:
  assumes inv: "loopInv (nodeMid rg vt) s0 t" and n: "getNode t k = Some node"
  shows "loopInv (nodeMid rg vt) s0 (phloemBody k node t)"
proof (cases "isActive node")
  case False
  then show ?thesis using inv by (simp add: phloemBody_def)
next
  case True
  then have ka: "activeAt t k" using n by (auto simp: activeAt_def)
  have "loopInv (nodeMid rg vt) s0 (fold (phloemChildBody k) (getChildren t node) t)
      \<and> activeAt (fold (phloemChildBody k) (getChildren t node) t) k"
    by (rule fold_inv[where I = "\<lambda>u. loopInv (nodeMid rg vt) s0 u \<and> activeAt u k"])
       (use inv ka in \<open>auto dest: phloemChildBody_inv\<close>)
  then show ?thesis using True by (simp add: phloemBody_def)
qed

lemma processPhloemFlow_inv:
  assumes "loopInv (nodeMid rg vt) s0 s"
  shows "loopInv (nodeMid rg vt) s0 (processPhloemFlow s)"
  unfolding processPhloemFlow_def forEachNode_def
  by (rule forEachKey_inv[where I = "loopInv (nodeMid rg vt) s0"]) (auto intro: phloemBody_inv assms)


lemma forEachKey_nextId:
  assumes "\<And>k n t. nextId (body k n t) = nextId t"
  shows "nextId (forEachKey ks body s) = nextId s"
  by (rule forEachKey_inv[where I = "\<lambda>t. nextId t = nextId s"]) (simp_all add: assms)

lemmas frame_prims2 = nextId_updateNode nextId_prims

lemma nextId_bodies [simp]:
  "nextId (transpirationBody tf k n s) = nextId s"
  "nextId (rootUptakeBody k n s) = nextId s"
  "nextId (photosynthesisBody k n s) = nextId s"
  "nextId (respirationBody k n s) = nextId s"
  "nextId (stressHealthBody k n s) = nextId s"
  by (simp_all only: transpirationBody_def rootUptakeBody_def photosynthesisBody_def
      respirationBody_def stressHealthBody_def Let_def frame_prims2 simp_thms
      split: if_split option.split)

lemma nextId_processes [simp]:
  "nextId (processTranspiration s) = nextId s"
  "nextId (processRootUptake s) = nextId s"
  "nextId (processPhotosynthesis s) = nextId s"
  "nextId (processRespiration s) = nextId s"
  "nextId (processStressAndHealth s) = nextId s"
  by (simp_all add: processTranspiration_def processRootUptake_def processPhotosynthesis_def
      processRespiration_def processStressAndHealth_def forEachNode_def forEachKey_nextId Let_def)

lemma loopInv_pointwise:
  assumes ok: "keysOk s" and all: "allNodes Q s"
    and keys: "map fst (nodes s') = map fst (nodes s)" and nid: "nextId s' = nextId s"
    and get: "\<And>k. getNode s' k = map_option g (getNode s k)"
    and gi: "\<And>n. ident (g n) = ident n"
    and gq: "\<And>n. Q n \<Longrightarrow> Q' (g n)"
    and gdead: "\<And>n. \<not> isActive n \<Longrightarrow> g n = n"
  shows "loopInv Q' s s'"
proof -
  have ok': "keysOk s'" using keysOk_pointwise[OF ok keys get gi] .
  have d': "distinct (map fst (nodes s'))" using ok' by (simp add: keysOk_def)
  have "allNodes Q' s'"
    unfolding allNodes_iff[OF d'] using get gq allNodesD[OF all] by auto
  moreover have "\<forall>k n. getNode s k = Some n \<longrightarrow> \<not> isActive n \<longrightarrow> getNode s' k = Some n"
    using get gdead by auto
  ultimately show ?thesis using ok' keys nid by (simp add: loopInv_def)
qed

lemma transpireNode_ok: "(nodeFull rg vt) n \<Longrightarrow> (nodeFull rg vt) (transpireNode tf n)"
  by (auto simp: transpireNode_def nodeFull_def nodeOk_def vitalsOk_def)

lemma uptakeNode_ok: "(nodeFull rg vt) n \<Longrightarrow> (nodeFull rg vt) (uptakeNode cl n)"
  by (auto simp: uptakeNode_def nodeFull_def nodeOk_def vitalsOk_def)

lemma photosynthNode_ok: "(nodeMid rg vt) n \<Longrightarrow> (nodeMid rg vt) (photosynthNode cl n)"
proof (cases "isActive n \<and> \<not> (ntype n \<noteq> LEAF \<and> length (childrenIds n) > 0)
         \<and> \<not> waterPressure n < MIN_WATER_FOR_PHOTOSYNTHESIS \<and> sugarProducedBy cl n > 0")
  case False
  assume "(nodeMid rg vt) n"
  then show ?thesis unfolding photosynthNode_def by (simp only: False if_False)
next
  case True
  assume m: "(nodeMid rg vt) n"
  have p: "0 \<le> sugarProducedBy cl n * WATER_PER_SUGAR * 0.1"
    using True by (simp add: WATER_PER_SUGAR_def)
  have "max 0 (waterPressure n - sugarProducedBy cl n * WATER_PER_SUGAR * 0.1) \<le> waterPressure n \<or>
        waterPressure n < 0" using p by (auto simp: max_def)
  with m True p show ?thesis
    by (auto simp: photosynthNode_def nodeMid_def nodeOk_def max_def)
qed

lemma respirationCost_pos: "0 < radius n \<Longrightarrow> 0 < respirationCostOf n"
  by (simp add: respirationCostOf_def NODE_RESPIRATION_COST_def add_pos_pos)

lemma respireNode_ok: "(nodeMid rg vt) n \<Longrightarrow> (nodeFull rg vt) (respireNode n)"
proof (cases "isActive n")
  case False
  assume "(nodeMid rg vt) n"
  with False show ?thesis by (simp add: respireNode_def nodeMid_def)
next
  case True
  assume m: "(nodeMid rg vt) n"
  have act: "isActive (respireNode n)" using True by (simp add: respireNode_def)
  show ?thesis
  proof (cases rg)
    case False
    with act show ?thesis by (simp add: nodeFull_def vitalsOk_def)
  next
    case rg: True
    have r: "0 < radius n" using nodeMidD[OF m rg] by simp
    have c: "0 < respirationCostOf n" using respirationCost_pos[OF r] .
    have ok: "0 \<le> waterPressure n" "waterPressure n \<le> 1" "sugarConcentration n \<le> 1"
      "0 \<le> structuralHealth n" "structuralHealth n \<le> 1" "0 \<le> stressLevel n" "stressLevel n \<le> 1"
      using m True rg by (simp_all add: nodeMid_def nodeOk_def)
    show ?thesis
    proof (cases "sugarStore n \<ge> respirationCostOf n")
      case True
      have "max 0 (sugarConcentration n - respirationCostOf n * 0.05) \<le> 1" using ok(3) c by simp
      with True \<open>isActive n\<close> ok r show ?thesis
        by (simp add: respireNode_def nodeFull_def nodeOk_def vitalsOk_def)
    next
      case False
      then have "0 \<le> (respirationCostOf n - sugarStore n) * STARVATION_STRESS_RATE"
        by (simp add: STARVATION_STRESS_RATE_def)
      then have "0 \<le> min 1 (stressLevel n + (respirationCostOf n - sugarStore n) * STARVATION_STRESS_RATE)"
        using ok(6) by simp
      moreover have "max 0 (sugarConcentration n - 0.01) \<le> 1" using ok(3) by simp
      ultimately show ?thesis using False \<open>isActive n\<close> ok r
        by (simp add: respireNode_def nodeFull_def nodeOk_def vitalsOk_def)
    qed
  qed
qed

lemma stressHealthNode_ok: "(nodeFull rg vt) n \<Longrightarrow> (nodeFull rg vt) (stressHealthNode n)"
proof -
  assume f: "(nodeFull rg vt) n"
  have "0 \<le> newStressOf n" "newStressOf n \<le> 1" by (simp_all add: newStressOf_def)
  with f show ?thesis by (auto simp: stressHealthNode_def nodeFull_def nodeOk_def vitalsOk_def)
qed

lemma inactive_nodeFuns [simp]:
  "\<not> isActive n \<Longrightarrow> transpireNode tf n = n" "\<not> isActive n \<Longrightarrow> uptakeNode cl n = n"
  "\<not> isActive n \<Longrightarrow> photosynthNode cl n = n" "\<not> isActive n \<Longrightarrow> respireNode n = n"
  "\<not> isActive n \<Longrightarrow> stressHealthNode n = n"
  by (simp_all add: transpireNode_def uptakeNode_def photosynthNode_def respireNode_def
      stressHealthNode_def)

lemma loopInv_keysOk: "loopInv Q s0 t \<Longrightarrow> keysOk t" and loopInv_all: "loopInv Q s0 t \<Longrightarrow> allNodes Q t"
  by (simp_all add: loopInv_def)

lemma processTranspiration_inv:
  assumes "loopInv (nodeFull rg vt) s0 s" shows "loopInv (nodeFull rg vt) s0 (processTranspiration s)"
proof -
  note pw = processTranspiration_pointwise[OF loopInv_keysOk[OF assms]]
  have "loopInv (nodeFull rg vt) s (processTranspiration s)"
    by (rule loopInv_pointwise[OF loopInv_keysOk[OF assms] loopInv_all[OF assms], where g = "transpireNode _"])
       (use pw in \<open>simp_all add: transpireNode_ok\<close>)
  with assms show ?thesis by (rule loopInv_trans)
qed

lemma processRootUptake_inv:
  assumes "loopInv (nodeFull rg vt) s0 s" shows "loopInv (nodeFull rg vt) s0 (processRootUptake s)"
proof -
  note pw = processRootUptake_pointwise[OF loopInv_keysOk[OF assms]]
  have "loopInv (nodeFull rg vt) s (processRootUptake s)"
    by (rule loopInv_pointwise[OF loopInv_keysOk[OF assms] loopInv_all[OF assms], where g = "uptakeNode _"])
       (use pw in \<open>simp_all add: uptakeNode_ok\<close>)
  with assms show ?thesis by (rule loopInv_trans)
qed

lemma processPhotosynthesis_inv:
  assumes "loopInv (nodeMid rg vt) s0 s" shows "loopInv (nodeMid rg vt) s0 (processPhotosynthesis s)"
proof -
  note pw = processPhotosynthesis_pointwise[OF loopInv_keysOk[OF assms]]
  have "loopInv (nodeMid rg vt) s (processPhotosynthesis s)"
    by (rule loopInv_pointwise[OF loopInv_keysOk[OF assms] loopInv_all[OF assms], where g = "photosynthNode _"])
       (use pw in \<open>simp_all add: photosynthNode_ok\<close>)
  with assms show ?thesis by (rule loopInv_trans)
qed

lemma processRespiration_inv:
  assumes "loopInv (nodeMid rg vt) s0 s" shows "loopInv (nodeFull rg vt) s0 (processRespiration s)"
proof -
  note pw = processRespiration_pointwise[OF loopInv_keysOk[OF assms]]
  have "loopInv (nodeFull rg vt) s (processRespiration s)"
    by (rule loopInv_pointwise[OF loopInv_keysOk[OF assms] loopInv_all[OF assms], where g = respireNode])
       (use pw in \<open>simp_all add: respireNode_ok\<close>)
  with assms show ?thesis by (rule loopInv_trans)
qed

lemma processStressAndHealth_inv:
  assumes "loopInv (nodeFull rg vt) s0 s" shows "loopInv (nodeFull rg vt) s0 (processStressAndHealth s)"
proof -
  note pw = processStressAndHealth_pointwise[OF loopInv_keysOk[OF assms]]
  have "loopInv (nodeFull rg vt) s (processStressAndHealth s)"
    by (rule loopInv_pointwise[OF loopInv_keysOk[OF assms] loopInv_all[OF assms], where g = stressHealthNode])
       (use pw in \<open>simp_all add: stressHealthNode_ok\<close>)
  with assms show ?thesis by (rule loopInv_trans)
qed

lemma nodes_updateParticles [simp]:
  "nodes (updateParticles s) = nodes s" "nextId (updateParticles s) = nextId s"
  by (simp_all add: updateParticles_def split: prod.splits)

lemma nodes_updateClimateSystem [simp]:
  "nodes (updateClimateSystem s) = nodes s" "nextId (updateClimateSystem s) = nextId s"
  by (simp_all add: updateClimateSystem_def updateClimate_def mathRandom_def Let_def split: prod.splits)

lemma systems_inv:
  assumes "keysOk s" "allNodes (nodeFull rg vt) s"
  shows "loopInv (nodeFull rg vt) s (updateMetabolism (updateHydraulics (updateClimateSystem s)))"
proof -
  have 0: "loopInv (nodeFull rg vt) s (updateClimateSystem s)"
    by (rule loopInv_cong[OF loopInv_refl[OF assms]]) simp_all
  have 1: "loopInv (nodeFull rg vt) s (processXylemFlow (processRootUptake (processTranspiration (updateClimateSystem s))))"
    by (intro processXylemFlow_inv processRootUptake_inv processTranspiration_inv 0)
  have 2: "loopInv (nodeMid rg vt) s (processPhloemFlow (processXylemFlow (processRootUptake (processTranspiration (updateClimateSystem s)))))"
    by (intro processPhloemFlow_inv loopInv_weaken[OF 1] nodeFull_imp_nodeMid)
  have 3: "loopInv (nodeMid rg vt) s (updateHydraulics (updateClimateSystem s))"
    unfolding updateHydraulics_def by (rule loopInv_cong[OF 2]) simp_all
  show ?thesis unfolding updateMetabolism_def
    by (intro processStressAndHealth_inv processRespiration_inv processPhotosynthesis_inv 3)
qed

section \<open>Store invariant under the mutation API and the growth heuristic\<close>

text \<open>
  \<open>storeInv\<close> collects what every operation below preserves: each entry is filed under its own
  id, every key was drawn from the id counter, and every segment is in range with the vitals of
  a dead segment at their terminal values. \<open>keepsDead s s'\<close> relates a store to a later one: the
  counter did not go back, no key below it was re-entered, and a segment that was inactive is
  either gone or still inactive.
\<close>

definition storeInv :: "bool \<Rightarrow> bool \<Rightarrow> Sim \<Rightarrow> bool" where
  "storeInv rg vt s \<longleftrightarrow> keysOk s \<and> idsFresh s \<and> allNodes (nodeFull rg vt) s"

definition keepsDead :: "Sim \<Rightarrow> Sim \<Rightarrow> bool" where
  "keepsDead s s' \<longleftrightarrow> nextId s \<le> nextId s' \<and>
     (\<forall>k. k < nextId s \<longrightarrow>
        (case getNode s k of
           None \<Rightarrow> getNode s' k = None
         | Some n \<Rightarrow> \<not> isActive n \<longrightarrow>
             getNode s' k = None \<or> (\<exists>n'. getNode s' k = Some n' \<and> \<not> isActive n')))"

lemma keepsDead_refl: "keepsDead s s"
  by (simp add: keepsDead_def split: option.splits)

lemma keepsDead_le: "keepsDead s t \<Longrightarrow> nextId s \<le> nextId t"
  by (simp add: keepsDead_def)

lemma keepsDead_absent:
  assumes "keepsDead s t" "k < nextId s" "getNode s k = None"
  shows "getNode t k = None"
proof -
  from assms(1) have "k < nextId s \<longrightarrow> (case getNode s k of None \<Rightarrow> getNode t k = None
      | Some n \<Rightarrow> \<not> isActive n \<longrightarrow> getNode t k = None \<or> (\<exists>n'. getNode t k = Some n' \<and> \<not> isActive n'))"
    unfolding keepsDead_def by blast
  with assms(2,3) show ?thesis by simp
qed

lemma keepsDead_dead:
  assumes "keepsDead s t" "k < nextId s" "getNode s k = Some n" "\<not> isActive n"
  shows "getNode t k = None \<or> (\<exists>n'. getNode t k = Some n' \<and> \<not> isActive n')"
proof -
  from assms(1) have "k < nextId s \<longrightarrow> (case getNode s k of None \<Rightarrow> getNode t k = None
      | Some n \<Rightarrow> \<not> isActive n \<longrightarrow> getNode t k = None \<or> (\<exists>n'. getNode t k = Some n' \<and> \<not> isActive n'))"
    unfolding keepsDead_def by blast
  with assms(2,3,4) show ?thesis by simp
qed

lemma keepsDead_trans:
  assumes "keepsDead s t" "keepsDead t u"
  shows "keepsDead s u"
  unfolding keepsDead_def
proof (intro conjI allI impI)
  show "nextId s \<le> nextId u" using assms[THEN keepsDead_le] by simp
  fix k assume k: "k < nextId s"
  then have kt: "k < nextId t" using keepsDead_le[OF assms(1)] by simp
  have absent: "getNode t k = None \<Longrightarrow> getNode u k = None"
    using keepsDead_absent[OF assms(2) kt] .
  have dead: "\<And>n'. getNode t k = Some n' \<Longrightarrow> \<not> isActive n' \<Longrightarrow>
      getNode u k = None \<or> (\<exists>n''. getNode u k = Some n'' \<and> \<not> isActive n'')"
    using keepsDead_dead[OF assms(2) kt] .
  show "case getNode s k of None \<Rightarrow> getNode u k = None
        | Some n \<Rightarrow> \<not> isActive n \<longrightarrow>
            getNode u k = None \<or> (\<exists>n'. getNode u k = Some n' \<and> \<not> isActive n')"
  proof (cases "getNode s k")
    case None
    then have "getNode t k = None" using keepsDead_absent[OF assms(1) k] by simp
    with absent None show ?thesis by simp
  next
    case (Some n)
    show ?thesis
    proof (cases "isActive n")
      case True
      then show ?thesis using Some by simp
    next
      case False
      with Some keepsDead_dead[OF assms(1) k]
      have "getNode t k = None \<or> (\<exists>n'. getNode t k = Some n' \<and> \<not> isActive n')"
        by simp
      then show ?thesis using absent dead Some False by auto
    qed
  qed
qed

lemma keepsDead_nodes: "nodes s' = nodes s \<Longrightarrow> nextId s' = nextId s \<Longrightarrow> keepsDead s s'"
  by (simp add: keepsDead_def getNode_def split: option.splits)

lemma keepsDeadI:
  assumes "nextId s \<le> nextId s'"
    and "\<And>k. k < nextId s \<Longrightarrow> getNode s k = None \<Longrightarrow> getNode s' k = None"
    and "\<And>k n. getNode s k = Some n \<Longrightarrow> \<not> isActive n \<Longrightarrow>
           getNode s' k = None \<or> (\<exists>n'. getNode s' k = Some n' \<and> \<not> isActive n')"
  shows "keepsDead s s'"
  using assms by (simp add: keepsDead_def split: option.splits)

lemma storeInv_nodes: "(storeInv rg vt) s \<Longrightarrow> nodes s' = nodes s \<Longrightarrow> nextId s' = nextId s \<Longrightarrow> (storeInv rg vt) s'"
  by (simp add: storeInv_def keysOk_def idsFresh_def allNodes_def)

lemma loopInv_storeInv:
  assumes "(storeInv rg vt) s" "loopInv (nodeFull rg vt) s t"
  shows "(storeInv rg vt) t \<and> keepsDead s t"
proof
  have k: "map fst (nodes t) = map fst (nodes s)" and n: "nextId t = nextId s"
    using assms(2) by (simp_all add: loopInv_def)
  show "(storeInv rg vt) t" using assms k n by (simp add: storeInv_def loopInv_def idsFresh_def)
  show "keepsDead s t"
  proof (rule keepsDeadI)
    show "nextId s \<le> nextId t" using n by simp
    fix k' assume "getNode s k' = None"
    then show "getNode t k' = None" using k by (simp add: getNode_None_iff)
  next
    fix k' m assume "getNode s k' = Some m" "\<not> isActive m"
    then show "getNode t k' = None \<or> (\<exists>n'. getNode t k' = Some n' \<and> \<not> isActive n')"
      using assms(2) by (auto simp: loopInv_def)
  qed
qed

text \<open>A table after some writes: every entry is an old entry rewritten or the new entry.\<close>

lemma storeInv_intro:
  assumes d: "distinct (map fst (nodes s'))"
    and g: "\<And>k n. getNode s' k = Some n \<Longrightarrow> ident n = k \<and> (nodeFull rg vt) n \<and> k < nextId s'"
  shows "(storeInv rg vt) s'"
proof -
  have "keysOk s'" using d g by (intro keysOkI) auto
  moreover have "allNodes (nodeFull rg vt) s'" unfolding allNodes_iff[OF d] using g by auto
  moreover have "idsFresh s'"
    unfolding idsFresh_def list_all_iff
  proof
    fix k assume "k \<in> set (map fst (nodes s'))"
    then obtain n where "getNode s' k = Some n"
      using getNode_None_iff[of s' k] by (cases "getNode s' k") auto
    then show "k < nextId s'" using g by auto
  qed
  ultimately show ?thesis by (simp add: storeInv_def)
qed

lemma storeInvD:
  assumes "(storeInv rg vt) s" "getNode s k = Some n"
  shows "ident n = k" "(nodeFull rg vt) n" "k < nextId s"
proof -
  show "ident n = k" using assms keysOk_ident by (auto simp: storeInv_def)
  show "(nodeFull rg vt) n" using assms allNodesD by (auto simp: storeInv_def)
  have "k \<in> set (map fst (nodes s))" using assms(2) getNode_None_iff[of s k] by auto
  then show "k < nextId s" using assms(1) by (auto simp: storeInv_def idsFresh_def list_all_iff)
qed

lemma storeInv_distinct: "(storeInv rg vt) s \<Longrightarrow> distinct (map fst (nodes s))"
  by (simp add: storeInv_def keysOk_def)

lemma distinct_putNode: "distinct (map fst (nodes s)) \<Longrightarrow> distinct (map fst (nodes (putNode k n s)))"
  by (simp add: putNode_def distinct_update)

lemma newNode_full:
  assumes "(nodeFull rg vt) parent" "rg \<Longrightarrow> 0 < r"
  shows "(nodeFull rg vt) \<lparr> ident = k, ntype = t, position = pos, parentId = p, childrenIds = cs,
           radius = r, structuralHealth = 1.0,
           waterPressure = max 0.3 (waterPressure parent * 0.95),
           sugarConcentration = max 0.2 (sugarConcentration parent * 0.9),
           sugarStore = 0, isActive = True, stressLevel = 0 \<rparr>"
  using assms by (auto simp: nodeFull_def nodeOk_def vitalsOk_def max_def)

lemma defaultRadius_pos: "0 < getDefaultRadius t"
  by (cases t) (simp_all add: getDefaultRadius_def CONFIG)

lemma addNode_inv:
  assumes inv: "(storeInv rg vt) s" and r: "\<And>v. rg \<Longrightarrow> radius' = Some v \<Longrightarrow> 0 < v"
  shows "(storeInv rg vt) (snd (addNode p t pos radius' s)) \<and> keepsDead s (snd (addNode p t pos radius' s))"
proof (cases "fst (addNode p t pos radius' s)")
  case None
  then have "snd (addNode p t pos radius' s) = s" using rejected_mutation_atomic by blast
  then show ?thesis using inv by (simp add: keepsDead_refl)
next
  case (Some node)
  then obtain parent where par: "getNode s p = Some parent"
    and cost: "\<not> sugar (resources s) < getNodeCost t"
    by (auto simp: addNode_def Let_def split: option.splits if_splits)
  define rad where "rad = (case radius' of Some r \<Rightarrow> r | None \<Rightarrow> getDefaultRadius t)"
  have rad: "0 < rad" if rg using r[OF that] defaultRadius_pos by (auto simp: rad_def split: option.splits)
  define new where "new = \<lparr> ident = nextId s, ntype = t, position = pos, parentId = Some p,
       childrenIds = [], radius = rad, structuralHealth = 1.0,
       waterPressure = max 0.3 (waterPressure parent * 0.95),
       sugarConcentration = max 0.2 (sugarConcentration parent * 0.9),
       sugarStore = 0, isActive = True, stressLevel = 0 \<rparr>"
  define s' where "s' = snd (addNode p t pos radius' s)"
  have get: "getNode s' k = (if k = nextId s then Some new
       else if k = p then Some (parent\<lparr>childrenIds := childrenIds parent @ [nextId s]\<rparr>)
       else getNode s k)" for k
    using par cost by (simp add: s'_def addNode_def Let_def new_def rad_def)
  have nid: "nextId s' = Suc (nextId s)"
    using par cost by (simp add: s'_def addNode_def Let_def putNode_def)
  have keys: "distinct (map fst (nodes s'))"
    using par cost storeInv_distinct[OF inv]
    by (simp add: s'_def addNode_def Let_def distinct_putNode)
  have pf: "(nodeFull rg vt) parent" using storeInvD[OF inv par] by simp
  have nf: "(nodeFull rg vt) new" unfolding new_def by (rule newNode_full[OF pf rad])
  have "(storeInv rg vt) s'"
  proof (rule storeInv_intro[OF keys])
    fix k n assume "getNode s' k = Some n"
    then consider "k = nextId s" "n = new"
      | "k \<noteq> nextId s" "k = p" "n = parent\<lparr>childrenIds := childrenIds parent @ [nextId s]\<rparr>"
      | "k \<noteq> nextId s" "k \<noteq> p" "getNode s k = Some n"
      using get[of k] by (auto split: if_splits)
    then show "ident n = k \<and> (nodeFull rg vt) n \<and> k < nextId s'"
    proof cases
      case 1
      then show ?thesis using nf nid by (simp add: new_def)
    next
      case 2
      then show ?thesis using pf storeInvD[OF inv par] nid
        by (simp add: nodeFull_def nodeOk_def vitalsOk_def)
    next
      case 3
      then show ?thesis using storeInvD[OF inv 3(3)] nid by simp
    qed
  qed
  moreover have "keepsDead s s'"
  proof (rule keepsDeadI)
    show "nextId s \<le> nextId s'" using nid by simp
    fix k assume "k < nextId s" "getNode s k = None"
    then show "getNode s' k = None" using get[of k] par by auto
  next
    fix k n assume a: "getNode s k = Some n" "\<not> isActive n"
    have "k \<noteq> nextId s" using storeInvD(3)[OF inv a(1)] by simp
    then show "getNode s' k = None \<or> (\<exists>n'. getNode s' k = Some n' \<and> \<not> isActive n')"
      using get[of k] a par by auto
  qed
  ultimately show ?thesis by (simp add: s'_def)
qed


definition sameBody :: "PlantNode \<Rightarrow> PlantNode \<Rightarrow> bool" where
  "sameBody n n' \<longleftrightarrow> ident n' = ident n \<and> ntype n' = ntype n \<and> radius n' = radius n
     \<and> structuralHealth n' = structuralHealth n \<and> waterPressure n' = waterPressure n
     \<and> sugarConcentration n' = sugarConcentration n \<and> sugarStore n' = sugarStore n
     \<and> isActive n' = isActive n \<and> stressLevel n' = stressLevel n"

lemma sameBody_refl [simp]: "sameBody n n"
  by (simp add: sameBody_def)

lemma sameBody_trans: "sameBody a b \<Longrightarrow> sameBody b c \<Longrightarrow> sameBody a c"
  by (simp add: sameBody_def)

lemma sameBody_nodeFull: "sameBody n n' \<Longrightarrow> (nodeFull rg vt) n' = (nodeFull rg vt) n"
  by (simp add: sameBody_def nodeFull_def nodeOk_def vitalsOk_def)

lemma sameBody_ident: "sameBody n n' \<Longrightarrow> ident n' = ident n"
  and sameBody_active: "sameBody n n' \<Longrightarrow> isActive n' = isActive n"
  by (simp_all add: sameBody_def)

lemma fold_modify_sameBody:
  assumes "\<And>c n. sameBody n (f c n)"
  shows "rel_option sameBody (getNode s k) (getNode (fold (\<lambda>c. modifyNode c (f c)) cs s) k)"
proof (induction cs arbitrary: s)
  case Nil
  then show ?case by (cases "getNode s k") simp_all
next
  case (Cons c cs)
  have 1: "rel_option sameBody (getNode s k) (getNode (modifyNode c (f c) s) k)"
    using assms by (cases "getNode s k") auto
  have 2: "rel_option sameBody (getNode (modifyNode c (f c) s) k)
             (getNode (fold (\<lambda>c. modifyNode c (f c)) cs (modifyNode c (f c) s)) k)"
    by (rule Cons.IH)
  have "rel_option sameBody (getNode s k)
             (getNode (fold (\<lambda>c. modifyNode c (f c)) cs (modifyNode c (f c) s)) k)"
    using 1 2 by (auto simp: option_rel_Some1 option_rel_Some2 elim!: option.rel_cases intro: sameBody_trans)
  then show ?case by simp
qed

lemma fold_modify_frame [simp]:
  "map fst (nodes (fold (\<lambda>c. modifyNode c (f c)) cs s)) = map fst (nodes s)"
  "nextId (fold (\<lambda>c. modifyNode c (f c)) cs s) = nextId s"
  "resources (fold (\<lambda>c. modifyNode c (f c)) cs s) = resources s"
  by (induction cs arbitrary: s) simp_all


definition okRewrite :: "bool \<Rightarrow> bool \<Rightarrow> PlantNode \<Rightarrow> PlantNode \<Rightarrow> bool" where
  "okRewrite rg vt n n' \<longleftrightarrow> ident n' = ident n \<and> isActive n' = isActive n
     \<and> ((nodeFull rg vt) n \<longrightarrow> (nodeFull rg vt) n')"

lemma sameBody_okRewrite: "sameBody n n' \<Longrightarrow> (okRewrite rg vt) n n'"
  by (simp add: okRewrite_def sameBody_ident sameBody_active sameBody_nodeFull)

lemma rewrite_inv_gen:
  assumes inv: "(storeInv rg vt) s" and nid: "nextId s \<le> nextId s'"
    and d: "distinct (map fst (nodes s'))"
    and old: "\<And>k. k < nextId s \<Longrightarrow>
                getNode s' k = None \<or> rel_option (okRewrite rg vt) (getNode s k) (getNode s' k)"
    and new: "\<And>k n. nextId s \<le> k \<Longrightarrow> getNode s' k = Some n \<Longrightarrow>
                ident n = k \<and> (nodeFull rg vt) n \<and> k < nextId s'"
  shows "(storeInv rg vt) s' \<and> keepsDead s s'"
proof
  show "(storeInv rg vt) s'"
  proof (rule storeInv_intro[OF d])
    fix k n assume g: "getNode s' k = Some n"
    show "ident n = k \<and> (nodeFull rg vt) n \<and> k < nextId s'"
    proof (cases "k < nextId s")
      case True
      from old[OF True] g obtain m where m: "getNode s k = Some m" "(okRewrite rg vt) m n"
        by (auto simp: option_rel_Some2)
      then show ?thesis
        using storeInvD[OF inv m(1)] True nid by (simp add: okRewrite_def)
    next
      case False
      then show ?thesis using new[of k n] g by simp
    qed
  qed
  show "keepsDead s s'"
  proof (rule keepsDeadI[OF nid])
    fix k assume "k < nextId s" "getNode s k = None"
    then show "getNode s' k = None" using old[of k] by auto
  next
    fix k n assume a: "getNode s k = Some n" "\<not> isActive n"
    from old[OF storeInvD(3)[OF inv a(1)]] a(1)
    have "getNode s' k = None \<or> (\<exists>n'. getNode s' k = Some n' \<and> (okRewrite rg vt) n n')"
      by (auto simp: option_rel_Some1)
    then show "getNode s' k = None \<or> (\<exists>n'. getNode s' k = Some n' \<and> \<not> isActive n')"
      using a(2) by (auto simp: okRewrite_def)
  qed
qed

lemma rewrite_inv:
  assumes inv: "(storeInv rg vt) s" and nid: "nextId s \<le> nextId s'"
    and d: "distinct (map fst (nodes s'))"
    and old: "\<And>k. k < nextId s \<Longrightarrow>
                getNode s' k = None \<or> rel_option sameBody (getNode s k) (getNode s' k)"
    and new: "\<And>k n. nextId s \<le> k \<Longrightarrow> getNode s' k = Some n \<Longrightarrow>
                ident n = k \<and> (nodeFull rg vt) n \<and> k < nextId s'"
  shows "(storeInv rg vt) s' \<and> keepsDead s s'"
proof (rule rewrite_inv_gen[OF inv nid d _ new])
  fix k assume "k < nextId s"
  from old[OF this]
  show "getNode s' k = None \<or> rel_option (okRewrite rg vt) (getNode s k) (getNode s' k)"
    by (auto elim!: option.rel_cases intro: sameBody_okRewrite)
qed

lemma rel_option_sameBody_map:
  assumes "rel_option sameBody a b" "\<And>n. sameBody n (h n)"
  shows "rel_option sameBody a (map_option h b)"
  using assms by (cases a; cases b) (auto intro: sameBody_trans)

lemma extendNode_inv:
  assumes inv: "(storeInv rg vt) s"
  shows "(storeInv rg vt) (snd (extendNode k dir s)) \<and> keepsDead s (snd (extendNode k dir s))"
proof (cases "fst (extendNode k dir s)")
  case None
  then have "snd (extendNode k dir s) = s" using rejected_mutation_atomic by blast
  then show ?thesis using inv loopInv_storeInv[OF inv loopInv_refl] by (simp add: keepsDead_refl)
next
  case (Some nn)
  then obtain node where n: "getNode s k = Some node"
    and ty: "\<not> (ntype node \<noteq> TRUNK \<and> ntype node \<noteq> BRANCH \<and> ntype node \<noteq> ROOT)"
    and cost: "\<not> sugar (resources s) < getNodeCost (ntype node)"
    by (auto simp: extendNode_def Let_def split: option.splits if_splits)
  define new where "new = \<lparr> ident = nextId s, ntype = ntype node, position = shiftBy dir (position node),
       parentId = Some k, childrenIds = childrenIds node,
       radius = radius node * 0.95, structuralHealth = 1.0,
       waterPressure = waterPressure node * 0.98,
       sugarConcentration = sugarConcentration node * 0.98,
       sugarStore = 0, isActive = True, stressLevel = 0 \<rparr>"
  define f where "f = (\<lambda>(c::NodeId) (child::PlantNode). child\<lparr>parentId := Some (nextId s),
                                                position := shiftBy dir (position child)\<rparr>)"
  define s2 where "s2 = fold (\<lambda>c. modifyNode c (f c)) (childrenIds node) (s\<lparr>nextId := Suc (nextId s)\<rparr>)"
  define s' where "s' = snd (extendNode k dir s)"
  have s': "s' = (putNode (nextId s) new (modifyNode k (\<lambda>n. n\<lparr>childrenIds := [nextId s]\<rparr>) s2))
                   \<lparr>resources := (resources s)\<lparr>sugar := sugar (resources s) - getNodeCost (ntype node)\<rparr>\<rparr>"
    using n ty cost unfolding s'_def extendNode_def Let_def s2_def f_def new_def
    by (auto simp del: fold_simps)
  have fsame: "\<And>c m. sameBody m (f c m)" by (simp add: f_def sameBody_def)
  have r2: "rel_option sameBody (getNode s x) (getNode s2 x)" for x
    using fold_modify_sameBody[of f "s\<lparr>nextId := Suc (nextId s)\<rparr>" x "childrenIds node", OF fsame]
    by (simp add: s2_def)
  have get: "getNode s' x = (if x = nextId s then Some new
       else if x = k then map_option (\<lambda>n. n\<lparr>childrenIds := [nextId s]\<rparr>) (getNode s2 x)
       else getNode s2 x)" for x
    by (simp add: s')
  have nid: "nextId s' = Suc (nextId s)" by (simp add: s' s2_def)
  have d: "distinct (map fst (nodes s'))"
    using storeInv_distinct[OF inv] by (simp add: s' distinct_putNode s2_def)
  have nf: "(nodeFull rg vt) node" using storeInvD[OF inv n] by simp
  have newf: "(nodeFull rg vt) new" using nf by (cases rg) (simp_all add: new_def nodeFull_def nodeOk_def vitalsOk_def)
  have "(storeInv rg vt) s' \<and> keepsDead s s'"
  proof (rule rewrite_inv[OF inv _ d])
    show "nextId s \<le> nextId s'" using nid by simp
    fix x assume "x < nextId s"
    then have "x \<noteq> nextId s" by simp
    moreover have "rel_option sameBody (getNode s x)
        (map_option (\<lambda>n. n\<lparr>childrenIds := [nextId s]\<rparr>) (getNode s2 x))"
      by (rule rel_option_sameBody_map[OF r2[of x]]) (simp add: sameBody_def)
    ultimately show "getNode s' x = None \<or> rel_option sameBody (getNode s x) (getNode s' x)"
      using r2[of x] by (cases "x = k") (simp_all add: get)
  next
    fix x m assume x: "nextId s \<le> x" "getNode s' x = Some m"
    have "getNode s x = None" if "x \<noteq> nextId s"
    proof (rule ccontr)
      assume "getNode s x \<noteq> None"
      then obtain y where "getNode s x = Some y" by auto
      from storeInvD(3)[OF inv this] x(1) show False by simp
    qed
    then have "x \<noteq> nextId s \<Longrightarrow> getNode s2 x = None" using r2[of x] by simp
    with x(2) have "x = nextId s" "m = new" by (auto simp: get split: if_splits)
    then show "ident m = x \<and> (nodeFull rg vt) m \<and> x < nextId s'" using newf nid by (simp add: new_def)
  qed
  then show ?thesis by (simp add: s'_def)
qed


lemma restrictOut_twice: "restrictOut D (restrictOut D' ns) = restrictOut (D \<union> D') ns"
  by (auto simp: restrictOut_def intro: filter_cong)

lemma foldOpt_restrict:
  assumes "\<And>c ns ns'. f c ns = Some ns' \<Longrightarrow> \<exists>D. ns' = restrictOut D ns"
  shows "foldOpt f cs ns = Some ns' \<Longrightarrow> \<exists>D. ns' = restrictOut D ns"
proof (induction cs arbitrary: ns)
  case Nil
  then have "ns' = restrictOut {} ns" by (simp add: restrictOut_def)
  then show ?case by blast
next
  case (Cons c cs)
  then obtain ns1 where 1: "f c ns = Some ns1" and 2: "foldOpt f cs ns1 = Some ns'"
    by (auto split: option.splits)
  from assms[OF 1] obtain D1 where "ns1 = restrictOut D1 ns" by blast
  moreover from Cons.IH[OF 2] obtain D2 where "ns' = restrictOut D2 ns1" by blast
  ultimately have "ns' = restrictOut (D2 \<union> D1) ns" by (simp add: restrictOut_twice)
  then show ?case by blast
qed

lemma removeRecursive_restrict:
  "removeRecursive fuel k ns = Some ns' \<Longrightarrow> \<exists>D. ns' = restrictOut D ns"
proof (induction fuel arbitrary: k ns ns')
  case 0
  then show ?case by simp
next
  case (Suc fuel)
  show ?case
  proof (cases "map_of ns k")
    case None
    with Suc.prems have "ns' = restrictOut {} ns" by (simp add: restrictOut_def)
    then show ?thesis by blast
  next
    case (Some n)
    with Suc.prems obtain ns1 where 1: "foldOpt (removeRecursive fuel) (childrenIds n) ns = Some ns1"
      and 2: "ns' = AList.delete k ns1" by (auto split: option.splits)
    have "\<exists>D. ns1 = restrictOut D ns"
      by (rule foldOpt_restrict[where f = "removeRecursive fuel", OF _ 1]) (rule Suc.IH)
    then obtain D where "ns1 = restrictOut D ns" by blast
    with 2 have "ns' = restrictOut (insert k D) ns" by (simp add: delete_restrictOut)
    then show ?thesis by blast
  qed
qed

lemma removeNode_inv:
  assumes inv: "(storeInv rg vt) s" and r: "removeNode fuel k s = Some (b, s')"
  shows "(storeInv rg vt) s' \<and> keepsDead s s'"
proof (cases "getNode s k")
  case None
  with r have "s' = s" by (simp add: removeNode_def)
  then show ?thesis using inv by (simp add: keepsDead_refl)
next
  case (Some node)
  show ?thesis
  proof (cases "ntype node = SEED")
    case True
    with r Some have "s' = s" by (simp add: removeNode_def)
    then show ?thesis using inv by (simp add: keepsDead_refl)
  next
    case False
    let ?detach = "\<lambda>parent. parent\<lparr>childrenIds := filter (\<lambda>c. c \<noteq> k) (childrenIds parent)\<rparr>"
    define s1 where "s1 = (case parentId node of None \<Rightarrow> s | Some p \<Rightarrow> modifyNode p ?detach s)"
    from r Some False obtain ns' where rr: "removeRecursive fuel k (nodes s1) = Some ns'"
      and s': "s' = s1\<lparr>nodes := ns'\<rparr>"
      by (auto simp: removeNode_def Let_def s1_def split: option.splits)
    from removeRecursive_restrict[OF rr] obtain D where D: "ns' = restrictOut D (nodes s1)" by blast
    have g1: "rel_option sameBody (getNode s x) (getNode s1 x)" for x
      by (cases "getNode s x") (auto simp: s1_def sameBody_def split: option.splits)
    have get: "getNode s' x = (if x \<in> D then None else getNode s1 x)" for x
      by (simp add: s' D getNode_def map_of_restrictOut)
    have nid: "nextId s' = nextId s" by (simp add: s' s1_def split: option.splits)
    have k1: "map fst (nodes s1) = map fst (nodes s)" by (simp add: s1_def split: option.splits)
    have d: "distinct (map fst (nodes s'))"
      using storeInv_distinct[OF inv] k1 by (simp add: s' D restrictOut_def distinct_map_filter)
    show ?thesis
    proof (rule rewrite_inv[OF inv _ d])
      show "nextId s \<le> nextId s'" using nid by simp
      fix x show "getNode s' x = None \<or> rel_option sameBody (getNode s x) (getNode s' x)"
        using g1[of x] by (simp add: get)
    next
      fix x m assume x: "nextId s \<le> x" "getNode s' x = Some m"
      then have "getNode s1 x = Some m" by (simp add: get split: if_splits)
      with g1[of x] obtain y where "getNode s x = Some y" by (auto simp: option_rel_Some2)
      from storeInvD(3)[OF inv this] x(1) show "ident m = x \<and> (nodeFull rg vt) m \<and> x < nextId s'" by simp
    qed
  qed
qed


definition rollsOnly :: "Sim \<Rightarrow> Sim \<Rightarrow> bool" where
  "rollsOnly s s' \<longleftrightarrow> (\<exists>n. s' = s\<lparr>rollsUsed := n\<rparr>)"

lemma rollsOnly_refl [simp]: "rollsOnly s s"
  unfolding rollsOnly_def by (rule exI[of _ "rollsUsed s"]) simp

lemma rollsOnly_trans: "rollsOnly s t \<Longrightarrow> rollsOnly t u \<Longrightarrow> rollsOnly s u"
  by (auto simp: rollsOnly_def)

lemma rollsOnly_mathRandom: "mathRandom s = (r, s1) \<Longrightarrow> rollsOnly s s1"
  by (auto simp: mathRandom_def rollsOnly_def)

lemma rollsOnly_pickRandom: "pickRandom xs s = (x, s1) \<Longrightarrow> rollsOnly s s1"
  by (auto simp: pickRandom_def Let_def rollsOnly_def mathRandom_def split: prod.splits)

lemma rollsOnly_frame:
  assumes "rollsOnly s s'"
  shows "nodes s' = nodes s" "nextId s' = nextId s" "resources s' = resources s"
    "getNode s' = getNode s"
  using assms by (auto simp: rollsOnly_def)

definition decided :: "Sim \<Rightarrow> GrowAction option \<times> Sim \<Rightarrow> bool" where
  "decided s res \<longleftrightarrow> rollsOnly s (snd res) \<and> (\<forall>a. fst res = Some a \<longrightarrow> actionType a \<noteq> THICKEN)"

lemma decidedI_none: "rollsOnly s s' \<Longrightarrow> decided s (None, s')"
  by (simp add: decided_def)

lemma decidedI_grow: "rollsOnly s s' \<Longrightarrow> decided s (map_option (\<lambda>t. growAction (g t) ty (d t)) x, s')"
  by (auto simp: decided_def growAction_def)

lemma decided_mono: "rollsOnly s t \<Longrightarrow> decided t res \<Longrightarrow> decided s res"
  by (auto simp: decided_def intro: rollsOnly_trans)

lemma decide6_decided: "decided s (decide6 an s)"
proof (cases "sugar (resources s) \<ge> COST_BRANCH")
  case False
  then show ?thesis by (simp add: decide6_def decidedI_none)
next
  case True
  obtain r s1 where m: "mathRandom s = (r, s1)" by (cases "mathRandom s")
  note r1 = rollsOnly_mathRandom[OF m]
  let ?cands = "filter (\<lambda>n. ntype n = TRUNK) (growthTips an)"
  obtain tg s2 where p: "pickRandom ?cands s1 = (tg, s2)" by (cases "pickRandom ?cands s1")
  obtain r' s3 where m2: "mathRandom s2 = (r', s3)" by (cases "mathRandom s2")
  have r3: "rollsOnly s s3"
    using r1 rollsOnly_pickRandom[OF p] rollsOnly_mathRandom[OF m2] by (blast intro: rollsOnly_trans)
  have "decided s (map_option (\<lambda>t. growAction t BRANCH
          (if r' < 0.5 then \<lparr>vx = - 1, vy = - 1\<rparr> else \<lparr>vx = 1, vy = - 1\<rparr>)) tg, s3)"
    using r3 by (auto simp: decided_def growAction_def)
  then show ?thesis
    using True m p m2 r1 by (simp add: decide6_def Let_def decidedI_none)
qed

lemma decide5_decided: "decided s (decide5 an s)"
proof -
  let ?trunks = "filter (\<lambda>n. ntype n = TRUNK \<or> ntype n = SEED) (growthTips an)"
  obtain tg s1 where p: "pickRandom ?trunks s = (tg, s1)" by (cases "pickRandom ?trunks s")
  have "decided s (map_option (\<lambda>t. growAction t TRUNK \<lparr>vx = 0, vy = - 1\<rparr>) tg, s1)"
    using rollsOnly_pickRandom[OF p] by (auto simp: decided_def growAction_def)
  then show ?thesis using p decide6_decided[of s an] by (simp add: decide5_def Let_def)
qed

lemma decide4_decided: "decided s (decide4 an s)"
proof -
  obtain r s1 where m: "mathRandom s = (r, s1)" by (cases "mathRandom s")
  note r1 = rollsOnly_mathRandom[OF m]
  obtain tg s2 where p: "pickRandom (extendableTrunks an) s1 = (tg, s2)"
    by (cases "pickRandom (extendableTrunks an) s1")
  have "rollsOnly s s2" using r1 rollsOnly_pickRandom[OF p] by (rule rollsOnly_trans)
  then have "decided s (map_option (\<lambda>t. \<lparr> actionType = EXTEND, targetNode = t, growType = None,
                                       direction = Some \<lparr>vx = 0, vy = - 1\<rparr> \<rparr>) tg, s2)"
    by (auto simp: decided_def)
  then show ?thesis
    using m p decide5_decided[of s an] decided_mono[OF r1 decide5_decided[of s1 an]]
    by (simp add: decide4_def Let_def)
qed

lemma decide3_decided: "decided s (decide3 an s)"
proof -
  let ?cands = "filter (\<lambda>n. ntype n = TRUNK \<or> ntype n = BRANCH) (growthTips an)"
  obtain tg s1 where p: "pickRandom ?cands s = (tg, s1)" by (cases "pickRandom ?cands s")
  have "decided s (map_option (\<lambda>t. growAction t LEAF \<lparr>vx = 0, vy = - 1\<rparr>) tg, s1)"
    using rollsOnly_pickRandom[OF p] by (auto simp: decided_def growAction_def)
  then show ?thesis using p decide4_decided[of s an] by (simp add: decide3_def Let_def)
qed

lemma decide2_decided: "decided s (decide2 an s)"
proof -
  let ?roots = "map snd (filter (\<lambda>kn. ntype (snd kn) = ROOT) (nodes s))"
  obtain tr s1 where p: "pickRandom ?roots s = (tr, s1)" by (cases "pickRandom ?roots s")
  note r1 = rollsOnly_pickRandom[OF p]
  obtain dir s2 where q: "getRandomRootDirection s1 = (dir, s2)" by (cases "getRandomRootDirection s1")
  have "rollsOnly s1 s2" using q unfolding getRandomRootDirection_def by (rule rollsOnly_pickRandom)
  then have r2: "rollsOnly s s2" using r1 by (blast intro: rollsOnly_trans)
  have a: "decided s (map_option (\<lambda>d. growAction t ROOT d) dir, s2)" for t
    using r2 by (auto simp: decided_def growAction_def)
  have b: "decided s (decide3 an s1)" using decided_mono[OF r1 decide3_decided] .
  have c: "decided s (None, s1)" using r1 by (rule decidedI_none)
  have d: "decided s (Some (growAction seed ROOT \<lparr>vx = 0, vy = 1\<rparr>), s)" for seed
    by (simp add: decided_def growAction_def)
  show ?thesis
    using p q a b c d decide3_decided[of s an]
    by (simp add: decide2_def Let_def split: option.splits)
qed

lemma decideAction_cases:
  assumes "decideAction an s = (Some a, s')"
  shows "rollsOnly s s' \<and> (actionType a = THICKEN \<longrightarrow> weakestNode an = Some (targetNode a))"
proof (cases "weakestNode an")
  case None
  with assms decide2_decided[of s an] show ?thesis by (auto simp: decideAction_def decided_def)
next
  case (Some w)
  show ?thesis
  proof (cases "stressLevel w > 0.3 \<and> sugar (resources s) \<ge> COST_HARDEN
             \<and> (ntype w = TRUNK \<or> ntype w = BRANCH \<or> ntype w = ROOT)")
    case True
    with assms Some show ?thesis by (auto simp: decideAction_def)
  next
    case False
    with assms Some have "decide2 an s = (Some a, s')" by (auto simp: decideAction_def)
    with decide2_decided[of s an] show ?thesis by (auto simp: decided_def)
  qed
qed

lemma decideAction_none: "decideAction an s = (None, s') \<Longrightarrow> rollsOnly s s'"
  using decide2_decided[of s an]
  by (auto simp: decideAction_def decided_def split: option.splits if_splits)


lemma weakestOf_fold_mem:
  "snd (fold (\<lambda>node (highestStress, weakest).
       if stressLevel node > highestStress then (stressLevel node, Some node)
       else (highestStress, weakest)) ns acc) = Some w \<Longrightarrow> w \<in> set ns \<or> snd acc = Some w"
proof (induction ns arbitrary: acc)
  case Nil
  then show ?case by simp
next
  case (Cons n ns)
  obtain h x where acc: "acc = (h, x)" by (cases acc)
  from Cons.IH[of "if stressLevel n > h then (stressLevel n, Some n) else (h, x)"] Cons.prems
  show ?case by (auto simp: acc split: if_splits)
qed

lemma weakestNode_mem:
  assumes "weakestNode (analyzePlant s) = Some w"
  shows "w \<in> snd ` set (nodes s)"
proof -
  from assms have "snd (weakestOf (filter isActive (map snd (nodes s)))) = Some w"
    by (simp add: analyzePlant_def Let_def)
  from weakestOf_fold_mem[OF this[unfolded weakestOf_def]] show ?thesis by auto
qed

lemma storeInv_sugar [simp]: "(storeInv rg vt) (s\<lparr>resources := r\<rparr>) = (storeInv rg vt) s"
  by (simp add: storeInv_def keysOk_def idsFresh_def allNodes_def)

lemma storeInv_rollsOnly: "rollsOnly s s' \<Longrightarrow> (storeInv rg vt) s' = (storeInv rg vt) s"
  by (auto simp: rollsOnly_def storeInv_def keysOk_def idsFresh_def allNodes_def)

lemma keepsDead_cong_right:
  "keepsDead s t \<Longrightarrow> nodes t' = nodes t \<Longrightarrow> nextId t' = nextId t \<Longrightarrow> keepsDead s t'"
proof -
  assume a: "keepsDead s t" "nodes t' = nodes t" "nextId t' = nextId t"
  have eq: "getNode t' = getNode t" using a(2) by (simp add: fun_eq_iff getNode_def)
  show ?thesis using a unfolding keepsDead_def eq by simp
qed

lemma keepsDead_cong_left:
  "keepsDead s t \<Longrightarrow> nodes s' = nodes s \<Longrightarrow> nextId s' = nextId s \<Longrightarrow> keepsDead s' t"
proof -
  assume a: "keepsDead s t" "nodes s' = nodes s" "nextId s' = nextId s"
  have "getNode s' = getNode s" using a(2) by (simp add: fun_eq_iff getNode_def)
  with a show ?thesis by (simp add: keepsDead_def)
qed

lemma thicken_inv:
  assumes inv: "(storeInv rg vt) s" and mem: "w \<in> snd ` set (nodes s)"
  shows "(storeInv rg vt) (updateNode (ident w) [F_radius (radius w * 1.2)] s)
       \<and> keepsDead s (updateNode (ident w) [F_radius (radius w * 1.2)] s)"
proof -
  from mem obtain k where "(k, w) \<in> set (nodes s)" by auto
  then have g: "getNode s k = Some w" using storeInv_distinct[OF inv] by (simp add: in_nodes_iff)
  have id: "ident w = k" and wf: "(nodeFull rg vt) w" using storeInvD[OF inv g] by auto
  let ?s' = "updateNode (ident w) [F_radius (radius w * 1.2)] s"
  have get: "getNode ?s' x = (if x = k then Some (w\<lparr>radius := radius w * 1.2\<rparr>) else getNode s x)" for x
    using g by (simp add: id objectAssign_def)
  show ?thesis
  proof (rule rewrite_inv_gen[OF inv])
    show "nextId s \<le> nextId ?s'" by simp
    show "distinct (map fst (nodes ?s'))" using storeInv_distinct[OF inv] by simp
    fix x show "getNode ?s' x = None \<or> rel_option (okRewrite rg vt) (getNode s x) (getNode ?s' x)"
    proof (cases "x = k")
      case True
      have "0 < radius w * 1.2" if rg using wf that by (simp add: nodeFull_def nodeOk_def)
      then have "(okRewrite rg vt) w (w\<lparr>radius := radius w * 1.2\<rparr>)"
        by (simp add: okRewrite_def nodeFull_def nodeOk_def vitalsOk_def)
      then show ?thesis using g True unfolding get by simp
    next
      case False
      then show ?thesis unfolding get by (cases "getNode s x") (simp_all add: okRewrite_def)
    qed
  next
    fix x m assume x: "nextId s \<le> x" "getNode ?s' x = Some m"
    have "x \<noteq> k" using storeInvD(3)[OF inv g] x(1) by simp
    with x(2) have "getNode s x = Some m" unfolding get by simp
    from storeInvD(3)[OF inv this] x(1) show "ident m = x \<and> (nodeFull rg vt) m \<and> x < nextId ?s'" by simp
  qed
qed

lemma executeAction_inv:
  assumes inv: "(storeInv rg vt) s"
    and th: "actionType a = THICKEN \<Longrightarrow> targetNode a \<in> snd ` set (nodes s)"
  shows "(storeInv rg vt) (executeAction a s) \<and> keepsDead s (executeAction a s)"
proof (cases "actionType a")
  case THICKEN
  let ?s1 = "updateNode (ident (targetNode a)) [F_radius (radius (targetNode a) * 1.2)] s"
  from thicken_inv[OF inv th[OF THICKEN]]
  have 1: "(storeInv rg vt) ?s1" "keepsDead s ?s1" by auto
  have e: "executeAction a s = ?s1\<lparr>resources := (resources ?s1)\<lparr>sugar := sugar (resources ?s1) - COST_HARDEN\<rparr>\<rparr>"
    using THICKEN by (simp add: executeAction_def Let_def)
  show ?thesis unfolding e using 1 by (auto intro: keepsDead_cong_right)
next
  case EXTEND
  then show ?thesis
    using extendNode_inv[OF inv] inv
    by (auto simp: executeAction_def keepsDead_refl split: option.splits)
next
  case GROW
  have "(storeInv rg vt) (snd (addNode p t pos None s)) \<and> keepsDead s (snd (addNode p t pos None s))" for p t pos
    by (rule addNode_inv[OF inv]) simp
  with GROW show ?thesis
    using inv by (auto simp: executeAction_def Let_def keepsDead_refl split: option.splits)
qed

lemma updateAutoGrow_inv:
  assumes inv: "(storeInv rg vt) s"
  shows "(storeInv rg vt) (updateAutoGrow s) \<and> keepsDead s (updateAutoGrow s)"
proof -
  define s1 where "s1 = s\<lparr>ticksSinceLastGrowth := Suc (ticksSinceLastGrowth s)\<rparr>"
  define s2 where "s2 = s1\<lparr>ticksSinceLastGrowth := 0\<rparr>"
  have f1: "nodes s1 = nodes s" "nextId s1 = nextId s" by (simp_all add: s1_def)
  have f2: "nodes s2 = nodes s" "nextId s2 = nextId s" by (simp_all add: s2_def s1_def)
  have i1: "(storeInv rg vt) s1 \<and> keepsDead s s1"
    using storeInv_nodes[OF inv f1] keepsDead_nodes[OF f1] by simp
  have i2: "(storeInv rg vt) s2 \<and> keepsDead s s2"
    using storeInv_nodes[OF inv f2] keepsDead_nodes[OF f2] by simp
  obtain ao s3 where dec: "decideAction (analyzePlant s2) s2 = (ao, s3)"
    by (cases "decideAction (analyzePlant s2) s2")
  have i3: "(storeInv rg vt) (case (ao, s3) of (None, s3) \<Rightarrow> s3 | (Some action, s3) \<Rightarrow> executeAction action s3)
      \<and> keepsDead s (case (ao, s3) of (None, s3) \<Rightarrow> s3 | (Some action, s3) \<Rightarrow> executeAction action s3)"
  proof (cases ao)
    case None
    with dec have r: "rollsOnly s2 s3" by (auto dest: decideAction_none)
    have "(storeInv rg vt) s3" using storeInv_rollsOnly[OF r] i2 by simp
    moreover have "keepsDead s s3"
      using i2 rollsOnly_frame[OF r] by (auto intro: keepsDead_cong_right)
    ultimately show ?thesis using None by simp
  next
    case (Some a)
    with dec decideAction_cases[of "analyzePlant s2" s2 a s3]
    have r: "rollsOnly s2 s3"
      and w: "actionType a = THICKEN \<longrightarrow> weakestNode (analyzePlant s2) = Some (targetNode a)"
      by auto
    have s3inv: "(storeInv rg vt) s3" using storeInv_rollsOnly[OF r] i2 by simp
    have k3: "keepsDead s s3" using i2 rollsOnly_frame[OF r] by (auto intro: keepsDead_cong_right)
    have "actionType a = THICKEN \<Longrightarrow> targetNode a \<in> snd ` set (nodes s3)"
      using w weakestNode_mem[of s2 "targetNode a"] rollsOnly_frame(1)[OF r] by simp
    from executeAction_inv[OF s3inv this] k3 show ?thesis
      using Some by (auto intro: keepsDead_trans)
  qed
  show ?thesis
    unfolding updateAutoGrow_def Let_def
    using inv i1 i2 i3 dec
    by (simp add: keepsDead_refl s1_def[symmetric] s2_def[symmetric] del: split_paired_All)
qed

section \<open>Reachable states\<close>

lemma tick'_inv:
  assumes inv: "storeInv rg vt s"
  shows "storeInv rg vt (tick' s) \<and> keepsDead s (tick' s)"
proof -
  let ?s1 = "updateMetabolism (updateHydraulics (updateClimateSystem s))"
  have "loopInv (nodeFull rg vt) s ?s1"
    using inv by (intro systems_inv) (simp_all add: storeInv_def)
  from loopInv_storeInv[OF inv this] have 1: "storeInv rg vt ?s1" "keepsDead s ?s1" by auto
  from updateAutoGrow_inv[OF 1(1)]
  have 2: "storeInv rg vt (updateAutoGrow ?s1)" "keepsDead ?s1 (updateAutoGrow ?s1)" by auto
  have f: "nodes (tick' s) = nodes (updateAutoGrow ?s1)" "nextId (tick' s) = nextId (updateAutoGrow ?s1)"
    by (simp_all add: tick'_def incrementTick_def)
  show ?thesis
    using storeInv_nodes[OF 2(1) f] keepsDead_cong_right[OF keepsDead_trans[OF 1(2) 2(2)] f] by simp
qed

lemma frame_inv:
  assumes "storeInv rg vt s" "nodes s' = nodes s" "nextId s' = nextId s"
  shows "storeInv rg vt s' \<and> keepsDead s s'"
  using storeInv_nodes[OF assms] keepsDead_nodes[OF assms(2,3)] by simp

lemma addNodeCall_Returned:
  assumes "addNodeCall key t pos r s = Returned res s'"
  shows "s' = s \<or> (\<exists>k. s' = snd (addNode k t pos r s))"
proof (cases key)
  case (Generated k)
  with assms have "s' = snd (addNode k t pos r s)"
    by (simp add: addNodeCall_def split: prod.splits)
  then show ?thesis by blast
next
  case (Named w)
  with assms show ?thesis by (simp add: addNodeCall_def split: if_splits)
qed

lemma addNodeCall_Generated:
  "addNodeCall (Generated k) t pos r s = Returned (fst (addNode k t pos r s)) (snd (addNode k t pos r s))"
  by (simp add: addNodeCall_def split: prod.splits)


inductive lifeStep :: "Sim \<Rightarrow> Sim \<Rightarrow> bool" where
  addSegment: "addNodeCall key t pos r s = Returned res s' \<Longrightarrow> lifeStep s s'"
| removeSegment: "removeNode fuel k s = Some (b, s') \<Longrightarrow> lifeStep s s'"
| extendSegment: "lifeStep s (snd (extendNode k dir s))"
| updateSegment: "getNode s k = Some n \<Longrightarrow> ident (objectAssign n fs) = ident n
     \<Longrightarrow> vitalsOk (objectAssign n fs)
     \<Longrightarrow> isActive n \<or> \<not> isActive (objectAssign n fs) \<Longrightarrow> lifeStep s (updateNode k fs s)"
| updateMissing: "getNode s k = None \<Longrightarrow> lifeStep s (updateNode k fs s)"
| resources: "lifeStep s (modifyResources ds dw dm s)"
| climate: "lifeStep s (updateClimate f s)"
| select: "lifeStep s (selectNode sel s)"
| paused: "lifeStep s (setPaused b s)"
| speed: "lifeStep s (setSpeedMultiplier m s)"
| autoGrow: "lifeStep s (setAutoGrow b s)"
| clear: "lifeStep s (clearParticles s)"
| tick: "lifeStep s (stepSimulation s)"



inductive lifeReachable :: "Sim \<Rightarrow> bool" where
  init: "lifeReachable (createInitialState rs)"
| reset: "lifeReachable s \<Longrightarrow> lifeReachable (resetState s)"
| after: "lifeReachable s \<Longrightarrow> lifeStep s s' \<Longrightarrow> lifeReachable s'"

lemma merge_inv:
  assumes inv: "storeInv rg vt s" and g: "getNode s k = Some n"
    and id: "ident (objectAssign n fs) = ident n" and q: "nodeFull rg vt (objectAssign n fs)"
  shows "storeInv rg vt (updateNode k fs s)"
proof (rule storeInv_intro)
  show "distinct (map fst (nodes (updateNode k fs s)))" using storeInv_distinct[OF inv] by simp
  fix x m assume a: "getNode (updateNode k fs s) x = Some m"
  show "ident m = x \<and> nodeFull rg vt m \<and> x < nextId (updateNode k fs s)"
  proof (cases "x = k")
    case True
    with a g have "m = objectAssign n fs" by simp
    then show ?thesis using id q storeInvD[OF inv g] True by simp
  next
    case False
    with a have "getNode s x = Some m" by simp
    from storeInvD[OF inv this] show ?thesis by simp
  qed
qed

lemma merge_keepsDead:
  assumes g: "getNode s k = Some n" and a: "isActive n \<or> \<not> isActive (objectAssign n fs)"
  shows "keepsDead s (updateNode k fs s)"
proof (rule keepsDeadI)
  show "nextId s \<le> nextId (updateNode k fs s)" by simp
  fix x assume "x < nextId s" "getNode s x = None"
  then show "getNode (updateNode k fs s) x = None" by (cases "x = k") simp_all
next
  fix x m assume m: "getNode s x = Some m" "\<not> isActive m"
  show "getNode (updateNode k fs s) x = None
      \<or> (\<exists>n'. getNode (updateNode k fs s) x = Some n' \<and> \<not> isActive n')"
  proof (cases "x = k")
    case True
    with m g a show ?thesis by simp
  next
    case False
    with m show ?thesis by simp
  qed
qed

lemma updateMissing_same: "getNode s k = None \<Longrightarrow> updateNode k fs s = s"
  by (simp add: updateNode_def modifyNode_def)

lemma storeInv_keepsDead_refl: "storeInv rg vt s \<Longrightarrow> storeInv rg vt s \<and> keepsDead s s"
  by (simp add: keepsDead_refl)


lemma lifeStep_inv:
  assumes "lifeStep s s'" "storeInv False True s"
  shows "storeInv False True s' \<and> keepsDead s s'"
  using assms
proof (induction rule: lifeStep.induct)
  case (addSegment key t pos r s res s')
  from addNodeCall_Returned[OF addSegment(1)] addSegment(2) addNode_inv[OF addSegment(2), of r]
  show ?case by (auto simp: keepsDead_refl)
next
  case (removeSegment fuel k s b s')
  then show ?case using removeNode_inv by blast
next
  case (extendSegment s k dir)
  then show ?case using extendNode_inv by blast
next
  case (updateSegment s k n fs)
  then show ?case using merge_inv[of False True s k n fs] merge_keepsDead[of s k n fs]
    by (simp add: nodeFull_def)
next
  case (updateMissing s k fs)
  then show ?case by (simp add: updateMissing_same keepsDead_refl)
next
  case (tick s)
  then show ?case unfolding stepSimulation_def using tick'_inv by blast
next
  case (resources s ds dw dm)
  then show ?case by (intro frame_inv) simp_all
next
  case (climate s f)
  then show ?case by (intro frame_inv) (simp_all add: updateClimate_def)
next
  case (select s sel)
  then show ?case by (intro frame_inv) (simp_all add: selectNode_def)
next
  case (paused s b)
  then show ?case by (intro frame_inv) (simp_all add: setPaused_def)
next
  case (speed s m)
  then show ?case by (intro frame_inv) (simp_all add: setSpeedMultiplier_def)
next
  case (autoGrow s b)
  then show ?case by (intro frame_inv) (simp_all add: setAutoGrow_def)
next
  case (clear s)
  then show ?case by (intro frame_inv) (simp_all add: clearParticles_def)
qed

lemma storeInv_init: "storeInv rg vt (createInitialState rs)"
  by (simp add: storeInv_def keysOk_def idsFresh_def allNodes_def createInitialState_def
        seedNode_def nodeFull_def nodeOk_def vitalsOk_def CONFIG)

lemma storeInv_reset: "storeInv rg vt (resetState s)"
  by (simp add: storeInv_def keysOk_def idsFresh_def allNodes_def resetState_def
        seedNode_def nodeFull_def nodeOk_def vitalsOk_def CONFIG)


lemma lifeReachable_storeInv: "lifeReachable s \<Longrightarrow> storeInv False True s"
  by (induction rule: lifeReachable.induct) (auto simp: storeInv_init storeInv_reset dest: lifeStep_inv)

lemma lifeSteps_inv:
  assumes "lifeStep\<^sup>*\<^sup>* s s'" "storeInv False True s"
  shows "storeInv False True s' \<and> keepsDead s s'"
  using assms
proof (induction rule: rtranclp_induct)
  case base
  then show ?case by (simp add: keepsDead_refl)
next
  case (step y z)
  then show ?case using lifeStep_inv[of y z] by (auto intro: keepsDead_trans)
qed

definition keysGrow :: "Sim \<Rightarrow> Sim \<Rightarrow> bool" where
  "keysGrow s s' \<longleftrightarrow> set (map fst (nodes s)) \<subseteq> set (map fst (nodes s'))"

lemma keysGrow_refl [simp]: "keysGrow s s"
  by (simp add: keysGrow_def)

lemma keysGrow_trans: "keysGrow s t \<Longrightarrow> keysGrow t u \<Longrightarrow> keysGrow s u"
  by (auto simp: keysGrow_def)

lemma keysGrow_nodes: "nodes s' = nodes s \<Longrightarrow> keysGrow s s'"
  by (simp add: keysGrow_def)

lemma keysGrow_present:
  "keysGrow s s' \<Longrightarrow> getNode s k = Some n \<Longrightarrow> \<exists>n'. getNode s' k = Some n'"
  using getNode_None_iff[of s k] getNode_None_iff[of s' k] by (auto simp: keysGrow_def)

lemma keysGrow_addNode: "keysGrow s (snd (addNode p t pos r s))"
  by (auto simp: keysGrow_def addNode_def Let_def keys_putNode simp del: set_map split: option.splits)

lemma keysGrow_extendNode: "keysGrow s (snd (extendNode k dir s))"
  by (auto simp: keysGrow_def extendNode_def Let_def keys_putNode simp del: set_map split: option.splits)

lemma keysGrow_executeAction: "keysGrow s (executeAction a s)"
proof (cases "actionType a")
  case THICKEN
  then show ?thesis by (simp add: executeAction_def Let_def keysGrow_def)
next
  case EXTEND
  then show ?thesis by (simp add: executeAction_def keysGrow_extendNode split: option.splits)
next
  case GROW
  then show ?thesis by (simp add: executeAction_def Let_def keysGrow_addNode split: option.splits)
qed

lemma keysGrow_updateAutoGrow: "keysGrow s (updateAutoGrow s)"
proof -
  define s1 where "s1 = s\<lparr>ticksSinceLastGrowth := Suc (ticksSinceLastGrowth s)\<rparr>"
  define s2 where "s2 = s1\<lparr>ticksSinceLastGrowth := 0\<rparr>"
  have n1: "keysGrow s s1" and n2: "keysGrow s s2" by (simp_all add: s1_def s2_def keysGrow_def)
  obtain ao s3 where dec: "decideAction (analyzePlant s2) s2 = (ao, s3)"
    by (cases "decideAction (analyzePlant s2) s2")
  have r: "rollsOnly s2 s3"
  proof (cases ao)
    case None with dec show ?thesis by (auto dest: decideAction_none)
  next
    case (Some a) with dec decideAction_cases[of "analyzePlant s2" s2 a s3] show ?thesis by auto
  qed
  have 3: "keysGrow s s3" using rollsOnly_frame(1)[OF r] by (simp add: keysGrow_def s2_def s1_def)
  have 4: "keysGrow s (case (ao, s3) of (None, s3) \<Rightarrow> s3 | (Some action, s3) \<Rightarrow> executeAction action s3)"
    using 3 keysGrow_trans[OF 3 keysGrow_executeAction] by (cases ao) simp_all
  show ?thesis
    unfolding updateAutoGrow_def Let_def
    using n1 n2 4 dec
    by (simp add: s1_def[symmetric] s2_def[symmetric] del: split_paired_All)
qed

definition deadAt :: "Sim \<Rightarrow> NodeId \<Rightarrow> bool" where
  "deadAt s k = (case getNode s k of None \<Rightarrow> False | Some n \<Rightarrow> isDead n)"

definition goneOrDead :: "Sim \<Rightarrow> NodeId \<Rightarrow> bool" where
  "goneOrDead s k = (case getNode s k of None \<Rightarrow> True | Some n \<Rightarrow> isDead n)"

lemma stays_dead:
  assumes inv: "storeInv rg True s" "storeInv rg True s'" and kd: "keepsDead s s'"
    and g: "getNode s k = Some n" and d: "\<not> isActive n"
  shows "goneOrDead s' k"
proof -
  show ?thesis
  proof (cases "getNode s' k")
    case None
    then show ?thesis by (simp add: goneOrDead_def)
  next
    case (Some n')
    with keepsDead_dead[OF kd storeInvD(3)[OF inv(1) g] g d] have "\<not> isActive n'" by simp
    with storeInvD(2)[OF inv(2) Some] have "isDead n'"
      by (simp add: nodeFull_def vitalsOk_def isDead_def)
    with Some show ?thesis by (simp add: goneOrDead_def)
  qed
qed

lemma dies_in_tick:
  assumes inv: "storeInv rg True s"
    and g: "getNode (processRespiration (processPhotosynthesis (updateHydraulics (updateClimateSystem s)))) k = Some n"
    and a: "isActive n" and th: "STRESS_DEATH_THRESHOLD \<le> newStressOf n"
  shows "deadAt (stepSimulation s) k"
proof -
  let ?t = "processRespiration (processPhotosynthesis (updateHydraulics (updateClimateSystem s)))"
  let ?s1 = "updateMetabolism (updateHydraulics (updateClimateSystem s))"
  have s1: "?s1 = processStressAndHealth ?t" by (simp add: updateMetabolism_def)
  have li: "loopInv (nodeFull rg True) s ?s1"
    using inv by (intro systems_inv) (simp_all add: storeInv_def)
  have 0: "loopInv (nodeFull rg True) s (updateClimateSystem s)"
    using inv by (intro loopInv_cong[OF loopInv_refl]) (simp_all add: storeInv_def)
  have 1: "loopInv (nodeFull rg True) s (processXylemFlow (processRootUptake (processTranspiration (updateClimateSystem s))))"
    by (intro processXylemFlow_inv processRootUptake_inv processTranspiration_inv 0)
  have 2: "loopInv (nodeMid rg True) s (processPhloemFlow (processXylemFlow (processRootUptake (processTranspiration (updateClimateSystem s)))))"
    by (intro processPhloemFlow_inv loopInv_weaken[OF 1] nodeFull_imp_nodeMid)
  have 3: "loopInv (nodeMid rg True) s (updateHydraulics (updateClimateSystem s))"
    unfolding updateHydraulics_def by (rule loopInv_cong[OF 2]) simp_all
  have "loopInv (nodeFull rg True) s ?t"
    by (intro processRespiration_inv processPhotosynthesis_inv 3)
  then have kt: "keysOk ?t" by (rule loopInv_keysOk)
  from processStressAndHealth_pointwise[OF kt] g
  have g1: "getNode ?s1 k = Some (stressHealthNode n)" by (simp add: s1)
  have dn: "\<not> isActive (stressHealthNode n)" "isDead (stressHealthNode n)"
    using a th by (simp_all add: stressHealthNode_def isDead_def)
  from loopInv_storeInv[OF inv li] have i1: "storeInv rg True ?s1" by simp
  from updateAutoGrow_inv[OF i1]
  have i2: "storeInv rg True (updateAutoGrow ?s1)" "keepsDead ?s1 (updateAutoGrow ?s1)" by auto
  from keysGrow_present[OF keysGrow_updateAutoGrow g1]
  obtain n' where g2: "getNode (updateAutoGrow ?s1) k = Some n'" by blast
  from stays_dead[OF i1 i2(1) i2(2) g1 dn(1)] g2 have "isDead n'" by (simp add: goneOrDead_def)
  with g2 show ?thesis
    by (simp add: deadAt_def stepSimulation_def tick'_def incrementTick_def)
qed



text \<open>
  Stores for the examples: the initial state with one leaf added and then written dead by the
  very merge the stress-and-health step performs; that store after the merge of the context
  menu's harden action on the dead leaf (health raised by 0.2, radius by a tenth); and a lone
  seed at stress 1 with no water and no sugar.
\<close>

definition leafStore :: Sim where
  "leafStore = snd (addNode 1 LEAF \<lparr>vx = 0, vy = - 0.25\<rparr> None (createInitialState (\<lambda>i. 0)))"

definition deadLeafStore :: Sim where
  "deadLeafStore = updateNode 2 [F_stressLevel 1, F_structuralHealth 0, F_isActive False] leafStore"

definition hardenedDeadLeafStore :: Sim where
  "hardenedDeadLeafStore =
     updateNode 2 [F_structuralHealth (min 1 (0 + 0.2)), F_radius (LEAF_RADIUS * 1.1)] deadLeafStore"

definition dyingSeed :: Sim where
  "dyingSeed = updateNode 1 [F_waterPressure 0, F_sugarStore 0, F_stressLevel 1] (createInitialState (\<lambda>i. 0))"

definition leafNode :: PlantNode where
  "leafNode = \<lparr> ident = 2, ntype = LEAF, position = \<lparr>vx = 0, vy = - 0.25\<rparr>, parentId = Some 1,
             childrenIds = [], radius = LEAF_RADIUS, structuralHealth = 1, waterPressure = 0.475,
             sugarConcentration = 0.72, sugarStore = 0, isActive = True, stressLevel = 0 \<rparr>"

lemma leafStore_nodes:
  "nodes leafStore = [(1, (seedNode 1)\<lparr>childrenIds := [2]\<rparr>), (2, leafNode)]"
  "nextId leafStore = 3"
  by (simp_all add: leafStore_def leafNode_def addNode_def getNode_def putNode_def modifyNode_def
        createInitialState_def seedNode_def getNodeCost_def getDefaultRadius_def Let_def CONFIG)

lemma leafStore_call:
  "addNodeCall (Generated 1) LEAF \<lparr>vx = 0, vy = - 0.25\<rparr> None (createInitialState (\<lambda>i. 0))
     = Returned (fst (addNode 1 LEAF \<lparr>vx = 0, vy = - 0.25\<rparr> None (createInitialState (\<lambda>i. 0)))) leafStore"
  by (simp add: addNodeCall_Generated leafStore_def)

lemma deadLeafStore_nodes:
  "nodes deadLeafStore =
     [(1, (seedNode 1)\<lparr>childrenIds := [2]\<rparr>),
      (2, leafNode\<lparr>structuralHealth := 0, isActive := False, stressLevel := 1\<rparr>)]"
  "nextId deadLeafStore = 3"
  by (simp_all add: deadLeafStore_def leafStore_nodes leafNode_def updateNode_def modifyNode_def
        getNode_def putNode_def objectAssign_def)

lemma hardenedDeadLeafStore_nodes:
  "nodes hardenedDeadLeafStore =
     [(1, (seedNode 1)\<lparr>childrenIds := [2]\<rparr>),
      (2, leafNode\<lparr>structuralHealth := 0.2, isActive := False, stressLevel := 1, radius := LEAF_RADIUS * 1.1\<rparr>)]"
  by (simp add: hardenedDeadLeafStore_def deadLeafStore_nodes leafNode_def updateNode_def modifyNode_def
        getNode_def putNode_def objectAssign_def)

lemma dyingSeed_nodes:
  "nodes dyingSeed = [(1, (seedNode 1)\<lparr>waterPressure := 0, sugarStore := 0, stressLevel := 1\<rparr>)]"
  by (simp add: dyingSeed_def updateNode_def modifyNode_def getNode_def putNode_def
        objectAssign_def createInitialState_def seedNode_def)




text \<open>
  Claim C6, amended. Take the states reached from the initial seed state by resets, ticks and
  calls of the mutation API that return, where every \<open>updateNode\<close> on a stored segment keeps
  its id, reactivates no inactive segment and leaves no inactive segment with a structural
  health other than 0 or a stress other than 1. In every such state \<open>s\<close>: every inactive
  segment has structural health 0 and stress 1; a segment that is active when the
  stress-and-health step of the next tick starts and whose new stress reaches the death
  threshold is, at the end of that tick, in the store with structural health 0, stress 1 and
  inactive; and a segment that is inactive in \<open>s\<close> is, after every further sequence of such
  ticks and calls, either pruned from the store or inactive with structural health 0 and
  stress 1.
\<close>

theorem death_immediate_and_final:
  assumes "lifeReachable s"
  shows "allNodes vitalsOk s
       \<and> (\<forall>k n. getNode (processRespiration (processPhotosynthesis (updateHydraulics (updateClimateSystem s)))) k = Some n
            \<and> isActive n \<and> STRESS_DEATH_THRESHOLD \<le> newStressOf n
          \<longrightarrow> deadAt (stepSimulation s) k)
       \<and> (\<forall>s' k n. lifeStep\<^sup>*\<^sup>* s s' \<and> getNode s k = Some n \<and> \<not> isActive n \<longrightarrow> goneOrDead s' k)"
proof (intro conjI allI impI)
  note inv = lifeReachable_storeInv[OF assms]
  from inv have "allNodes (nodeFull False True) s" by (simp add: storeInv_def)
  then show "allNodes vitalsOk s" by (simp add: allNodes_def nodeFull_def list_all_iff)
  fix k n
  assume "getNode (processRespiration (processPhotosynthesis (updateHydraulics (updateClimateSystem s)))) k = Some n
            \<and> isActive n \<and> STRESS_DEATH_THRESHOLD \<le> newStressOf n"
  then show "deadAt (stepSimulation s) k" using dies_in_tick[OF inv] by blast
next
  note inv = lifeReachable_storeInv[OF assms]
  fix s' k n
  assume a: "lifeStep\<^sup>*\<^sup>* s s' \<and> getNode s k = Some n \<and> \<not> isActive n"
  from lifeSteps_inv[of s s'] a inv have "storeInv False True s'" "keepsDead s s'" by auto
  from stays_dead[OF inv this] a show "goneOrDead s' k" by blast
qed

lemma dyingSeed_beforeStress:
  "getNode (processRespiration (processPhotosynthesis (updateHydraulics (updateClimateSystem dyingSeed)))) 1
     = Some ((seedNode 1)\<lparr>waterPressure := 0, sugarStore := 0, stressLevel := 1, sugarConcentration := 0.79\<rparr>)"
  apply (simp add: dyingSeed_def createInitialState_def seedNode_def CONFIG
        updateClimateSystem_def updateClimate_def updateHydraulics_def processTranspiration_def
        processRootUptake_def processXylemFlow_def processPhloemFlow_def updateParticles_def
        processPhotosynthesis_def processRespiration_def forEachNode_def forEachKey_def
        transpirationBody_def rootUptakeBody_def xylemBody_def phloemBody_def photosynthesisBody_def
        respirationBody_def getNodesByType_def getChildren_def live_def mathRandom_def
        getNode_def updateNode_def modifyNode_def putNode_def objectAssign_def Let_def
        filterParticles.simps
        split: prod.splits)
  done

lemma lifeReachable_examples: "lifeReachable dyingSeed" "lifeReachable deadLeafStore"
proof -
  have g0: "getNode (createInitialState (\<lambda>i. 0)) 1 = Some (seedNode 1)"
    by (simp add: getNode_def createInitialState_def)
  show "lifeReachable dyingSeed" unfolding dyingSeed_def
    by (rule lifeReachable.after[OF lifeReachable.init lifeStep.updateSegment[OF g0]])
       (simp_all add: objectAssign_def seedNode_def vitalsOk_def)
  have g1: "getNode leafStore 2 = Some leafNode" by (simp add: getNode_def leafStore_nodes)
  have "lifeReachable leafStore"
    by (rule lifeReachable.after[OF lifeReachable.init lifeStep.addSegment[OF leafStore_call]])
  then show "lifeReachable deadLeafStore" unfolding deadLeafStore_def
    by (rule lifeReachable.after[OF _ lifeStep.updateSegment[OF g1]])
       (simp_all add: objectAssign_def leafNode_def vitalsOk_def)
qed

theorem death_immediate_and_final_witness:
  "allNodes vitalsOk deadLeafStore \<and> deadAt (stepSimulation dyingSeed) 1
     \<and> goneOrDead (stepSimulation deadLeafStore) 2"
proof -
  let ?n = "(seedNode 1)\<lparr>waterPressure := 0, sugarStore := 0, stressLevel := 1, sugarConcentration := 0.79\<rparr>"
  have a: "isActive ?n" "STRESS_DEATH_THRESHOLD \<le> newStressOf ?n"
    by (simp_all add: seedNode_def newStressOf_def CONFIG)
  have g: "getNode deadLeafStore 2 = Some (leafNode\<lparr>structuralHealth := 0, isActive := False, stressLevel := 1\<rparr>)"
    by (simp add: getNode_def deadLeafStore_nodes)
  have st: "lifeStep\<^sup>*\<^sup>* deadLeafStore (stepSimulation deadLeafStore)"
    by (rule r_into_rtranclp) (rule lifeStep.tick)
  from death_immediate_and_final[OF lifeReachable_examples(1)] dyingSeed_beforeStress a
  have 1: "deadAt (stepSimulation dyingSeed) 1" by blast
  from death_immediate_and_final[OF lifeReachable_examples(2)] st g
  have 2: "goneOrDead (stepSimulation deadLeafStore) 2"
    by (elim conjE allE[where x = 2] allE[where x = "stepSimulation deadLeafStore"]) simp
  from death_immediate_and_final[OF lifeReachable_examples(2)]
  have 3: "allNodes vitalsOk deadLeafStore" by simp
  from 1 2 3 show ?thesis by simp
qed



text \<open>
  A merge that rewrites the \<open>id\<close> field: the seed of \<open>deadLeafStore\<close> is given the id of the
  dead leaf. The systems write to a segment through its \<open>id\<close> field, so in the next tick
  respiration and the stress-and-health step of the seed write to the dead leaf.
\<close>

definition relabelledSeed :: PlantNode where
  "relabelledSeed = (seedNode 1)\<lparr>childrenIds := [2], ident := 2\<rparr>"

definition relabelledStore :: Sim where
  "relabelledStore = updateNode 1 [F_ident 2] deadLeafStore"

lemma relabelledStore_nodes:
  "nodes relabelledStore =
     [(1, relabelledSeed), (2, leafNode\<lparr>structuralHealth := 0, isActive := False, stressLevel := 1\<rparr>)]"
  by (simp add: relabelledStore_def relabelledSeed_def deadLeafStore_nodes updateNode_def modifyNode_def
        getNode_def putNode_def objectAssign_def seedNode_def)

lemma autoGrowEnabled_frame [simp]:
  "autoGrowEnabled (updateClimateSystem s) = autoGrowEnabled s"
  "autoGrowEnabled (updateParticles s) = autoGrowEnabled s"
  by (simp_all add: updateClimateSystem_def updateClimate_def mathRandom_def updateParticles_def
        Let_def split: prod.splits)

lemma relabelled_quiet:
  assumes "nodes t = [(1, relabelledSeed), (2, m)]" "\<not> isActive m"
  shows "processTranspiration t = t" "processRootUptake t = t" "processXylemFlow t = t"
    "processPhloemFlow t = t" "processPhotosynthesis t = t"
  using assms
  by (simp_all add: processTranspiration_def processRootUptake_def processXylemFlow_def
        processPhloemFlow_def processPhotosynthesis_def forEachNode_def forEachKey_def
        transpirationBody_def rootUptakeBody_def xylemBody_def phloemBody_def phloemChildBody_def
        photosynthesisBody_def getNodesByType_def getChildren_def getNode_def relabelledSeed_def
        seedNode_def)

lemma relabelled_respiration:
  assumes "nodes t = [(1, relabelledSeed), (2, m)]" "\<not> isActive m"
  shows "\<exists>m'. nodes (processRespiration t) = [(1, relabelledSeed), (2, m')] \<and> \<not> isActive m'"
    "autoGrowEnabled (processRespiration t) = autoGrowEnabled t"
  using assms
  by (simp_all add: processRespiration_def forEachNode_def forEachKey_def respirationBody_def
        getNode_def updateNode_def modifyNode_def putNode_def objectAssign_def relabelledSeed_def
        seedNode_def CONFIG Let_def)

lemma relabelled_stress:
  assumes "nodes t = [(1, relabelledSeed), (2, m)]" "\<not> isActive m"
  shows "nodes (processStressAndHealth t) = [(1, relabelledSeed), (2, m\<lparr>stressLevel := 0, structuralHealth := 1\<rparr>)]"
    "autoGrowEnabled (processStressAndHealth t) = autoGrowEnabled t"
  using assms
  by (simp_all add: processStressAndHealth_def forEachNode_def forEachKey_def stressHealthBody_def
        getNode_def updateNode_def modifyNode_def putNode_def objectAssign_def relabelledSeed_def
        seedNode_def CONFIG Let_def)


lemma relabelledStore_tick:
  "\<exists>m. getNode (stepSimulation relabelledStore) 2 = Some m \<and> stressLevel m = 0"
proof -
  let ?c = "updateClimateSystem relabelledStore"
  let ?d = "leafNode\<lparr>structuralHealth := 0, isActive := False, stressLevel := 1\<rparr>"
  have c: "nodes ?c = [(1, relabelledSeed), (2, ?d)]" "\<not> isActive ?d"
    by (simp_all add: relabelledStore_nodes)
  have h: "updateHydraulics ?c = updateParticles ?c"
    by (simp only: updateHydraulics_def relabelled_quiet[OF c])
  have p: "nodes (updateParticles ?c) = [(1, relabelledSeed), (2, ?d)]" using c by simp
  have ph: "processPhotosynthesis (updateParticles ?c) = updateParticles ?c"
    by (rule relabelled_quiet(5)[OF p c(2)])
  from relabelled_respiration[OF p c(2)] obtain m' where
    r: "nodes (processRespiration (updateParticles ?c)) = [(1, relabelledSeed), (2, m')]" "\<not> isActive m'"
    by blast
  have ag0: "\<not> autoGrowEnabled relabelledStore"
    by (simp add: relabelledStore_def deadLeafStore_def leafStore_def addNode_def createInitialState_def
          Let_def updateNode_def modifyNode_def putNode_def getNode_def getNodeCost_def CONFIG)
  have "autoGrowEnabled (updateMetabolism (updateHydraulics ?c)) = autoGrowEnabled relabelledStore"
    by (simp only: updateMetabolism_def h ph relabelled_stress(2)[OF r]
          relabelled_respiration(2)[OF p c(2)] autoGrowEnabled_frame)
  with ag0 have ag: "\<not> autoGrowEnabled (updateMetabolism (updateHydraulics ?c))" by simp
  have "nodes (stepSimulation relabelledStore) = nodes (updateMetabolism (updateHydraulics ?c))"
    using ag by (simp add: stepSimulation_def tick'_def incrementTick_def updateAutoGrow_def)
  also have "\<dots> = [(1, relabelledSeed), (2, m'\<lparr>stressLevel := 0, structuralHealth := 1\<rparr>)]"
    by (simp add: updateMetabolism_def h ph relabelled_stress(1)[OF r])
  finally show ?thesis by (simp add: getNode_def)
qed

text \<open>
  Claim C6 as stated fails: \<open>updateNode\<close> merges into a dead segment as into any other, and
  it can write the fields the death rests on. On the dead leaf of \<open>deadLeafStore\<close>, a merge of
  \<open>isActive\<close> reactivates it, and the merge of the context menu's harden action leaves it
  inactive with structural health 0.2. A merge of \<open>isActive\<close> alone on the healthy seed of the
  initial state leaves an inactive segment with structural health 1 and stress 0. After a
  merge that gives the seed the id of the dead leaf, one tick leaves the dead leaf with
  stress 0.
\<close>

theorem death_counterexample:
  "deadAt deadLeafStore 2 \<and> \<not> goneOrDead (updateNode 2 [F_isActive True] deadLeafStore) 2
     \<and> \<not> goneOrDead hardenedDeadLeafStore 2
     \<and> \<not> allNodes vitalsOk (updateNode 1 [F_isActive False] (createInitialState (\<lambda>i. 0)))
     \<and> \<not> goneOrDead (stepSimulation (updateNode 1 [F_ident 2] deadLeafStore)) 2"
proof -
  from relabelledStore_tick have "\<not> goneOrDead (stepSimulation (updateNode 1 [F_ident 2] deadLeafStore)) 2"
    by (auto simp: goneOrDead_def isDead_def relabelledStore_def)
  moreover have "deadAt deadLeafStore 2 \<and> \<not> goneOrDead (updateNode 2 [F_isActive True] deadLeafStore) 2
     \<and> \<not> goneOrDead hardenedDeadLeafStore 2"
    by (simp add: deadAt_def goneOrDead_def isDead_def getNode_def updateNode_def modifyNode_def putNode_def
        objectAssign_def deadLeafStore_nodes hardenedDeadLeafStore_nodes leafNode_def)
  moreover have "\<not> allNodes vitalsOk (updateNode 1 [F_isActive False] (createInitialState (\<lambda>i. 0)))"
    by (simp add: allNodes_def vitalsOk_def updateNode_def modifyNode_def getNode_def putNode_def
        objectAssign_def createInitialState_def seedNode_def)
  ultimately show ?thesis by simp
qed

section \<open>A two-segment chain\<close>

text \<open>
  One tick on a chain of two segments: a parentless segment \<open>r\<close> with the single child \<open>c\<close>.
  \<open>chainAt s r c B\<close> says that the store holds exactly such a chain and that the two water
  pressures satisfy \<open>B\<close>; the lemmas follow the pressures through the systems of the tick in
  the order in which \<open>stepSimulation\<close> runs them.
\<close>

definition chainNodes :: "PlantNode \<Rightarrow> PlantNode \<Rightarrow> NodeId \<Rightarrow> NodeId \<Rightarrow> bool" where
  "chainNodes R C r c \<longleftrightarrow> parentId R = None \<and> childrenIds R = [c] \<and> parentId C = Some r
     \<and> childrenIds C = [] \<and> isActive R \<and> isActive C \<and> radius R = 0.02 \<and> radius C = 0.02"

definition chainAt :: "Sim \<Rightarrow> NodeId \<Rightarrow> NodeId \<Rightarrow> (real \<Rightarrow> real \<Rightarrow> bool) \<Rightarrow> bool" where
  "chainAt s r c B \<longleftrightarrow> keysOk s \<and> r \<noteq> c
     \<and> (map fst (nodes s) = [r, c] \<or> map fst (nodes s) = [c, r])
     \<and> (\<exists>R C. getNode s r = Some R \<and> getNode s c = Some C \<and> chainNodes R C r c
            \<and> B (waterPressure R) (waterPressure C))"

lemma chainAt_nodes:
  assumes "chainAt s r c B" "nodes s' = nodes s"
  shows "chainAt s' r c B"
proof -
  have "getNode s' = getNode s" "keysOk s' = keysOk s"
    using assms(2) by (simp_all add: getNode_def fun_eq_iff keysOk_def)
  with assms show ?thesis unfolding chainAt_def by simp
qed

lemma chainAtD:
  assumes "chainAt s r c B"
  obtains R C where "keysOk s" "r \<noteq> c" "map fst (nodes s) = [r, c] \<or> map fst (nodes s) = [c, r]"
    "getNode s r = Some R" "getNode s c = Some C" "chainNodes R C r c"
    "B (waterPressure R) (waterPressure C)"
proof -
  from assms have 1: "keysOk s" "r \<noteq> c" "map fst (nodes s) = [r, c] \<or> map fst (nodes s) = [c, r]"
    and 2: "\<exists>R C. getNode s r = Some R \<and> getNode s c = Some C \<and> chainNodes R C r c
            \<and> B (waterPressure R) (waterPressure C)"
    unfolding chainAt_def by simp_all
  from 2 obtain R C where "getNode s r = Some R" "getNode s c = Some C" "chainNodes R C r c"
            "B (waterPressure R) (waterPressure C)" by auto
  with 1 that show thesis by simp
qed

lemma chainAt_pointwise:
  assumes ch: "chainAt s r c B" and keys: "map fst (nodes s') = map fst (nodes s)"
    and get: "\<And>k. getNode s' k = map_option g (getNode s k)" and id: "\<And>n. ident (g n) = ident n"
    and st: "\<And>R C. chainNodes R C r c \<Longrightarrow> B (waterPressure R) (waterPressure C)
               \<Longrightarrow> chainNodes (g R) (g C) r c \<and> B' (waterPressure (g R)) (waterPressure (g C))"
  shows "chainAt s' r c B'"
proof -
  from ch obtain R C where k: "keysOk s" "r \<noteq> c"
      "map fst (nodes s) = [r, c] \<or> map fst (nodes s) = [c, r]"
      and g: "getNode s r = Some R" "getNode s c = Some C" and cn: "chainNodes R C r c"
      and b: "B (waterPressure R) (waterPressure C)"
    by (rule chainAtD)
  have k': "keysOk s'" by (rule keysOk_pointwise[OF k(1) keys get id])
  have "getNode s' r = Some (g R)" "getNode s' c = Some (g C)" using g by (simp_all add: get)
  with st[OF cn b] k' k(2,3) keys show ?thesis unfolding chainAt_def by auto
qed

lemma transpiration_chain:
  assumes "chainAt s r c (\<lambda>p q. p = 0.9 \<and> q = 0.1)"
  shows "chainAt (processTranspiration s) r c (\<lambda>p q. 0.12 \<le> p \<and> p \<le> 0.9 \<and> q = 0.1)"
proof -
  have k: "keysOk s" using assms by (simp add: chainAt_def)
  note pw = processTranspiration_pointwise[OF k]
  show ?thesis
  proof (rule chainAt_pointwise[OF assms])
    show "map fst (nodes (processTranspiration s)) = map fst (nodes s)" using pw by simp
    show "getNode (processTranspiration s) k = map_option
            (transpireNode (0.2 + sunIntensity (climate s) * (1 + temperature (climate s) / 40) * 0.8))
            (getNode s k)" for k using pw by simp
    show "ident (transpireNode tf n) = ident n" for tf n by (simp add: transpireNode_def)
    fix R C assume "chainNodes R C r c" "waterPressure R = 0.9 \<and> waterPressure C = 0.1"
    then show "chainNodes (transpireNode tf R) (transpireNode tf C) r c
        \<and> 0.12 \<le> waterPressure (transpireNode tf R) \<and> waterPressure (transpireNode tf R) \<le> 0.9
        \<and> waterPressure (transpireNode tf C) = 0.1" for tf
      by (auto simp: chainNodes_def transpireNode_def max_def min_def)
  qed
qed

lemma uptake_arith_parent:
  fixes sw p u :: real
  assumes "sw \<le> 1" "0.12 \<le> p" "p \<le> 0.9" "u = 0.12 * 0.02 * max 0.1 (sw - p)" "u > 0.001"
  shows "0.12 \<le> min 1.0 (p + u) \<and> min 1.0 (p + u) \<le> 0.9"
proof -
  have "sw - p > 0.1" using assms(4,5) by (auto simp: max_def split: if_splits)
  then have u: "u = 0.0024 * (sw - p)" using assms(4) by (simp add: max_def)
  have "sw - p > 5 / 12" using assms(5) unfolding u by simp
  then have "p < 7 / 12" using assms(1) by simp
  moreover have "u \<le> 0.0024" "0 < u" using assms(1,2) \<open>sw - p > 0.1\<close> unfolding u by simp_all
  ultimately show ?thesis using assms(2) by (simp add: min_def)
qed

lemma uptake_arith_child:
  fixes sw u :: real
  assumes "sw \<le> 1" "u = 0.12 * 0.02 * max 0.1 (sw - 0.1)"
  shows "0.1 \<le> min 1.0 (0.1 + u) \<and> min 1.0 (0.1 + u) \<le> 0.10216"
proof -
  have "0.1 \<le> max 0.1 (sw - 0.1)" "max 0.1 (sw - 0.1) \<le> 0.9" using assms(1) by (simp_all add: max_def)
  then have "0 < u" "u \<le> 0.00216" unfolding assms(2) by simp_all
  then show ?thesis by (simp add: min_def)
qed

lemma chainNodes_radius:
  assumes "chainNodes R C r c"
  shows "radius R = 0.02" "radius C = 0.02"
  using assms unfolding chainNodes_def by blast+

lemma uptake_chain:
  assumes "chainAt s r c (\<lambda>p q. 0.12 \<le> p \<and> p \<le> 0.9 \<and> q = 0.1)"
  shows "chainAt (processRootUptake s) r c (\<lambda>p q. 0.12 \<le> p \<and> p \<le> 0.9 \<and> 0.1 \<le> q \<and> q \<le> 0.10216)"
proof -
  have k: "keysOk s" using assms by (simp add: chainAt_def)
  note pw = processRootUptake_pointwise[OF k]
  have sw: "soilWaterAt cl d \<le> 1" for cl d by (simp add: soilWaterAt_def)
  show ?thesis
  proof (rule chainAt_pointwise[OF assms])
    show "map fst (nodes (processRootUptake s)) = map fst (nodes s)" using pw by simp
    show "getNode (processRootUptake s) k = map_option (uptakeNode (climate s)) (getNode s k)" for k
      using pw by simp
    show "ident (uptakeNode cl n) = ident n" for cl n by (simp add: uptakeNode_def)
    fix R C assume a: "chainNodes R C r c" "0.12 \<le> waterPressure R \<and> waterPressure R \<le> 0.9 \<and> waterPressure C = 0.1"
    let ?cl = "climate s"
    have pC: "waterPressure C = 0.1" using a(2) by blast
    have uR: "uptakeOf ?cl R = 0.12 * 0.02 * max 0.1 (soilWaterAt ?cl \<bar>vy (position R)\<bar> - waterPressure R)"
      unfolding uptakeOf_def ROOT_UPTAKE_RATE_def chainNodes_radius(1)[OF a(1)] by (rule refl)
    have uC: "uptakeOf ?cl C = 0.12 * 0.02 * max 0.1 (soilWaterAt ?cl \<bar>vy (position C)\<bar> - 0.1)"
      unfolding uptakeOf_def ROOT_UPTAKE_RATE_def chainNodes_radius(2)[OF a(1)] pC by (rule refl)
    have cn: "chainNodes (uptakeNode ?cl R) (uptakeNode ?cl C) r c"
      using a(1) by (simp add: chainNodes_def uptakeNode_def)
    have pr: "0.12 \<le> waterPressure (uptakeNode ?cl R) \<and> waterPressure (uptakeNode ?cl R) \<le> 0.9"
    proof (cases "ntype R = ROOT \<and> isActive R \<and> soilWaterAt ?cl \<bar>vy (position R)\<bar> > 0.1
         \<and> waterPressure R < 0.95 \<and> uptakeOf ?cl R > 0.001")
      case True
      then have e: "waterPressure (uptakeNode ?cl R) = min 1.0 (waterPressure R + uptakeOf ?cl R)"
        by (simp add: uptakeNode_def)
      have "0.12 \<le> min 1.0 (waterPressure R + uptakeOf ?cl R)
          \<and> min 1.0 (waterPressure R + uptakeOf ?cl R) \<le> 0.9"
        by (rule uptake_arith_parent[OF sw _ _ uR]) (use a(2) True in blast)+
      then show ?thesis unfolding e .
    next
      case False
      then have "uptakeNode ?cl R = R" unfolding uptakeNode_def by (rule if_not_P)
      then show ?thesis using a(2) by simp
    qed
    have pc: "0.1 \<le> waterPressure (uptakeNode ?cl C) \<and> waterPressure (uptakeNode ?cl C) \<le> 0.10216"
    proof (cases "ntype C = ROOT \<and> isActive C \<and> soilWaterAt ?cl \<bar>vy (position C)\<bar> > 0.1
         \<and> waterPressure C < 0.95 \<and> uptakeOf ?cl C > 0.001")
      case True
      then have e: "waterPressure (uptakeNode ?cl C) = min 1.0 (0.1 + uptakeOf ?cl C)"
        by (simp add: uptakeNode_def pC)
      show ?thesis unfolding e by (rule uptake_arith_child[OF sw uC])
    next
      case False
      then have "uptakeNode ?cl C = C" unfolding uptakeNode_def by (rule if_not_P)
      then show ?thesis using pC by simp
    qed
    from cn pr pc
    show "chainNodes (uptakeNode (climate s) R) (uptakeNode (climate s) C) r c
        \<and> 0.12 \<le> waterPressure (uptakeNode (climate s) R) \<and> waterPressure (uptakeNode (climate s) R) \<le> 0.9
        \<and> 0.1 \<le> waterPressure (uptakeNode (climate s) C) \<and> waterPressure (uptakeNode (climate s) C) \<le> 0.10216"
      by blast
  qed
qed


lemma xylemBody_parentless: "parentId R = None \<Longrightarrow> xylemBody r R s = s"
  by (simp add: xylemBody_def)

definition xylemTransfer :: "PlantNode \<Rightarrow> PlantNode \<Rightarrow> real" where
  "xylemTransfer R C = min (WATER_FLOW_RATE * (waterPressure R - waterPressure C) * min (radius C) (radius R))
       (waterPressure R * 0.5)"

lemma xylemBody_child:
  assumes g: "getNode s r = Some R" "getNode s c = Some C"
    and ids: "ident R = r" "ident C = c" "r \<noteq> c"
    and cn: "isActive R" "isActive C" "parentId C = Some r"
    and d: "waterPressure R - waterPressure C > FLOW_THRESHOLD"
  shows "nodes (xylemBody c C s) =
     nodes (updateNode c [F_waterPressure (min 1.0 (waterPressure C + xylemTransfer R C * 0.95))]
             (updateNode r [F_waterPressure (waterPressure R - xylemTransfer R C)] s))"
proof -
  let ?af = "xylemTransfer R C"
  let ?sa = "updateNode r [F_waterPressure (waterPressure R - ?af)] s"
  let ?sb = "updateNode c [F_waterPressure (min 1.0 (waterPressure C + ?af * 0.95))] ?sa"
  have la: "live ?sa c C = C" using g ids by (simp add: live_def)
  have "xylemBody c C s =
      (let s1 = (if ?af > 0.0005 then spawnOnRoll 0.3 r c xylem (?af * 15) ?sb else ?sb);
           parent' = live s1 r R; node'' = live s1 c C
       in if waterPressure parent' > 0.1 \<or> waterPressure node'' > 0.1
          then spawnOnRoll 0.02 (ident parent') (ident node'') xylem 0.8 s1 else s1)"
    unfolding xylemBody_def xylemTransfer_def[symmetric]
    by (simp only: cn g ids d la Let_def simp_thms if_True if_False option.case xylemTransfer_def[symmetric])
  then show ?thesis by (simp add: Let_def)
qed


lemma xylem_arith:
  fixes p q af :: real
  assumes "0.12 \<le> p" "p \<le> 0.9" "0.1 \<le> q" "q \<le> 0.10216"
    and af: "af = min (0.4 * (p - q) * min 0.02 0.02) (p * 0.5)"
  shows "0 \<le> p - af \<and> p - af < 0.9 \<and> 0.1 \<le> min 1.0 (q + af * 0.95) \<and> min 1.0 (q + af * 0.95) \<le> 0.11"
proof -
  have "0.4 * (p - q) * min 0.02 0.02 = 0.008 * (p - q)" by simp
  moreover have "0.008 * (p - q) \<le> p * 0.5" using assms(1-4) by simp
  ultimately have "af = 0.008 * (p - q)" unfolding af by (simp add: min_def)
  then show ?thesis using assms(1-4) by (simp add: min_def)
qed

lemma chainAt_write:
  assumes ch: "chainAt s r c B" and g: "getNode s r = Some R" "getNode s c = Some C"
    and b: "B' x y"
  shows "chainAt (updateNode c [F_waterPressure y] (updateNode r [F_waterPressure x] s)) r c B'"
proof -
  let ?t = "updateNode c [F_waterPressure y] (updateNode r [F_waterPressure x] s)"
  from ch obtain R' C' where k: "keysOk s" "r \<noteq> c"
      "map fst (nodes s) = [r, c] \<or> map fst (nodes s) = [c, r]"
      and g': "getNode s r = Some R'" "getNode s c = Some C'" and cn: "chainNodes R' C' r c"
    by (rule chainAtD)
  have eq: "R' = R" "C' = C" using g g' by simp_all
  have get: "getNode ?t k = (if k = c then Some (C\<lparr>waterPressure := y\<rparr>)
       else if k = r then Some (R\<lparr>waterPressure := x\<rparr>) else getNode s k)" for k
    using g k(2) by (simp add: objectAssign_def)
  have kt: "keysOk ?t"
  proof (rule keysOkI)
    show "distinct (map fst (nodes ?t))" using k(1) by (simp add: keysOk_def)
    fix k n assume "getNode ?t k = Some n"
    then show "ident n = k"
      using keysOk_ident[OF k(1) g(1)] keysOk_ident[OF k(1) g(2)] keysOk_ident[OF k(1), of k n]
      unfolding get by (auto split: if_splits)
  qed
  have "chainNodes (R\<lparr>waterPressure := x\<rparr>) (C\<lparr>waterPressure := y\<rparr>) r c"
    using cn unfolding eq by (simp add: chainNodes_def)
  with kt k(2,3) b show ?thesis
    unfolding chainAt_def using get[of r] get[of c] by auto
qed

lemma xylem_chain:
  assumes ch: "chainAt s r c (\<lambda>p q. 0.12 \<le> p \<and> p \<le> 0.9 \<and> 0.1 \<le> q \<and> q \<le> 0.10216)"
  shows "chainAt (processXylemFlow s) r c (\<lambda>p q. 0 \<le> p \<and> p < 0.9 \<and> 0.1 \<le> q \<and> q \<le> 0.11)"
proof -
  from ch obtain R C where k: "keysOk s" "r \<noteq> c"
      "map fst (nodes s) = [r, c] \<or> map fst (nodes s) = [c, r]"
      and g: "getNode s r = Some R" "getNode s c = Some C" and cn: "chainNodes R C r c"
      and b: "0.12 \<le> waterPressure R \<and> waterPressure R \<le> 0.9 \<and> 0.1 \<le> waterPressure C \<and> waterPressure C \<le> 0.10216"
    by (rule chainAtD)
  let ?af = "xylemTransfer R C"
  let ?t = "updateNode c [F_waterPressure (min 1.0 (waterPressure C + ?af * 0.95))]
             (updateNode r [F_waterPressure (waterPressure R - ?af)] s)"
  have af: "?af = min (0.4 * (waterPressure R - waterPressure C) * min 0.02 0.02) (waterPressure R * 0.5)"
    unfolding xylemTransfer_def WATER_FLOW_RATE_def chainNodes_radius[OF cn] by (rule refl)
  have d: "waterPressure R - waterPressure C > FLOW_THRESHOLD" using b by (simp add: CONFIG)
  have ids: "ident R = r" "ident C = c" using keysOk_ident[OF k(1)] g by simp_all
  have act: "isActive R" "isActive C" "parentId C = Some r" "parentId R = None"
    using cn by (simp_all add: chainNodes_def)
  note body = xylemBody_child[OF g ids k(2) act(1,2,3) d]
  have nodes: "nodes (processXylemFlow s) = nodes ?t"
    using k(3)
  proof
    assume o: "map fst (nodes s) = [r, c]"
    have "processXylemFlow s = xylemBody c C s"
      unfolding processXylemFlow_def forEachNode_def o forEachKey_def
      by (simp add: g xylemBody_parentless[OF act(4)])
    then show ?thesis using body by simp
  next
    assume o: "map fst (nodes s) = [c, r]"
    have "getNode (xylemBody c C s) r = getNode ?t r" using body by (simp add: getNode_def)
    then have gr: "getNode (xylemBody c C s) r = Some (R\<lparr>waterPressure := waterPressure R - ?af\<rparr>)"
      using g k(2) by (simp add: objectAssign_def)
    have "processXylemFlow s = xylemBody c C s"
      unfolding processXylemFlow_def forEachNode_def o forEachKey_def
      by (simp add: g gr xylemBody_parentless act(4))
    then show ?thesis using body by simp
  qed
  have "chainAt ?t r c (\<lambda>p q. 0 \<le> p \<and> p < 0.9 \<and> 0.1 \<le> q \<and> q \<le> 0.11)"
    by (rule chainAt_write[OF ch g]) (use xylem_arith[OF _ _ _ _ af] b in blast)
  then show ?thesis by (rule chainAt_nodes) (rule nodes)
qed


definition keepsWater :: "PlantNode \<Rightarrow> PlantNode \<Rightarrow> bool" where
  "keepsWater n n' \<longleftrightarrow> ident n' = ident n \<and> parentId n' = parentId n \<and> childrenIds n' = childrenIds n
     \<and> radius n' = radius n \<and> isActive n' = isActive n \<and> waterPressure n' = waterPressure n"

definition sugarOnly :: "Sim \<Rightarrow> Sim \<Rightarrow> bool" where
  "sugarOnly s s' \<longleftrightarrow> map fst (nodes s') = map fst (nodes s) \<and> nextId s' = nextId s
     \<and> (\<forall>x. rel_option keepsWater (getNode s x) (getNode s' x))"

lemma keepsWater_refl [simp]: "keepsWater n n"
  by (simp add: keepsWater_def)

lemma keepsWater_trans: "keepsWater a b \<Longrightarrow> keepsWater b c \<Longrightarrow> keepsWater a c"
  by (simp add: keepsWater_def)

lemma sugarOnly_refl [simp]: "sugarOnly s s"
  by (simp add: sugarOnly_def option.rel_refl)

lemma sugarOnly_getNode:
  assumes "sugarOnly s t" "getNode t' = getNode t" "map fst (nodes t') = map fst (nodes t)" "nextId t' = nextId t"
  shows "sugarOnly s t'"
  using assms by (simp add: sugarOnly_def)

lemma sugarOnly_spawnOnRoll: "sugarOnly s t \<Longrightarrow> sugarOnly s (spawnOnRoll ch f t' ty sp t)"
  by (rule sugarOnly_getNode) simp_all

lemma sugarOnly_write:
  assumes "sugarOnly s t" "\<And>n. keepsWater n (objectAssign n fs)"
  shows "sugarOnly s (updateNode k fs t)"
  unfolding sugarOnly_def
proof (intro conjI allI)
  show "map fst (nodes (updateNode k fs t)) = map fst (nodes s)" using assms(1) by (simp add: sugarOnly_def)
  show "nextId (updateNode k fs t) = nextId s" using assms(1) by (simp add: sugarOnly_def)
  fix x
  from assms(1) have r: "rel_option keepsWater (getNode s x) (getNode t x)" by (simp add: sugarOnly_def)
  show "rel_option keepsWater (getNode s x) (getNode (updateNode k fs t) x)"
  proof (cases "x = k")
    case False then show ?thesis using r by simp
  next
    case True
    show ?thesis using r unfolding True
      by (cases "getNode s k"; cases "getNode t k") (auto intro: keepsWater_trans[OF _ assms(2)])
  qed
qed

lemma sugarOnly_write2:
  "sugarOnly s t \<Longrightarrow> sugarOnly s (updateNode k [F_sugarConcentration x, F_sugarStore y] t)"
  by (rule sugarOnly_write) (simp_all add: objectAssign_def keepsWater_def)

lemma sugarOnly_write1:
  "sugarOnly s t \<Longrightarrow> sugarOnly s (updateNode k [F_sugarConcentration x] t)"
  by (rule sugarOnly_write) (simp_all add: objectAssign_def keepsWater_def)

lemma sugarOnly_if: "sugarOnly s a \<Longrightarrow> sugarOnly s b \<Longrightarrow> sugarOnly s (if P then a else b)"
  by simp

lemma sugarOnly_case_option:
  "sugarOnly s a \<Longrightarrow> (\<And>x. sugarOnly s (f x)) \<Longrightarrow> sugarOnly s (case v of None \<Rightarrow> a | Some x \<Rightarrow> f x)"
  by (cases v) simp_all

lemma sugarOnly_phloemChildBody:
  assumes "sugarOnly s t"
  shows "sugarOnly s (phloemChildBody k c t)"
  unfolding phloemChildBody_def Let_def
  by (intro sugarOnly_case_option sugarOnly_if sugarOnly_spawnOnRoll sugarOnly_write2 sugarOnly_write1 assms)

lemma sugarOnly_fold: "sugarOnly s t \<Longrightarrow> sugarOnly s (fold (phloemChildBody k) cs t)"
  by (induction cs arbitrary: t) (simp_all add: sugarOnly_phloemChildBody)

lemma sugarOnly_phloemBody: "sugarOnly s t \<Longrightarrow> sugarOnly s (phloemBody k n t)"
  by (simp add: phloemBody_def sugarOnly_fold)

lemma sugarOnly_processPhloemFlow: "sugarOnly s (processPhloemFlow s)"
  unfolding processPhloemFlow_def forEachNode_def
  by (rule forEachKey_inv[where I = "sugarOnly s"]) (simp_all add: sugarOnly_phloemBody)

lemma phloem_chain:
  assumes ch: "chainAt s r c B"
  shows "chainAt (processPhloemFlow s) r c B"
proof -
  let ?t = "processPhloemFlow s"
  from ch obtain R C where k: "keysOk s" "r \<noteq> c"
      "map fst (nodes s) = [r, c] \<or> map fst (nodes s) = [c, r]"
      and g: "getNode s r = Some R" "getNode s c = Some C" and cn: "chainNodes R C r c"
      and b: "B (waterPressure R) (waterPressure C)"
    by (rule chainAtD)
  have so: "map fst (nodes ?t) = map fst (nodes s)"
    and rel: "\<And>x. rel_option keepsWater (getNode s x) (getNode ?t x)"
    using sugarOnly_processPhloemFlow[of s] by (simp_all add: sugarOnly_def)
  from rel[of r] g obtain R' where R': "getNode ?t r = Some R'" "keepsWater R R'"
    by (auto simp: option_rel_Some1)
  from rel[of c] g obtain C' where C': "getNode ?t c = Some C'" "keepsWater C C'"
    by (auto simp: option_rel_Some1)
  have kt: "keysOk ?t"
  proof (rule keysOkI)
    show "distinct (map fst (nodes ?t))" using k(1) so by (simp add: keysOk_def)
    fix x n assume a: "getNode ?t x = Some n"
    with rel[of x] obtain m where "getNode s x = Some m" "keepsWater m n"
      by (auto simp: option_rel_Some2)
    then show "ident n = x" using keysOk_ident[OF k(1)] by (simp add: keepsWater_def)
  qed
  have "chainNodes R' C' r c" "B (waterPressure R') (waterPressure C')"
    using cn b R'(2) C'(2) by (simp_all add: chainNodes_def keepsWater_def)
  with kt k(2,3) so R'(1) C'(1) show ?thesis unfolding chainAt_def by auto
qed


lemma photosynthesis_chain:
  assumes "chainAt s r c (\<lambda>p q. 0 \<le> p \<and> p < 0.9 \<and> 0.1 \<le> q \<and> q \<le> 0.11)"
  shows "chainAt (processPhotosynthesis s) r c (\<lambda>p q. 0 \<le> p \<and> p < 0.9 \<and> 0.1 \<le> q \<and> q \<le> 0.11)"
proof -
  have k: "keysOk s" using assms by (simp add: chainAt_def)
  note pw = processPhotosynthesis_pointwise[OF k]
  let ?cl = "climate s"
  show ?thesis
  proof (rule chainAt_pointwise[OF assms])
    show "map fst (nodes (processPhotosynthesis s)) = map fst (nodes s)" using pw by simp
    show "getNode (processPhotosynthesis s) k = map_option (photosynthNode ?cl) (getNode s k)" for k
      using pw by simp
    show "ident (photosynthNode cl n) = ident n" for cl n by (simp add: photosynthNode_def)
    fix R C assume a: "chainNodes R C r c"
      "0 \<le> waterPressure R \<and> waterPressure R < 0.9 \<and> 0.1 \<le> waterPressure C \<and> waterPressure C \<le> 0.11"
    have cn: "chainNodes (photosynthNode ?cl R) (photosynthNode ?cl C) r c"
      using a(1) by (simp add: chainNodes_def photosynthNode_def)
    have "photosynthNode ?cl C = C" using a(2) by (simp add: photosynthNode_def CONFIG)
    then have pc: "0.1 \<le> waterPressure (photosynthNode ?cl C) \<and> waterPressure (photosynthNode ?cl C) \<le> 0.11"
      using a(2) by simp
    have pr: "0 \<le> waterPressure (photosynthNode ?cl R) \<and> waterPressure (photosynthNode ?cl R) < 0.9"
    proof (cases "isActive R \<and> \<not> (ntype R \<noteq> LEAF \<and> length (childrenIds R) > 0)
         \<and> \<not> waterPressure R < MIN_WATER_FOR_PHOTOSYNTHESIS \<and> sugarProducedBy ?cl R > 0")
      case True
      then have e: "waterPressure (photosynthNode ?cl R)
          = max 0 (waterPressure R - sugarProducedBy ?cl R * WATER_PER_SUGAR * 0.1)"
        by (simp add: photosynthNode_def)
      have "0 < sugarProducedBy ?cl R * WATER_PER_SUGAR * 0.1" using True by (simp add: CONFIG)
      then show ?thesis unfolding e using a(2) by (simp add: max_def)
    next
      case False
      then have "photosynthNode ?cl R = R" unfolding photosynthNode_def by (rule if_not_P)
      then show ?thesis using a(2) by simp
    qed
    from cn pr pc
    show "chainNodes (photosynthNode ?cl R) (photosynthNode ?cl C) r c
        \<and> 0 \<le> waterPressure (photosynthNode ?cl R) \<and> waterPressure (photosynthNode ?cl R) < 0.9
        \<and> 0.1 \<le> waterPressure (photosynthNode ?cl C) \<and> waterPressure (photosynthNode ?cl C) \<le> 0.11"
      by blast
  qed
qed

lemma respiration_chain:
  assumes "chainAt s r c B"
  shows "chainAt (processRespiration s) r c B"
proof -
  have k: "keysOk s" using assms by (simp add: chainAt_def)
  note pw = processRespiration_pointwise[OF k]
  show ?thesis
  proof (rule chainAt_pointwise[OF assms])
    show "map fst (nodes (processRespiration s)) = map fst (nodes s)" using pw by simp
    show "getNode (processRespiration s) k = map_option respireNode (getNode s k)" for k
      using pw by simp
    show "ident (respireNode n) = ident n" for n by (simp add: respireNode_def)
    fix R C assume a: "chainNodes R C r c" "B (waterPressure R) (waterPressure C)"
    have "waterPressure (respireNode n) = waterPressure n" for n by (simp add: respireNode_def)
    moreover have "chainNodes (respireNode R) (respireNode C) r c"
      using a(1) by (simp add: chainNodes_def respireNode_def)
    ultimately show "chainNodes (respireNode R) (respireNode C) r c
        \<and> B (waterPressure (respireNode R)) (waterPressure (respireNode C))"
      using a(2) by simp
  qed
qed

definition gapAt :: "Sim \<Rightarrow> NodeId \<Rightarrow> NodeId \<Rightarrow> (real \<Rightarrow> real \<Rightarrow> bool) \<Rightarrow> bool" where
  "gapAt s r c B \<longleftrightarrow> (\<exists>R C. getNode s r = Some R \<and> getNode s c = Some C
      \<and> B (waterPressure R) (waterPressure C))"

lemma stress_chain:
  assumes "chainAt s r c B"
  shows "gapAt (processStressAndHealth s) r c B"
proof -
  from assms obtain R C where k: "keysOk s"
      and g: "getNode s r = Some R" "getNode s c = Some C"
      and b: "B (waterPressure R) (waterPressure C)"
    by (rule chainAtD)
  note pw = processStressAndHealth_pointwise[OF k]
  have w: "waterPressure (stressHealthNode n) = waterPressure n" for n
    by (simp add: stressHealthNode_def)
  have "getNode (processStressAndHealth s) r = Some (stressHealthNode R)"
    "getNode (processStressAndHealth s) c = Some (stressHealthNode C)"
    using pw g by simp_all
  then show ?thesis unfolding gapAt_def using b w by auto
qed

lemma nextId_xylemBody: "nextId (xylemBody k n s) = nextId s"
  by (simp only: xylemBody_def Let_def frame_prims2 simp_thms split: if_split option.split)

lemma nextId_processXylemFlow: "nextId (processXylemFlow s) = nextId s"
  by (simp add: processXylemFlow_def forEachNode_def forEachKey_nextId nextId_xylemBody)

lemma nextId_systems:
  "nextId (updateMetabolism (updateHydraulics (updateClimateSystem s))) = nextId s"
proof -
  have "nextId (processPhloemFlow t) = nextId t" for t
    using sugarOnly_processPhloemFlow[of t] by (simp add: sugarOnly_def)
  then show ?thesis
    by (simp add: updateMetabolism_def updateHydraulics_def nextId_processXylemFlow)
qed


definition waterKept :: "Sim \<Rightarrow> Sim \<Rightarrow> bool" where
  "waterKept s s' \<longleftrightarrow> (\<forall>k n. k < nextId s \<longrightarrow> getNode s k = Some n
      \<longrightarrow> (\<exists>n'. getNode s' k = Some n' \<and> waterPressure n' = waterPressure n))"

lemma waterKept_refl [simp]: "waterKept s s"
  by (simp add: waterKept_def)

lemma waterKeptI:
  assumes "\<And>k n. k < nextId s \<Longrightarrow> getNode s k = Some n
      \<Longrightarrow> \<exists>n'. getNode s' k = Some n' \<and> waterPressure n' = waterPressure n"
  shows "waterKept s s'"
  using assms unfolding waterKept_def by blast

lemma waterKeptD:
  assumes "waterKept s s'" "k < nextId s" "getNode s k = Some n"
  shows "\<exists>n'. getNode s' k = Some n' \<and> waterPressure n' = waterPressure n"
  using assms unfolding waterKept_def by blast

lemma waterKept_getNode:
  assumes "waterKept s t" "getNode t' = getNode t"
  shows "waterKept s t'"
  using assms by (simp add: waterKept_def)

lemma waterKept_addNode: "waterKept s (snd (addNode p t pos r s))"
proof (cases "fst (addNode p t pos r s)")
  case None
  then have "snd (addNode p t pos r s) = s" using rejected_mutation_atomic by blast
  then show ?thesis by simp
next
  case (Some node)
  then obtain parent where par: "getNode s p = Some parent"
    and cost: "\<not> sugar (resources s) < getNodeCost t"
    by (auto simp: addNode_def Let_def split: option.splits if_splits)
  have get: "k \<noteq> nextId s \<Longrightarrow> getNode (snd (addNode p t pos r s)) k =
       (if k = p then Some (parent\<lparr>childrenIds := childrenIds parent @ [nextId s]\<rparr>)
        else getNode s k)" for k
    using par cost by (simp add: addNode_def Let_def)
  show ?thesis
  proof (rule waterKeptI)
    fix k n assume "k < nextId s" "getNode s k = Some n"
    then show "\<exists>n'. getNode (snd (addNode p t pos r s)) k = Some n' \<and> waterPressure n' = waterPressure n"
      using get[of k] par by auto
  qed
qed

lemma waterKept_extendNode: "waterKept s (snd (extendNode k dir s))"
proof (cases "fst (extendNode k dir s)")
  case None
  then have "snd (extendNode k dir s) = s" using rejected_mutation_atomic by blast
  then show ?thesis by simp
next
  case (Some nn)
  then obtain node where n: "getNode s k = Some node"
    and ty: "\<not> (ntype node \<noteq> TRUNK \<and> ntype node \<noteq> BRANCH \<and> ntype node \<noteq> ROOT)"
    and cost: "\<not> sugar (resources s) < getNodeCost (ntype node)"
    by (auto simp: extendNode_def Let_def split: option.splits if_splits)
  define new where "new = \<lparr> ident = nextId s, ntype = ntype node, position = shiftBy dir (position node),
       parentId = Some k, childrenIds = childrenIds node,
       radius = radius node * 0.95, structuralHealth = 1.0,
       waterPressure = waterPressure node * 0.98,
       sugarConcentration = sugarConcentration node * 0.98,
       sugarStore = 0, isActive = True, stressLevel = 0 \<rparr>"
  define f where "f = (\<lambda>(c::NodeId) (child::PlantNode). child\<lparr>parentId := Some (nextId s),
                                                position := shiftBy dir (position child)\<rparr>)"
  define s2 where "s2 = fold (\<lambda>c. modifyNode c (f c)) (childrenIds node) (s\<lparr>nextId := Suc (nextId s)\<rparr>)"
  define s' where "s' = snd (extendNode k dir s)"
  have s': "s' = (putNode (nextId s) new (modifyNode k (\<lambda>n. n\<lparr>childrenIds := [nextId s]\<rparr>) s2))
                   \<lparr>resources := (resources s)\<lparr>sugar := sugar (resources s) - getNodeCost (ntype node)\<rparr>\<rparr>"
    using n ty cost unfolding s'_def extendNode_def Let_def s2_def f_def new_def
    by (auto simp del: fold_simps)
  have fsame: "\<And>c m. sameBody m (f c m)" by (simp add: f_def sameBody_def)
  have r2: "rel_option sameBody (getNode s x) (getNode s2 x)" for x
    using fold_modify_sameBody[of f "s\<lparr>nextId := Suc (nextId s)\<rparr>" x "childrenIds node", OF fsame]
    by (simp add: s2_def)
  have get: "getNode s' x = (if x = nextId s then Some new
       else if x = k then map_option (\<lambda>n. n\<lparr>childrenIds := [nextId s]\<rparr>) (getNode s2 x)
       else getNode s2 x)" for x
    by (simp add: s')
  have "waterKept s s'"
  proof (rule waterKeptI)
    fix x m assume a: "x < nextId s" "getNode s x = Some m"
    from r2[of x] a(2) obtain m2 where m2: "getNode s2 x = Some m2" "sameBody m m2"
      by (auto simp: option_rel_Some1)
    then have "waterPressure m2 = waterPressure m" by (simp add: sameBody_def)
    then show "\<exists>n'. getNode s' x = Some n' \<and> waterPressure n' = waterPressure m"
      using a(1) m2(1) by (cases "x = k") (simp_all add: get)
  qed
  then show ?thesis by (simp add: s'_def)
qed

lemma waterKept_executeAction: "waterKept s (executeAction a s)"
proof (cases "actionType a")
  case THICKEN
  have "waterKept s (updateNode k [F_radius x] s)" for k x
  proof (rule waterKeptI)
    fix ka n assume "ka < nextId s" "getNode s ka = Some n"
    then show "\<exists>n'. getNode (updateNode k [F_radius x] s) ka = Some n' \<and> waterPressure n' = waterPressure n"
      by (cases "ka = k") (simp_all add: objectAssign_def)
  qed
  then have "waterKept s (updateNode k [F_radius x] s\<lparr>resources := res\<rparr>)" for k x res
    by (rule waterKept_getNode) simp
  with THICKEN show ?thesis by (simp add: executeAction_def Let_def)
next
  case EXTEND
  then show ?thesis by (simp add: executeAction_def waterKept_extendNode split: option.splits)
next
  case GROW
  then show ?thesis by (simp add: executeAction_def Let_def waterKept_addNode split: option.splits)
qed

lemma waterKept_updateAutoGrow: "waterKept s (updateAutoGrow s)"
proof -
  define s1 where "s1 = s\<lparr>ticksSinceLastGrowth := Suc (ticksSinceLastGrowth s)\<rparr>"
  define s2 where "s2 = s1\<lparr>ticksSinceLastGrowth := 0\<rparr>"
  have n1: "waterKept s s1" and n2: "waterKept s s2" by (simp_all add: s1_def s2_def waterKept_def)
  obtain ao s3 where dec: "decideAction (analyzePlant s2) s2 = (ao, s3)"
    by (cases "decideAction (analyzePlant s2) s2")
  have r: "rollsOnly s2 s3"
  proof (cases ao)
    case None with dec show ?thesis by (auto dest: decideAction_none)
  next
    case (Some a) with dec decideAction_cases[of "analyzePlant s2" s2 a s3] show ?thesis by auto
  qed
  have f3: "getNode s3 = getNode s" "nextId s3 = nextId s"
    using rollsOnly_frame[OF r] by (simp_all add: s2_def s1_def fun_eq_iff)
  have 3: "waterKept s s3" using f3 by (simp add: waterKept_def)
  have e: "waterKept s (executeAction a s3)" for a
    using waterKept_executeAction[of s3 a] f3 by (simp add: waterKept_def)
  have 4: "waterKept s (case (ao, s3) of (None, s3) \<Rightarrow> s3 | (Some action, s3) \<Rightarrow> executeAction action s3)"
    using 3 e by (cases ao) simp_all
  show ?thesis
    unfolding updateAutoGrow_def Let_def
    using n1 n2 4 dec
    by (simp add: s1_def[symmetric] s2_def[symmetric] del: split_paired_All)
qed

definition chainStore :: "Sim \<Rightarrow> NodeId \<Rightarrow> NodeId \<Rightarrow> bool" where
  "chainStore s r c \<longleftrightarrow> r \<noteq> c \<and> r < nextId s \<and> c < nextId s \<and> length (nodes s) = 2
     \<and> (case (getNode s r, getNode s c) of
          (Some R, Some C) \<Rightarrow>
             ident R = r \<and> ident C = c
           \<and> parentId R = None \<and> childrenIds R = [c] \<and> parentId C = Some r \<and> childrenIds C = []
           \<and> isActive R \<and> isActive C \<and> radius R = 0.02 \<and> radius C = 0.02
           \<and> waterPressure R = 0.9 \<and> waterPressure C = 0.1
        | _ \<Rightarrow> False)"

definition pressureGap :: "Sim \<Rightarrow> NodeId \<Rightarrow> NodeId \<Rightarrow> real option" where
  "pressureGap s r c =
     (case (getNode s r, getNode s c) of
        (Some R, Some C) \<Rightarrow> Some \<bar>waterPressure R - waterPressure C\<bar>
      | _ \<Rightarrow> None)"

lemma chainStore_chainAt:
  assumes "chainStore s r c"
  shows "chainAt s r c (\<lambda>p q. p = 0.9 \<and> q = 0.1)"
proof -
  from assms obtain R C where g: "getNode s r = Some R" "getNode s c = Some C"
    by (auto simp: chainStore_def split: option.splits)
  with assms have f: "r \<noteq> c" "length (nodes s) = 2" "ident R = r" "ident C = c"
    "chainNodes R C r c" "waterPressure R = 0.9" "waterPressure C = 0.1"
    by (simp_all add: chainStore_def chainNodes_def)
  from f(2) obtain a x b y where ns: "nodes s = [(a, x), (b, y)]"
    by (cases "nodes s"; cases "tl (nodes s)"; cases "tl (tl (nodes s))") auto
  from g f(1) have ab: "(a = r \<and> x = R \<and> b = c \<and> y = C) \<or> (a = c \<and> x = C \<and> b = r \<and> y = R)"
    by (auto simp: getNode_def ns split: if_splits)
  then have "keysOk s" "map fst (nodes s) = [r, c] \<or> map fst (nodes s) = [c, r]"
    using f(1,3,4) by (auto simp: keysOk_def ns)
  with g f show ?thesis unfolding chainAt_def by auto
qed

lemma chain_after_tick:
  assumes "chainStore s r c"
  shows "gapAt (stepSimulation s) r c (\<lambda>p q. 0 \<le> p \<and> p < 0.9 \<and> 0.1 \<le> q \<and> q \<le> 0.11)"
proof -
  let ?B = "\<lambda>p q::real. 0 \<le> p \<and> p < 0.9 \<and> 0.1 \<le> q \<and> q \<le> 0.11"
  let ?s0 = "updateClimateSystem s"
  let ?s3 = "processXylemFlow (processRootUptake (processTranspiration ?s0))"
  let ?s5 = "updateHydraulics ?s0"
  let ?s7 = "processRespiration (processPhotosynthesis ?s5)"
  let ?s8 = "updateMetabolism ?s5"
  have 0: "chainAt ?s0 r c (\<lambda>p q. p = 0.9 \<and> q = 0.1)"
    by (rule chainAt_nodes[OF chainStore_chainAt[OF assms]]) simp
  have 3: "chainAt ?s3 r c ?B"
    by (intro xylem_chain uptake_chain transpiration_chain 0)
  have 5: "chainAt ?s5 r c ?B"
    unfolding updateHydraulics_def by (rule chainAt_nodes[OF phloem_chain[OF 3]]) simp
  have 7: "chainAt ?s7 r c ?B"
    by (intro respiration_chain photosynthesis_chain 5)
  have 8: "gapAt ?s8 r c ?B"
    unfolding updateMetabolism_def by (rule stress_chain[OF 7])
  then obtain R C where g: "getNode ?s8 r = Some R" "getNode ?s8 c = Some C"
    and b: "?B (waterPressure R) (waterPressure C)" unfolding gapAt_def by blast
  have lt: "r < nextId ?s8" "c < nextId ?s8" using assms by (simp_all add: nextId_systems chainStore_def)
  from waterKeptD[OF waterKept_updateAutoGrow lt(1) g(1)]
  obtain R' where R': "getNode (updateAutoGrow ?s8) r = Some R'" "waterPressure R' = waterPressure R"
    by blast
  from waterKeptD[OF waterKept_updateAutoGrow lt(2) g(2)]
  obtain C' where C': "getNode (updateAutoGrow ?s8) c = Some C'" "waterPressure C' = waterPressure C"
    by blast
  have "getNode (stepSimulation s) = getNode (updateAutoGrow ?s8)"
    by (simp add: stepSimulation_def tick'_def incrementTick_def fun_eq_iff)
  with R' C' b show ?thesis unfolding gapAt_def by simp
qed

text \<open>
  Claim C9. In a store that holds exactly a two-segment chain (a parentless segment \<open>r\<close> whose
  only child is \<open>c\<close>, both active, both of radius 0.02, water pressure 0.9 at \<open>r\<close> and 0.1 at
  \<open>c\<close>; ids drawn from the counter), with the flow threshold 0.003 of the configuration, one
  \<open>stepSimulation\<close> leaves both segments in the store with an absolute pressure gap strictly
  below the gap before the step, whatever the random rolls, the climate, the types and the
  sugar fields are, and whether or not the growth heuristic is enabled.
\<close>

theorem chain_gap_shrinks:
  assumes "chainStore s r c"
  shows "\<exists>g g'. pressureGap s r c = Some g \<and> pressureGap (stepSimulation s) r c = Some g' \<and> g' < g"
proof -
  from assms have g0: "pressureGap s r c = Some 0.8"
    by (auto simp: chainStore_def pressureGap_def split: option.splits)
  from chain_after_tick[OF assms]
  obtain R C where "getNode (stepSimulation s) r = Some R" "getNode (stepSimulation s) c = Some C"
    "0 \<le> waterPressure R \<and> waterPressure R < 0.9 \<and> 0.1 \<le> waterPressure C \<and> waterPressure C \<le> 0.11"
    unfolding gapAt_def by blast
  then have "pressureGap (stepSimulation s) r c = Some \<bar>waterPressure R - waterPressure C\<bar>"
    "\<bar>waterPressure R - waterPressure C\<bar> < 0.8"
    by (simp_all add: pressureGap_def abs_if)
  with g0 show ?thesis by blast
qed

definition chainExample :: Sim where
  "chainExample = (createInitialState (\<lambda>i. 0))\<lparr>
     nodes := [(1, (exampleNode 1 ROOT None [2])\<lparr>waterPressure := 0.9\<rparr>),
               (2, (exampleNode 2 TRUNK (Some 1) [])\<lparr>waterPressure := 0.1\<rparr>)],
     nextId := 3 \<rparr>"

theorem chain_gap_shrinks_witness:
  "\<exists>g g'. pressureGap chainExample 1 2 = Some g \<and> pressureGap (stepSimulation chainExample) 1 2 = Some g' \<and> g' < g"
proof -
  have "chainStore chainExample 1 2"
    by (simp add: chainStore_def chainExample_def createInitialState_def exampleNode_def getNode_def)
  from chain_gap_shrinks[OF this] show ?thesis .
qed

end
